(* ===== verification/Prelude.thy ===== *)
theory Prelude
  imports Main "HOL-Library.Word"
begin

text \<open>
  Shared vocabulary of the development: names for the C integer types and for byte buffers, the
  buffer operations the C code performs with \<open>memcpy\<close> and \<open>memset\<close>, and the generic list and word
  lemmas the component theories use.  The collections \<open>buf_simps\<close> (buffer updates) and \<open>ring_simps\<close>
  (indices of circular arrays) carry the component proofs.
\<close>

unbundle bit_operations_syntax

type_synonym byte = "8 word"
type_synonym bytes = "8 word list"
type_synonym u16 = "16 word"
type_synonym u32 = "32 word"
type_synonym u64 = "64 word"

text \<open>A C object pointer is its address; \<open>0\<close> is \<open>NULL\<close>.\<close>

type_synonym ptr = nat

abbreviation (input) NULL :: ptr where
  "NULL \<equiv> 0"

named_theorems buf_simps
named_theorems ring_simps

subsection \<open>Byte buffers\<close>

text \<open>
  \<open>put_at buf off src\<close> is \<open>memcpy(buf + off, src, length src)\<close> for a copy that stays inside
  \<open>buf\<close>.
\<close>

definition put_at :: "'a list \<Rightarrow> nat \<Rightarrow> 'a list \<Rightarrow> 'a list" where
  "put_at buf off src = take off buf @ src @ drop (off + length src) buf"

definition get_at :: "'a list \<Rightarrow> nat \<Rightarrow> nat \<Rightarrow> 'a list" where
  "get_at buf off n = take n (drop off buf)"

lemma length_put_at [simp, buf_simps]:
  "off + length src \<le> length buf \<Longrightarrow> length (put_at buf off src) = length buf"
  by (simp add: put_at_def)

lemma byte_less: "unat (b :: byte) < 256"
  using unsigned_less [of b, where 'a = nat] by simp

lemma length_get_at [simp, buf_simps]:
  "off + n \<le> length buf \<Longrightarrow> length (get_at buf off n) = n"
  by (simp add: get_at_def)

lemma put_at_same [buf_simps]:
  "off + n \<le> length buf \<Longrightarrow> put_at buf off (get_at buf off n) = buf"
  by (simp add: put_at_def get_at_def) (metis append_take_drop_id drop_drop add.commute)

lemma get_put_same [buf_simps]:
  "off + length src \<le> length buf \<Longrightarrow> n = length src \<Longrightarrow> get_at (put_at buf off src) off n = src"
  by (simp add: put_at_def get_at_def)

lemma nth_put_at [buf_simps]:
  assumes "off + length src \<le> length buf" "i < length buf"
  shows "put_at buf off src ! i =
    (if off \<le> i \<and> i < off + length src then src ! (i - off) else buf ! i)"
  using assms by (auto simp: put_at_def nth_append min_def not_less)

lemma nth_put_at_outside [buf_simps]:
  assumes "off + length src \<le> length buf" "i < length buf" "i < off \<or> off + length src \<le> i"
  shows "put_at buf off src ! i = buf ! i"
  using assms by (auto simp: nth_put_at)

subsection \<open>Circular arrays\<close>

text \<open>The \<open>n\<close> entries of a circular array of capacity \<open>m\<close>, starting at index \<open>f\<close>.\<close>

definition ring_items :: "'a list \<Rightarrow> nat \<Rightarrow> nat \<Rightarrow> nat \<Rightarrow> 'a list" where
  "ring_items d f n m = map (\<lambda>i. d ! ((f + i) mod m)) [0..<n]"

lemma length_ring_items [simp, ring_simps]: "length (ring_items d f n m) = n"
  by (simp add: ring_items_def)

lemma ring_items_0 [simp, ring_simps]: "ring_items d f 0 m = []"
  by (simp add: ring_items_def)

lemma wrap_index [ring_simps]:
  "(i::nat) < m \<Longrightarrow> (if m \<le> Suc i then 0 else Suc i) = Suc i mod m"
  by (auto simp: not_le Suc_le_eq le_Suc_eq)

lemma ring_index_neq [ring_simps]:
  assumes "(i::nat) < n" "n < m"
  shows "(f + n) mod m \<noteq> (f + i) mod m"
proof
  assume "(f + n) mod m = (f + i) mod m"
  then have "m dvd (f + n) - (f + i)"
    by (metis mod_eq_dvd_iff_nat assms(1) add_le_cancel_left less_imp_le_nat)
  with assms show False by (auto dest: dvd_imp_le)
qed

lemma nth_ring_end [simp, ring_simps]:
  "0 < (m::nat) \<Longrightarrow> m \<le> k \<Longrightarrow> d[i mod m := x] ! k = d ! k"
  by (metis leD mod_less_divisor nth_list_update_neq)

lemma ring_mod:
  "(f::nat) < m \<Longrightarrow> i \<le> m \<Longrightarrow> (f + i) mod m = (if f + i < m then f + i else f + i - m)"
  by (auto simp: le_mod_geq)

lemma ring_items_push [ring_simps]:
  assumes "n < m" "m \<le> length d"
  shows "ring_items (d[(f + n) mod m := x]) f (Suc n) m = ring_items d f n m @ [x]"
proof -
  have "(f + n) mod m < length d"
    using assms mod_less_divisor [of m "f + n"] by linarith
  moreover have "(f + n) mod m \<noteq> (f + i) mod m" if "i < n" for i
    using ring_index_neq [OF that assms(1)] .
  ultimately show ?thesis by (auto simp: ring_items_def)
qed

lemma ring_items_pop [ring_simps]:
  assumes "0 < n" "f < m"
  shows "ring_items d f n m = d ! f # ring_items d (Suc f mod m) (n - 1) m"
proof -
  have "ring_items d f n m = map (\<lambda>i. d ! ((f + i) mod m)) (0 # map Suc [0..<n - 1])"
    using assms(1) by (simp add: ring_items_def upt_conv_Cons map_Suc_upt)
  also have "\<dots> = d ! f # ring_items d (Suc f mod m) (n - 1) m"
    using assms(2) by (simp add: ring_items_def mod_add_left_eq)
  finally show ?thesis .
qed

lemma ring_end_pop [ring_simps]:
  "0 < n \<Longrightarrow> (Suc f mod m + n - Suc 0) mod m = (f + n) mod m"
  by (cases n) (simp_all add: mod_add_left_eq)

subsection \<open>Bits of a byte\<close>

text \<open>Bytes are equal when their bits are.\<close>

lemma byte_eq_bits: "(a :: byte) = b \<longleftrightarrow>
    bit a 0 = bit b 0 \<and> bit a 1 = bit b 1 \<and> bit a 2 = bit b 2 \<and> bit a 3 = bit b 3 \<and>
    bit a 4 = bit b 4 \<and> bit a 5 = bit b 5 \<and> bit a 6 = bit b 6 \<and> bit a 7 = bit b 7"
proof
  assume bits: "bit a 0 = bit b 0 \<and> bit a 1 = bit b 1 \<and> bit a 2 = bit b 2 \<and> bit a 3 = bit b 3 \<and>
    bit a 4 = bit b 4 \<and> bit a 5 = bit b 5 \<and> bit a 6 = bit b 6 \<and> bit a 7 = bit b 7"
  show "a = b"
  proof (rule bit_word_eqI)
    fix n assume "n < LENGTH(8)"
    then have "n = 0 \<or> n = 1 \<or> n = 2 \<or> n = 3 \<or> n = 4 \<or> n = 5 \<or> n = 6 \<or> n = 7" by auto
    then show "bit a n = bit b n" using bits by auto
  qed
qed simp

end
