(* ===== verification/Bounded_Queue.thy ===== *)
theory Bounded_Queue
  imports Prelude
begin

text \<open>
  The interface of a bounded first-in first-out queue, as the callers of \<open>fr_fifo_push\<close>,
  \<open>fr_fifo_pop\<close> and of the RADIUS identifier allocator rely on it: a queue is a list of at most
  \<open>cap\<close> items, a push appends or reports that the queue is full, a pop removes the oldest item or
  reports that the queue is empty.  The facts about whole sequences of operations are proved once
  here.
\<close>

fun push_all :: "('q \<Rightarrow> 'a \<Rightarrow> 'q option) \<Rightarrow> 'q \<Rightarrow> 'a list \<Rightarrow> 'q option" where
  "push_all push q [] = Some q"
| "push_all push q (x # xs) = (case push q x of None \<Rightarrow> None | Some q' \<Rightarrow> push_all push q' xs)"

fun pop_all :: "('q \<Rightarrow> ('a \<times> 'q) option) \<Rightarrow> nat \<Rightarrow> 'q \<Rightarrow> ('a list \<times> 'q) option" where
  "pop_all pop 0 q = Some ([], q)"
| "pop_all pop (Suc n) q = (case pop q of None \<Rightarrow> None
     | Some (x, q') \<Rightarrow> (case pop_all pop n q' of None \<Rightarrow> None | Some (xs, q'') \<Rightarrow> Some (x # xs, q'')))"

locale bounded_queue =
  fixes inv :: "'q \<Rightarrow> bool"
    and items :: "'q \<Rightarrow> 'a list"
    and cap :: "'q \<Rightarrow> nat"
    and valid :: "'a \<Rightarrow> bool"
    and push :: "'q \<Rightarrow> 'a \<Rightarrow> 'q option"
    and pop :: "'q \<Rightarrow> ('a \<times> 'q) option"
  assumes bounded: "inv q \<Longrightarrow> length (items q) \<le> cap q"
    and push_ok: "inv q \<Longrightarrow> valid x \<Longrightarrow> length (items q) < cap q \<Longrightarrow>
      \<exists>q'. push q x = Some q' \<and> inv q' \<and> items q' = items q @ [x] \<and> cap q' = cap q"
    and push_full: "inv q \<Longrightarrow> cap q \<le> length (items q) \<Longrightarrow> push q x = None"
    and pop_ok: "inv q \<Longrightarrow> items q = x # xs \<Longrightarrow>
      \<exists>q'. pop q = Some (x, q') \<and> inv q' \<and> items q' = xs \<and> cap q' = cap q"
    and pop_empty: "inv q \<Longrightarrow> items q = [] \<Longrightarrow> pop q = None"
begin

lemma push_all_ok:
  assumes "inv q" "\<forall>x \<in> set xs. valid x" "length (items q) + length xs \<le> cap q"
  shows "\<exists>q'. push_all push q xs = Some q' \<and> inv q' \<and> items q' = items q @ xs \<and> cap q' = cap q"
  using assms
proof (induction xs arbitrary: q)
  case (Cons x xs)
  then obtain q' where q': "push q x = Some q'" "inv q'" "items q' = items q @ [x]" "cap q' = cap q"
    using push_ok [of q x] by auto
  with Cons.IH [of q'] Cons.prems show ?case by auto
qed simp

lemma pop_all_ok:
  assumes "inv q" "items q = xs @ ys"
  shows "\<exists>q'. pop_all pop (length xs) q = Some (xs, q') \<and> inv q' \<and> items q' = ys \<and> cap q' = cap q"
  using assms
proof (induction xs arbitrary: q)
  case (Cons x xs)
  then obtain q' where "pop q = Some (x, q')" "inv q'" "items q' = xs @ ys" "cap q' = cap q"
    using pop_ok [of q x "xs @ ys"] by auto
  with Cons.IH [of q'] show ?case by auto
qed simp

text \<open>What is pushed comes out again, in the same order, behind what was there before.\<close>

lemma push_all_pop_all:
  assumes "inv q" "\<forall>x \<in> set xs. valid x" "length (items q) + length xs \<le> cap q"
  shows "\<exists>q' q''. push_all push q xs = Some q' \<and>
    pop_all pop (length (items q) + length xs) q' = Some (items q @ xs, q'') \<and> items q'' = []"
proof -
  obtain q' where q': "push_all push q xs = Some q'" "inv q'" "items q' = items q @ xs"
    using push_all_ok [OF assms] by blast
  then obtain q'' where "pop_all pop (length (items q @ xs)) q' = Some (items q @ xs, q'')" "items q'' = []"
    using pop_all_ok [of q' "items q @ xs" "[]"] by auto
  with q' show ?thesis by auto
qed

lemma push_fails_iff_full:
  assumes "inv q" "valid x"
  shows "push q x = None \<longleftrightarrow> length (items q) = cap q"
  using assms bounded [of q] push_ok [of q x] push_full [of q x] by fastforce

end

end
