(* ===== verification/Fifo.thy ===== *)
theory Fifo
  imports Bounded_Queue
begin

text \<open>
  The array FIFO of \<open>src/lib/util/fifo.c\<close>.  The record \<open>fr_fifo\<close> has the fields of
  \<open>struct fr_fifo_s\<close>; \<open>fi_data\<close> is the array \<open>data\<close>, which is allocated with \<open>max + 1\<close> entries
  (\<open>data[1]\<close> inside the structure and \<open>max\<close> more).  A \<open>NULL\<close> fifo is \<open>None\<close>.
\<close>

record fr_fifo =
  fi_num :: nat
  fi_first :: nat
  fi_last :: nat
  fi_max :: nat
  fi_free_node :: bool
  fi_data :: "ptr list"

definition fr_fifo_create :: "int \<Rightarrow> bool \<Rightarrow> fr_fifo option" where
  "fr_fifo_create m free_node =
     (if m < 2 \<or> m > 1024 * 1024 then None
      else Some \<lparr>fi_num = 0, fi_first = 0, fi_last = 0, fi_max = nat m, fi_free_node = free_node,
                 fi_data = replicate (nat m + 1) NULL\<rparr>)"

definition fr_fifo_push :: "fr_fifo option \<Rightarrow> ptr \<Rightarrow> fr_fifo option" where
  "fr_fifo_push fi_p data =
     (case fi_p of None \<Rightarrow> None
      | Some fi \<Rightarrow>
          if data = NULL then None
          else if fi_num fi \<ge> fi_max fi then None
          else
            let d = (fi_data fi)[fi_last fi := data];
                l = fi_last fi + 1;
                l' = (if l \<ge> fi_max fi then 0 else l)
            in Some (fi\<lparr>fi_data := d, fi_last := l', fi_num := fi_num fi + 1\<rparr>))"

definition fr_fifo_pop :: "fr_fifo option \<Rightarrow> (ptr \<times> fr_fifo) option" where
  "fr_fifo_pop fi_p =
     (case fi_p of None \<Rightarrow> None
      | Some fi \<Rightarrow>
          if fi_num fi = 0 then None
          else
            let data = fi_data fi ! fi_first fi;
                f = fi_first fi + 1;
                f' = (if f \<ge> fi_max fi then 0 else f)
            in Some (data, fi\<lparr>fi_first := f', fi_num := fi_num fi - 1\<rparr>))"

definition fr_fifo_peek :: "fr_fifo option \<Rightarrow> ptr" where
  "fr_fifo_peek fi_p =
     (case fi_p of None \<Rightarrow> NULL
      | Some fi \<Rightarrow> if fi_num fi = 0 then NULL else fi_data fi ! fi_first fi)"

definition fr_fifo_num_elements :: "fr_fifo option \<Rightarrow> nat" where
  "fr_fifo_num_elements fi_p = (case fi_p of None \<Rightarrow> 0 | Some fi \<Rightarrow> fi_num fi)"

text \<open>
  \<open>_fifo_free\<close>: the pointers handed to \<open>free_node\<close>, in the order of the calls.  The loop clears an
  entry after freeing it.
\<close>

definition free_index :: "fr_fifo \<Rightarrow> nat \<Rightarrow> nat" where
  "free_index fi i =
     (let element = i + fi_first fi in if element > fi_max fi then element - fi_max fi else element)"

fun fifo_free_loop :: "fr_fifo \<Rightarrow> nat list \<Rightarrow> ptr list" where
  "fifo_free_loop fi [] = []"
| "fifo_free_loop fi (i # is) =
     (let element = free_index fi i
      in fi_data fi ! element # fifo_free_loop (fi\<lparr>fi_data := (fi_data fi)[element := NULL]\<rparr>) is)"

definition fifo_free :: "fr_fifo \<Rightarrow> ptr list" where
  "fifo_free fi = (if fi_free_node fi then fifo_free_loop fi [0..<fi_num fi] else [])"

text \<open>The invariant every operation keeps, and the list of queued items it describes.\<close>

definition fifo_inv :: "fr_fifo \<Rightarrow> bool" where
  "fifo_inv fi \<longleftrightarrow> 2 \<le> fi_max fi \<and> fi_max fi \<le> 1024 * 1024 \<and> fi_num fi \<le> fi_max fi \<and>
     fi_first fi < fi_max fi \<and> fi_last fi = (fi_first fi + fi_num fi) mod fi_max fi \<and>
     length (fi_data fi) = fi_max fi + 1 \<and> fi_data fi ! fi_max fi = NULL"

definition fifo_items :: "fr_fifo \<Rightarrow> ptr list" where
  "fifo_items fi = ring_items (fi_data fi) (fi_first fi) (fi_num fi) (fi_max fi)"

lemma fifo_last_less: "fifo_inv fi \<Longrightarrow> fi_last fi < fi_max fi"
  by (auto simp: fifo_inv_def)

lemma fifo_push_ok:
  assumes "fifo_inv fi" "data \<noteq> NULL" "fi_num fi < fi_max fi"
  shows "\<exists>fi'. fr_fifo_push (Some fi) data = Some fi' \<and> fifo_inv fi' \<and>
    fifo_items fi' = fifo_items fi @ [data] \<and> fi_max fi' = fi_max fi"
proof -
  have "fifo_items fi @ [data] =
      ring_items ((fi_data fi)[fi_last fi := data]) (fi_first fi) (Suc (fi_num fi)) (fi_max fi)"
    using assms by (simp add: fifo_items_def fifo_inv_def ring_items_push)
  then show ?thesis
    using assms fifo_last_less [OF assms(1)]
    by (auto simp: fr_fifo_push_def fifo_inv_def fifo_items_def Let_def wrap_index mod_Suc_eq)
qed

lemma fifo_pop_ok:
  assumes "fifo_inv fi" "fifo_items fi = x # xs"
  shows "\<exists>fi'. fr_fifo_pop (Some fi) = Some (x, fi') \<and> fifo_inv fi' \<and>
    fifo_items fi' = xs \<and> fi_max fi' = fi_max fi"
proof -
  have n: "0 < fi_num fi" and f: "fi_first fi < fi_max fi"
    using assms by (auto simp: fifo_items_def fifo_inv_def intro: gr0I)
  then have "x # xs = fi_data fi ! fi_first fi #
      ring_items (fi_data fi) (Suc (fi_first fi) mod fi_max fi) (fi_num fi - 1) (fi_max fi)"
    using assms(2) by (simp add: fifo_items_def ring_items_pop)
  with assms(1) n f show ?thesis
    by (auto simp: fr_fifo_pop_def fifo_inv_def fifo_items_def Let_def wrap_index ring_end_pop)
qed

text \<open>
  The fifo keeps the contract of a bounded queue.  The operations of the interface are the code's
  operations on a fifo that exists.
\<close>

definition fifo_push1 :: "fr_fifo \<Rightarrow> ptr \<Rightarrow> fr_fifo option" where
  "fifo_push1 fi = fr_fifo_push (Some fi)"

definition fifo_pop1 :: "fr_fifo \<Rightarrow> (ptr \<times> fr_fifo) option" where
  "fifo_pop1 fi = fr_fifo_pop (Some fi)"

interpretation fifo_q: bounded_queue fifo_inv fifo_items fi_max "\<lambda>x. x \<noteq> NULL" fifo_push1 fifo_pop1
proof unfold_locales
  fix q :: fr_fifo and x :: ptr and xs :: "ptr list"
  assume inv: "fifo_inv q"
  show "length (fifo_items q) \<le> fi_max q"
    using inv by (simp add: fifo_inv_def fifo_items_def)
  show "\<exists>q'. fifo_push1 q x = Some q' \<and> fifo_inv q' \<and> fifo_items q' = fifo_items q @ [x] \<and>
      fi_max q' = fi_max q" if "x \<noteq> NULL" "length (fifo_items q) < fi_max q"
    using fifo_push_ok [OF inv that(1)] that(2) by (simp add: fifo_items_def fifo_push1_def)
  show "fifo_push1 q x = None" if "fi_max q \<le> length (fifo_items q)"
    using that by (simp add: fifo_items_def fr_fifo_push_def fifo_push1_def)
  show "\<exists>q'. fifo_pop1 q = Some (x, q') \<and> fifo_inv q' \<and> fifo_items q' = xs \<and> fi_max q' = fi_max q"
    if "fifo_items q = x # xs"
    using fifo_pop_ok [OF inv that] by (simp add: fifo_pop1_def)
  show "fifo_pop1 q = None" if "fifo_items q = []"
    using that by (simp add: fifo_items_def ring_items_def fr_fifo_pop_def fifo_pop1_def)
qed

subsection \<open>Sequences of operations\<close>

lemma fifo_create_ok:
  "fr_fifo_create m fn = Some fi \<Longrightarrow> fifo_inv fi \<and> fifo_items fi = [] \<and> fi_max fi = nat m"
  by (auto simp: fr_fifo_create_def fifo_inv_def fifo_items_def nth_append split: if_splits)

text \<open>
  C34: (first in, first out) On a fifo that satisfies the invariant, pushing any non-\<open>NULL\<close> pointers
  that fit succeeds, and popping as many entries as the fifo then holds returns the earlier contents
  followed by the pushed pointers, in order, and leaves the fifo empty.
\<close>

theorem fifo_first_in_first_out:
  assumes "fifo_inv fi" "\<forall>x \<in> set xs. x \<noteq> NULL" "length (fifo_items fi) + length xs \<le> fi_max fi"
  shows "\<exists>fi' fi''. push_all fifo_push1 fi xs = Some fi' \<and>
    pop_all fifo_pop1 (length (fifo_items fi) + length xs) fi' = Some (fifo_items fi @ xs, fi'') \<and>
    fifo_items fi'' = []"
  using assms by (rule fifo_q.push_all_pop_all)

definition fifo_ex :: fr_fifo where
  "fifo_ex = \<lparr>fi_num = 2, fi_first = 3, fi_last = 1, fi_max = 4, fi_free_node = True,
    fi_data = [11, 0, 0, 10, 0]\<rparr>"

theorem fifo_first_in_first_out_witness:
  "fifo_inv fifo_ex \<and> fifo_items fifo_ex = [10, 11] \<and>
   (\<exists>fi' fi''. push_all fifo_push1 fifo_ex [12, 13] = Some fi' \<and>
     pop_all fifo_pop1 4 fi' = Some ([10, 11, 12, 13], fi'') \<and> fifo_items fi'' = [])"
proof -
  have inv: "fifo_inv fifo_ex" by (simp add: fifo_inv_def fifo_ex_def)
  have items: "fifo_items fifo_ex = [10, 11]"
    by (simp add: fifo_items_def fifo_ex_def ring_items_def upt_rec)
  have len: "length (fifo_items fifo_ex) + length [12::ptr, 13] = 4" by (simp add: items)
  have "fi_max fifo_ex = 4" by (simp add: fifo_ex_def)
  with fifo_first_in_first_out [OF inv, of "[12, 13]", unfolded len] inv items show ?thesis by simp
qed

subsection \<open>Freeing a fifo\<close>

lemma free_index_eq:
  "free_index fi i =
    (if fi_max fi < fi_first fi + i then fi_first fi + i - fi_max fi else fi_first fi + i)"
  by (simp add: free_index_def Let_def add.commute)

lemma free_index_clear [simp]: "free_index (fi\<lparr>fi_data := d\<rparr>) = free_index fi"
  by (simp add: fun_eq_iff free_index_eq)

lemma fifo_free_loop_map:
  assumes "inj_on (free_index fi) (set is)" "distinct is"
  shows "fifo_free_loop fi is = map (\<lambda>i. fi_data fi ! free_index fi i) is"
  using assms
proof (induction "is" arbitrary: fi)
  case (Cons i "is")
  have "free_index fi i \<noteq> free_index fi j" if "j \<in> set is" for j
    using Cons.prems that by (metis distinct.simps(2) inj_on_eq_iff list.set_intros)
  with Cons show ?case by (auto simp: Let_def)
qed simp

text \<open>
  (what freeing a fifo frees) For every fifo that satisfies the invariant and has a
  \<open>free_node\<close> callback, \<open>_fifo_free\<close> passes exactly the queued pointers to the callback, in queue
  order, except that when the contents wrap around the end of the array the entry at index 0 is not
  passed: the callback gets \<open>NULL\<close> in its place.
\<close>

theorem fifo_free_calls:
  assumes "fifo_inv fi" "fi_free_node fi"
  shows "fifo_free fi = (fifo_items fi)[fi_max fi - fi_first fi := NULL]"
proof -
  have "inj_on (free_index fi) (set [0..<fi_num fi])"
    using assms by (auto simp: inj_on_def fifo_inv_def free_index_eq split: if_splits)
  then have "fifo_free fi = map (\<lambda>i. fi_data fi ! free_index fi i) [0..<fi_num fi]"
    using assms by (simp add: fifo_free_def fifo_free_loop_map)
  also have "\<dots> = (fifo_items fi)[fi_max fi - fi_first fi := NULL]"
    using assms
    by (intro nth_equalityI)
      (auto simp: fifo_items_def ring_items_def fifo_inv_def free_index_eq
        nth_list_update ring_mod)
  finally show ?thesis .
qed

theorem fifo_free_calls_witness:
  "fifo_inv fifo_ex \<and> fi_free_node fifo_ex \<and> fifo_items fifo_ex = [10, 11] \<and> fifo_free fifo_ex = [10, 0]"
proof -
  have inv: "fifo_inv fifo_ex" "fi_free_node fifo_ex" by (simp_all add: fifo_inv_def fifo_ex_def)
  have items: "fifo_items fifo_ex = [10, 11]"
    by (simp add: fifo_items_def fifo_ex_def ring_items_def upt_rec)
  have "fi_max fifo_ex - fi_first fifo_ex = 1" by (simp add: fifo_ex_def)
  with fifo_free_calls [OF inv] inv items show ?thesis by simp
qed

end
