(* ===== verification/Ring_Buffer.thy ===== *)
theory Ring_Buffer
  imports Prelude
begin

text \<open>
  The ring buffer of \<open>src/lib/io/ring_buffer.c\<close>, from which the threads of the server allocate the
  messages that they send to each other.  The record has the fields of \<open>struct fr_ring_buffer_s\<close>; a
  pointer into the buffer is its offset.  \<open>size_t\<close> has 64 bits, and the sums of the code wrap around.

  The lemmas show the contract that the users of the buffer rely on: the blocks that are allocated and
  not yet freed lie inside the buffer and never overlap.
\<close>

unbundle bit_operations_syntax

record fr_ring_buffer =
  rb_size :: nat
  data_start :: nat
  data_end :: nat
  write_offset :: nat
  reserved :: nat
  rb_closed :: bool

definition size_add :: "nat \<Rightarrow> nat \<Rightarrow> nat" where
  "size_add a b = (a + b) mod 2 ^ 64"

subsection \<open>Operations\<close>

definition round_up_pow2 :: "nat \<Rightarrow> nat" where
  "round_up_pow2 sz =
     (let sz = sz - 1;
          sz = sz OR drop_bit 1 sz;
          sz = sz OR drop_bit 2 sz;
          sz = sz OR drop_bit 4 sz;
          sz = sz OR drop_bit 8 sz;
          sz = sz OR drop_bit 16 sz
      in sz + 1)"

definition fr_ring_buffer_create :: "nat \<Rightarrow> fr_ring_buffer option" where
  "fr_ring_buffer_create sz =
     (let sz = (if sz < 1024 then 1024 else sz) in
      if sz > 2 ^ 30 then None
      else Some \<lparr>rb_size = round_up_pow2 sz, data_start = 0, data_end = 0, write_offset = 0, reserved = 0,
                 rb_closed = False\<rparr>)"

definition fr_ring_buffer_reserve :: "fr_ring_buffer \<Rightarrow> nat \<Rightarrow> nat option \<times> fr_ring_buffer" where
  "fr_ring_buffer_reserve rb sz =
     (if rb_closed rb then (None, rb)
      else if write_offset rb < data_start rb then
        if size_add (write_offset rb) sz < data_start rb
        then (Some (write_offset rb), rb\<lparr>reserved := sz\<rparr>)
        else (None, rb)
      else if size_add (write_offset rb) sz \<le> rb_size rb
        then (Some (write_offset rb), rb\<lparr>reserved := sz\<rparr>)
      else if sz < data_start rb
        then (Some 0, rb\<lparr>write_offset := 0, reserved := sz\<rparr>)
      else (None, rb))"

definition fr_ring_buffer_alloc :: "fr_ring_buffer \<Rightarrow> nat \<Rightarrow> nat option \<times> fr_ring_buffer" where
  "fr_ring_buffer_alloc rb sz =
     (if rb_closed rb then (None, rb)
      else
        let rb = rb\<lparr>reserved := (if reserved rb \<ge> sz then reserved rb - sz else 0)\<rparr> in
        if write_offset rb < data_start rb then
          if size_add (write_offset rb) sz < data_start rb
          then (Some (write_offset rb), rb\<lparr>write_offset := size_add (write_offset rb) sz\<rparr>)
          else (None, rb)
        else if size_add (write_offset rb) sz \<le> rb_size rb
          then (Some (write_offset rb),
                rb\<lparr>write_offset := size_add (write_offset rb) sz, data_end := size_add (write_offset rb) sz\<rparr>)
        else if sz < data_start rb
          then (Some 0, rb\<lparr>write_offset := sz\<rparr>)
        else (None, rb))"

text \<open>The label \<open>empty_buffer\<close>; a closed buffer is freed, which is \<open>None\<close>.\<close>

definition empty_buffer :: "fr_ring_buffer \<Rightarrow> int \<times> fr_ring_buffer option" where
  "empty_buffer rb =
     (0, if rb_closed rb then None else Some (rb\<lparr>data_start := 0, data_end := 0, write_offset := 0\<rparr>))"

definition free_block :: "fr_ring_buffer \<Rightarrow> nat \<Rightarrow> int \<times> fr_ring_buffer option" where
  "free_block rb size_to_free =
     (let block_size = data_end rb - data_start rb in
      if size_to_free > block_size then (-1, Some rb)
      else if size_to_free < block_size then (0, Some (rb\<lparr>data_start := data_start rb + size_to_free\<rparr>))
      else empty_buffer rb)"

definition fr_ring_buffer_free :: "fr_ring_buffer \<Rightarrow> nat \<Rightarrow> int \<times> fr_ring_buffer option" where
  "fr_ring_buffer_free rb size_to_free =
     (if size_to_free = 0 then (0, Some rb)
      else if write_offset rb < data_start rb then
        let block_size = data_end rb - data_start rb in
        if size_to_free < block_size then (0, Some (rb\<lparr>data_start := data_start rb + size_to_free\<rparr>))
        else
          let rb = rb\<lparr>data_start := 0, data_end := write_offset rb\<rparr>;
              size_to_free = size_to_free - block_size
          in if size_to_free = write_offset rb then empty_buffer rb
             else if size_to_free = 0 then (0, Some rb)
             else free_block rb size_to_free
      else free_block rb size_to_free)"

definition fr_ring_buffer_close :: "fr_ring_buffer \<Rightarrow> fr_ring_buffer" where
  "fr_ring_buffer_close rb = rb\<lparr>rb_closed := True\<rparr>"

definition fr_ring_buffer_size :: "fr_ring_buffer \<Rightarrow> nat" where
  "fr_ring_buffer_size rb = rb_size rb"

definition fr_ring_buffer_used :: "fr_ring_buffer \<Rightarrow> nat" where
  "fr_ring_buffer_used rb =
     (let sz = (if write_offset rb < data_start rb then write_offset rb else 0)
      in sz + (data_end rb - data_start rb))"

definition fr_ring_buffer_start :: "fr_ring_buffer \<Rightarrow> nat \<times> nat" where
  "fr_ring_buffer_start rb =
     (data_start rb,
      if write_offset rb < data_start rb then write_offset rb else data_end rb - data_start rb)"

subsection \<open>Invariant and live blocks\<close>

text \<open>
  Either all data lies in one piece that ends at the write offset, or the writer has wrapped around and
  works below \<open>data_start\<close>.  The first case has the assertion \<open>write_offset == data_end\<close> of the code.
\<close>

definition rb_inv :: "fr_ring_buffer \<Rightarrow> bool" where
  "rb_inv rb \<longleftrightarrow> data_end rb \<le> rb_size rb \<and> rb_size rb \<le> 2 ^ 30 \<and>
     (if write_offset rb < data_start rb then data_start rb < data_end rb
      else write_offset rb = data_end rb \<and> data_start rb \<le> data_end rb \<and>
           (data_start rb = data_end rb \<longrightarrow> data_start rb = 0))"

text \<open>A list of non-empty blocks, as pairs of offset and size, that fills the range from \<open>a\<close> to \<open>b\<close>.\<close>

fun contig :: "nat \<Rightarrow> (nat \<times> nat) list \<Rightarrow> nat \<Rightarrow> bool" where
  "contig a [] b \<longleftrightarrow> a = b"
| "contig a ((p, n) # bs) b \<longleftrightarrow> p = a \<and> 0 < n \<and> contig (a + n) bs b"

definition live :: "fr_ring_buffer \<Rightarrow> (nat \<times> nat) list \<Rightarrow> bool" where
  "live rb bs \<longleftrightarrow>
     (if write_offset rb < data_start rb
      then \<exists>xs ys. bs = xs @ ys \<and> contig (data_start rb) xs (data_end rb) \<and> contig 0 ys (write_offset rb)
      else contig (data_start rb) bs (data_end rb))"

lemma contig_append: "contig a (xs @ ys) c \<longleftrightarrow> (\<exists>b. contig a xs b \<and> contig b ys c)"
  by (induction xs arbitrary: a) auto

lemma contig_le: "contig a bs b \<Longrightarrow> a \<le> b"
  by (induction bs arbitrary: a) fastforce+

lemma contig_less: "contig a bs b \<Longrightarrow> bs \<noteq> [] \<Longrightarrow> a < b"
  by (cases bs) (fastforce dest: contig_le)+

lemma contig_bounds: "contig a bs b \<Longrightarrow> (p, n) \<in> set bs \<Longrightarrow> a \<le> p \<and> p + n \<le> b \<and> 0 < n"
proof (induction bs arbitrary: a)
  case (Cons x bs)
  show ?case
  proof (cases "(p, n) = x")
    case True
    with Cons.prems show ?thesis by (auto dest: contig_le)
  next
    case False
    with Cons show ?thesis by (cases x) fastforce
  qed
qed simp

lemma contig_sum: "contig a bs b \<Longrightarrow> b = a + sum_list (map snd bs)"
  by (induction bs arbitrary: a) fastforce+

definition apart :: "nat \<times> nat \<Rightarrow> nat \<times> nat \<Rightarrow> bool" where
  "apart x y \<longleftrightarrow> fst x + snd x \<le> fst y \<or> fst y + snd y \<le> fst x"

lemma contig_apart: "contig a bs b \<Longrightarrow> sorted_wrt apart bs"
proof (induction bs arbitrary: a)
  case (Cons x bs)
  obtain p n where x: "x = (p, n)" by (cases x)
  with Cons.prems have c: "p = a" "contig (a + n) bs b" by auto
  then have "\<forall>y \<in> set bs. apart x y" using contig_bounds [OF c(2)] by (fastforce simp: x apart_def)
  with Cons.IH [OF c(2)] show ?case by simp
qed simp

lemma live_reserved [simp]: "live (rb\<lparr>reserved := k\<rparr>) bs = live rb bs" "rb_inv (rb\<lparr>reserved := k\<rparr>) = rb_inv rb"
  by (simp_all add: live_def rb_inv_def)

lemma live_wrapped:
  "write_offset rb < data_start rb \<Longrightarrow> contig (data_start rb) xs (data_end rb) \<Longrightarrow> contig 0 ys (write_offset rb) \<Longrightarrow>
   bs = xs @ ys \<Longrightarrow> live rb bs"
  by (auto simp: live_def)

lemma live_apart:
  assumes "rb_inv rb" "live rb bs"
  shows "sorted_wrt apart bs" "\<forall>(p, n) \<in> set bs. 0 < n \<and> p + n \<le> rb_size rb"
proof -
  show "sorted_wrt apart bs"
  proof (cases "write_offset rb < data_start rb")
    case True
    then obtain xs ys where bs: "bs = xs @ ys" "contig (data_start rb) xs (data_end rb)" "contig 0 ys (write_offset rb)"
      using assms(2) by (auto simp: live_def)
    have "apart x y" if "x \<in> set xs" "y \<in> set ys" for x y
      using contig_bounds [OF bs(2), of "fst x" "snd x"] contig_bounds [OF bs(3), of "fst y" "snd y"] that True
      by (auto simp: apart_def)
    with bs contig_apart show ?thesis by (auto simp: sorted_wrt_append)
  next
    case False
    with assms(2) show ?thesis by (auto simp: live_def intro: contig_apart)
  qed
  show "\<forall>(p, n) \<in> set bs. 0 < n \<and> p + n \<le> rb_size rb"
    using assms by (fastforce simp: live_def rb_inv_def split: if_splits dest: contig_bounds)
qed

lemma live_used: "rb_inv rb \<Longrightarrow> live rb bs \<Longrightarrow> fr_ring_buffer_used rb = sum_list (map snd bs)"
  by (fastforce simp: live_def fr_ring_buffer_used_def Let_def split: if_splits dest: contig_sum)

subsection \<open>The operations keep the invariant\<close>

lemma size_add_small: "a \<le> 2 ^ 30 \<Longrightarrow> b < 2 ^ 63 \<Longrightarrow> size_add a b = a + b"
  by (simp add: size_add_def)

lemma size_add_inv: "rb_inv rb \<Longrightarrow> n < 2 ^ 63 \<Longrightarrow> size_add (write_offset rb) n = write_offset rb + n"
  by (rule size_add_small) (auto simp: rb_inv_def split: if_splits)

text \<open>What the operations do as long as no sum overflows.\<close>

lemma alloc_eq:
  assumes "rb_inv rb" "n < 2 ^ 63"
  shows "\<exists>k. fr_ring_buffer_alloc rb n =
    (if rb_closed rb then (None, rb)
     else if write_offset rb < data_start rb then
       if write_offset rb + n < data_start rb
       then (Some (write_offset rb), rb\<lparr>reserved := k, write_offset := write_offset rb + n\<rparr>)
       else (None, rb\<lparr>reserved := k\<rparr>)
     else if write_offset rb + n \<le> rb_size rb
       then (Some (write_offset rb), rb\<lparr>reserved := k, write_offset := write_offset rb + n, data_end := write_offset rb + n\<rparr>)
     else if n < data_start rb then (Some 0, rb\<lparr>reserved := k, write_offset := n\<rparr>)
     else (None, rb\<lparr>reserved := k\<rparr>))"
  by (rule exI [of _ "if reserved rb \<ge> n then reserved rb - n else 0"])
    (simp add: fr_ring_buffer_alloc_def size_add_inv [OF assms] Let_def)

lemma reserve_eq:
  assumes "rb_inv rb" "n < 2 ^ 63"
  shows "fr_ring_buffer_reserve rb n =
    (if rb_closed rb then (None, rb)
     else if write_offset rb < data_start rb then
       if write_offset rb + n < data_start rb then (Some (write_offset rb), rb\<lparr>reserved := n\<rparr>) else (None, rb)
     else if write_offset rb + n \<le> rb_size rb then (Some (write_offset rb), rb\<lparr>reserved := n\<rparr>)
     else if n < data_start rb then (Some 0, rb\<lparr>write_offset := 0, reserved := n\<rparr>)
     else (None, rb))"
  by (simp add: fr_ring_buffer_reserve_def size_add_inv [OF assms])

lemma alloc_live:
  assumes "rb_inv rb" "live rb bs" "0 < n" "n < 2 ^ 63" "fr_ring_buffer_alloc rb n = (r, rb')"
  shows "rb_inv rb' \<and> live rb' (case r of None \<Rightarrow> bs | Some p \<Rightarrow> bs @ [(p, n)]) \<and>
    rb_size rb' = rb_size rb \<and> rb_closed rb' = rb_closed rb"
proof (cases r)
  case None
  then have "\<exists>k. rb' = rb \<or> rb' = rb\<lparr>reserved := k\<rparr>" using alloc_eq [OF assms(1,4)] assms(5) by (auto split: if_splits)
  with assms(1,2) None show ?thesis by (auto simp: rb_inv_def live_def)
next
  case (Some p)
  show ?thesis
  proof (cases "write_offset rb < data_start rb")
    case True
    then obtain xs ys where bs: "bs = xs @ ys" "contig (data_start rb) xs (data_end rb)" "contig 0 ys (write_offset rb)"
      using assms(2) by (auto simp: live_def)
    have "contig 0 (ys @ [(write_offset rb, n)]) (write_offset rb + n)" using bs(3) assms(3) by (auto simp: contig_append)
    moreover obtain k where k: "p = write_offset rb" "write_offset rb + n < data_start rb"
        "rb' = rb\<lparr>reserved := k, write_offset := write_offset rb + n\<rparr>"
      using alloc_eq [OF assms(1,4)] assms(5) Some True by (auto split: if_splits)
    ultimately have "live rb' (bs @ [(p, n)])"
      by (intro live_wrapped [of _ xs "ys @ [(p, n)]"]) (simp_all add: bs(1,2))
    with k True Some assms(1) show ?thesis by (simp add: rb_inv_def)
  next
    case False
    then have "contig (data_start rb) bs (data_end rb)" using assms(2) by (simp add: live_def)
    note c = this
    show ?thesis
    proof (cases "write_offset rb + n \<le> rb_size rb")
      case fits: True
      then show ?thesis
        using alloc_eq [OF assms(1,4)] assms(1,3,5) False Some c
        by (auto simp: rb_inv_def live_def contig_append split: if_splits)
    next
      case wrap: False
      then obtain k where k: "p = 0" "n < data_start rb" "rb' = rb\<lparr>reserved := k, write_offset := n\<rparr>"
        using alloc_eq [OF assms(1,4)] assms(5) False Some by (auto split: if_splits)
      then have "live rb' (bs @ [(p, n)])"
        using c assms(3) by (intro live_wrapped [of _ bs "[(p, n)]"]) simp_all
      with k assms(1) False Some show ?thesis by (auto simp: rb_inv_def)
    qed
  qed
qed

lemma reserve_live:
  assumes "rb_inv rb" "live rb bs" "n < 2 ^ 63" "fr_ring_buffer_reserve rb n = (r, rb')"
  shows "rb_inv rb' \<and> live rb' bs \<and> rb_size rb' = rb_size rb \<and> rb_closed rb' = rb_closed rb"
proof (cases "rb' = rb \<or> rb' = rb\<lparr>reserved := n\<rparr>")
  case True
  with assms(1,2) show ?thesis by auto
next
  case False
  then have w: "\<not> write_offset rb < data_start rb" "n < data_start rb" "rb' = rb\<lparr>write_offset := 0, reserved := n\<rparr>"
    using assms(4) unfolding reserve_eq [OF assms(1,3)] by (auto split: if_splits)
  then have "live rb' bs" using assms(2) by (intro live_wrapped [of _ bs "[]"]) (auto simp: live_def)
  with w assms(1) show ?thesis by (auto simp: rb_inv_def)
qed

text \<open>A reservation is kept: the next block of at most its size is allocated where it was promised.\<close>

lemma reserve_alloc:
  assumes "rb_inv rb" "n < 2 ^ 63" "fr_ring_buffer_reserve rb n = (Some p, rb')" "m \<le> n"
  shows "fst (fr_ring_buffer_alloc rb' m) = Some p"
proof -
  have m: "m < 2 ^ 63" using assms(2,4) by simp
  then have add: "size_add (write_offset rb) m = write_offset rb + m" "size_add 0 m = m"
    using size_add_inv [OF assms(1) m] size_add_small [of 0 m] by simp_all
  show ?thesis
    using assms(3,4) unfolding reserve_eq [OF assms(1,2)]
    by (auto simp: fr_ring_buffer_alloc_def Let_def add split: if_splits)
qed

lemma rb_inv_size: "rb_inv rb \<Longrightarrow> rb_size rb \<le> 2 ^ 30"
  by (simp add: rb_inv_def)

lemma empty_live:
  assumes "rb_size rb \<le> 2 ^ 30" "empty_buffer rb = (r, rb')"
  shows "r = 0 \<and> (if rb_closed rb then rb' = None
    else \<exists>rb''. rb' = Some rb'' \<and> rb_inv rb'' \<and> live rb'' [] \<and> rb_size rb'' = rb_size rb \<and> rb_closed rb'' = rb_closed rb)"
  using assms by (auto simp: empty_buffer_def rb_inv_def live_def)

lemma free_live:
  assumes "rb_inv rb" "live rb ((p, n) # bs)" "fr_ring_buffer_free rb n = (r, rb')"
  shows "r = 0 \<and> (if rb_closed rb \<and> bs = [] then rb' = None
    else \<exists>rb''. rb' = Some rb'' \<and> rb_inv rb'' \<and> live rb'' bs \<and> rb_size rb'' = rb_size rb \<and> rb_closed rb'' = rb_closed rb)"
proof (cases "write_offset rb < data_start rb")
  case True
  then obtain xs ys where bs: "(p, n) # bs = xs @ ys" "contig (data_start rb) xs (data_end rb)" "contig 0 ys (write_offset rb)"
    using assms(2) by (auto simp: live_def)
  have "xs \<noteq> []" using True assms(1) bs(2) by (auto simp: rb_inv_def)
  then obtain zs where xs: "xs = (p, n) # zs" "bs = zs @ ys" using bs(1) by (cases xs) auto
  have c: "0 < n" "contig (data_start rb + n) zs (data_end rb)" using bs(2) by (auto simp: xs)
  show ?thesis
  proof (cases "zs = []")
    case z: True
    let ?rb = "rb\<lparr>data_start := 0, data_end := write_offset rb\<rparr>"
    have n: "data_end rb - data_start rb = n" using c(2) z by simp
    show ?thesis
    proof (cases "write_offset rb = 0")
      case True
      then have "ys = []" using bs(3) contig_less [OF bs(3)] by auto
      moreover have "empty_buffer ?rb = (r, rb')"
        using assms(3) \<open>write_offset rb < data_start rb\<close> n c(1) True by (simp add: fr_ring_buffer_free_def)
      ultimately show ?thesis using empty_live [of ?rb r rb'] rb_inv_size [OF assms(1)] xs(2) z by (auto split: if_splits)
    next
      case False
      have "r = 0" "rb' = Some ?rb"
        using assms(3) \<open>write_offset rb < data_start rb\<close> n c(1) False by (simp_all add: fr_ring_buffer_free_def)
      moreover have "bs \<noteq> []" using False bs(3) xs(2) z by (cases ys) auto
      ultimately show ?thesis using assms(1) bs(3) xs(2) z True by (auto simp: rb_inv_def live_def)
    qed
  next
    case False
    then have lt: "data_start rb + n < data_end rb" using contig_less [OF c(2)] by simp
    then have "r = 0" "rb' = Some (rb\<lparr>data_start := data_start rb + n\<rparr>)"
      using assms(3) True c(1) by (auto simp: fr_ring_buffer_free_def Let_def split: if_splits)
    moreover have "live (rb\<lparr>data_start := data_start rb + n\<rparr>) bs"
      using True c(2) bs(3) xs(2) by (intro live_wrapped [of _ zs ys]) simp_all
    ultimately show ?thesis using assms(1) True lt xs(2) False by (simp add: rb_inv_def)
  qed
next
  case False
  then have c: "p = data_start rb" "0 < n" "contig (data_start rb + n) bs (data_end rb)"
    using assms(2) by (auto simp: live_def)
  have f: "free_block rb n = (r, rb')" using assms(3) False c(2) by (simp add: fr_ring_buffer_free_def)
  show ?thesis
  proof (cases "bs = []")
    case True
    with c f have "empty_buffer rb = (r, rb')" by (auto simp: free_block_def Let_def split: if_splits)
    then show ?thesis using empty_live [OF rb_inv_size [OF assms(1)]] True by (auto split: if_splits)
  next
    case nonempty: False
    then have lt: "data_start rb + n < data_end rb" using contig_less [OF c(3)] by simp
    with f have "r = 0" "rb' = Some (rb\<lparr>data_start := data_start rb + n\<rparr>)" by (auto simp: free_block_def Let_def split: if_splits)
    then show ?thesis using assms(1) False lt c(3) nonempty by (auto simp: rb_inv_def live_def)
  qed
qed

lemma alloc_empty:
  assumes "rb_inv rb" "live rb []" "n \<le> rb_size rb" "\<not> rb_closed rb"
  shows "fst (fr_ring_buffer_alloc rb n) = Some 0"
proof -
  have e: "data_start rb = 0" "data_end rb = 0" "write_offset rb = 0"
    using assms(1,2) by (auto simp: rb_inv_def live_def split: if_splits)
  have "size_add 0 n = n" using assms(1,3) by (intro trans [OF size_add_small]) (auto simp: rb_inv_def)
  with e assms(3,4) show ?thesis by (simp add: fr_ring_buffer_alloc_def)
qed

subsection \<open>The size of the buffer\<close>

text \<open>After the shifts by 1, 2, 4, 8 and 16, a bit is set when one of the 32 bits from it upwards was.\<close>

lemma or_shift_bits:
  fixes m x :: nat
  assumes "\<And>i. bit x i \<longleftrightarrow> (\<exists>j < k. bit m (i + j))"
  shows "bit (x OR drop_bit k x) i \<longleftrightarrow> (\<exists>j < 2 * k. bit m (i + j))"
proof -
  have "bit (x OR drop_bit k x) i \<longleftrightarrow> (\<exists>j < k. bit m (i + j)) \<or> (\<exists>j < k. bit m (k + i + j))"
    by (simp add: bit_simps assms)
  also have "\<dots> \<longleftrightarrow> (\<exists>j < 2 * k. bit m (i + j))"
  proof
    assume "(\<exists>j < k. bit m (i + j)) \<or> (\<exists>j < k. bit m (k + i + j))"
    then show "\<exists>j < 2 * k. bit m (i + j)"
    proof
      assume "\<exists>j < k. bit m (k + i + j)"
      then obtain j where "j < k" "bit m (k + i + j)" by blast
      then show ?thesis by (intro exI [of _ "k + j"]) (simp add: ac_simps)
    next
      assume "\<exists>j < k. bit m (i + j)"
      then obtain j where "j < k" "bit m (i + j)" by blast
      then show ?thesis by (intro exI [of _ j]) simp
    qed
  next
    assume "\<exists>j < 2 * k. bit m (i + j)"
    then obtain j where j: "j < 2 * k" "bit m (i + j)" by blast
    show "(\<exists>j < k. bit m (i + j)) \<or> (\<exists>j < k. bit m (k + i + j))"
    proof (cases "j < k")
      case False
      with j have "j - k < k" "bit m (k + i + (j - k))" by (simp_all add: ac_simps)
      then show ?thesis by blast
    qed (use j in blast)
  qed
  finally show ?thesis .
qed

lemma smeared_bits:
  fixes m :: nat
  defines "a \<equiv> m OR drop_bit 1 m"
  defines "b \<equiv> a OR drop_bit 2 a"
  defines "c \<equiv> b OR drop_bit 4 b"
  defines "d \<equiv> c OR drop_bit 8 c"
  shows "bit (d OR drop_bit 16 d) i \<longleftrightarrow> (\<exists>j < 32. bit m (i + j))"
proof -
  have "bit m i \<longleftrightarrow> (\<exists>j < 1. bit m (i + j))" for i by simp
  then have "bit a i \<longleftrightarrow> (\<exists>j < 2. bit m (i + j))" for i unfolding a_def using or_shift_bits [of m 1 m i] by simp
  then have "bit b i \<longleftrightarrow> (\<exists>j < 4. bit m (i + j))" for i unfolding b_def using or_shift_bits [of a 2 m i] by simp
  then have "bit c i \<longleftrightarrow> (\<exists>j < 8. bit m (i + j))" for i unfolding c_def using or_shift_bits [of b 4 m i] by simp
  then have "bit d i \<longleftrightarrow> (\<exists>j < 16. bit m (i + j))" for i unfolding d_def using or_shift_bits [of c 8 m i] by simp
  then show ?thesis using or_shift_bits [of d 16 m i] by simp
qed

lemma round_up_pow2:
  assumes "2 ^ k < n" "n \<le> 2 ^ Suc k" "k < 30"
  shows "round_up_pow2 n = 2 ^ Suc k"
proof -
  let ?m = "n - 1"
  let ?r = "round_up_pow2 n - 1"
  have m: "2 ^ k \<le> ?m" "?m < 2 ^ Suc k" using assms(1,2) by (simp_all add: less_imp_diff_less)
  have top: "bit ?m k"
  proof -
    have "?m div 2 ^ k = 1" using m by (simp add: div_nat_eqI)
    then show ?thesis by (simp add: bit_iff_odd)
  qed
  have above: "\<not> bit ?m i" if "k < i" for i
  proof -
    have "?m < 2 ^ i" using m(2) power_increasing [of "Suc k" i "2 :: nat"] that by simp
    then show ?thesis by (simp add: bit_iff_odd)
  qed
  have "bit ?r i \<longleftrightarrow> bit (mask (Suc k) :: nat) i" for i
  proof -
    have "bit ?r i \<longleftrightarrow> (\<exists>j < 32. bit ?m (i + j))"
      unfolding round_up_pow2_def Let_def using smeared_bits [of ?m i] by simp
    also have "\<dots> \<longleftrightarrow> i \<le> k"
    proof
      assume "i \<le> k"
      then show "\<exists>j < 32. bit ?m (i + j)" using top assms(3) by (intro exI [of _ "k - i"]) simp
    next
      assume "\<exists>j < 32. bit ?m (i + j)"
      then obtain j where "bit ?m (i + j)" by blast
      then have "\<not> k < i + j" using above by blast
      then show "i \<le> k" by simp
    qed
    finally show ?thesis by (simp add: bit_mask_iff less_Suc_eq_le)
  qed
  then have "?r = mask (Suc k)" by (rule bit_eqI)
  moreover have "0 < round_up_pow2 n" by (simp add: round_up_pow2_def Let_def)
  moreover have "(0 :: nat) < 2 ^ Suc k" by simp
  ultimately show ?thesis unfolding mask_eq_exp_minus_1 by linarith
qed

lemma create_size:
  assumes "fr_ring_buffer_create n = Some rb"
  shows "\<exists>k. rb_size rb = 2 ^ k \<and> 10 \<le> k \<and> k \<le> 30 \<and> n \<le> 2 ^ k \<and> (1024 < n \<longrightarrow> 2 ^ k < 2 * n)"
proof -
  let ?n = "max 1024 n"
  have n: "?n \<le> 2 ^ 30" "rb_size rb = round_up_pow2 ?n"
    using assms by (auto simp: fr_ring_buffer_create_def Let_def max_def split: if_splits)
  obtain k where k: "2 ^ k < ?n" "?n \<le> 2 ^ Suc k"
  proof -
    have "\<exists>k. ?n \<le> 2 ^ Suc k" using n(1) by (intro exI [of _ 29]) simp
    define k where "k = (LEAST k. ?n \<le> 2 ^ Suc k)"
    have "?n \<le> 2 ^ Suc k" unfolding k_def by (rule LeastI_ex) fact
    moreover have "2 ^ k < ?n"
    proof (cases k)
      case (Suc j)
      then have "\<not> ?n \<le> 2 ^ Suc j" using not_less_Least [of j "\<lambda>k. ?n \<le> 2 ^ Suc k"] unfolding k_def by simp
      then show ?thesis unfolding Suc by (simp only: not_le)
    qed simp
    ultimately show ?thesis by (rule that [rotated])
  qed
  have k30: "k < 30"
  proof (rule ccontr)
    assume "\<not> k < 30"
    then have "(2 :: nat) ^ 30 \<le> 2 ^ k" by (intro power_increasing) simp_all
    with k(1) n(1) show False by linarith
  qed
  have k9: "9 \<le> k"
  proof (rule ccontr)
    assume "\<not> 9 \<le> k"
    then have "(2 :: nat) ^ Suc k \<le> 2 ^ 9" by (intro power_increasing) simp_all
    with k(2) show False by simp
  qed
  have "rb_size rb = 2 ^ Suc k" using round_up_pow2 [OF k k30] n(2) by simp
  moreover have "n \<le> 2 ^ Suc k" using k(2) by simp
  moreover have "1024 < n \<Longrightarrow> 2 ^ Suc k < 2 * n" using k(1) by (simp add: max_def)
  ultimately show ?thesis using k30 k9 by (intro exI [of _ "Suc k"]) simp
qed

lemma create_live:
  assumes "fr_ring_buffer_create n = Some rb"
  shows "rb_inv rb \<and> live rb [] \<and> \<not> rb_closed rb"
proof -
  obtain k where "rb_size rb = 2 ^ k" "k \<le> 30" using create_size [OF assms] by blast
  then have "rb_size rb \<le> 2 ^ 30" using power_increasing [of k 30 "2 :: nat"] by simp
  then show ?thesis using assms by (auto simp: fr_ring_buffer_create_def Let_def rb_inv_def live_def split: if_splits)
qed

subsection \<open>Runs\<close>

text \<open>
  A thread that uses a buffer as the message code does: it reserves and allocates blocks, and frees the oldest
  one that is still in use, by its size.  The state is the buffer and the blocks in use.
\<close>

datatype rb_op = Reserve nat | Alloc nat | Free | Close

fun rb_step :: "rb_op \<Rightarrow> fr_ring_buffer \<times> (nat \<times> nat) list \<Rightarrow> (fr_ring_buffer \<times> (nat \<times> nat) list) option" where
  "rb_step (Reserve n) (rb, bs) = Some (snd (fr_ring_buffer_reserve rb n), bs)"
| "rb_step (Alloc n) (rb, bs) =
     (case fr_ring_buffer_alloc rb n of (None, rb') \<Rightarrow> Some (rb', bs) | (Some p, rb') \<Rightarrow> Some (rb', bs @ [(p, n)]))"
| "rb_step Free (rb, bs) =
     (case bs of [] \<Rightarrow> Some (rb, bs) | (p, n) # bs' \<Rightarrow> map_option (\<lambda>rb'. (rb', bs')) (snd (fr_ring_buffer_free rb n)))"
| "rb_step Close (rb, bs) = Some (fr_ring_buffer_close rb, bs)"

fun rb_run :: "rb_op list \<Rightarrow> fr_ring_buffer \<times> (nat \<times> nat) list \<Rightarrow> (fr_ring_buffer \<times> (nat \<times> nat) list) option" where
  "rb_run [] st = Some st"
| "rb_run (op # ops) st = (case rb_step op st of None \<Rightarrow> None | Some st' \<Rightarrow> rb_run ops st')"

text \<open>Sizes that make sense for a block: not 0, and far from overflowing \<open>size_t\<close>.\<close>

fun rb_op_ok :: "rb_op \<Rightarrow> bool" where
  "rb_op_ok (Reserve n) \<longleftrightarrow> n < 2 ^ 63"
| "rb_op_ok (Alloc n) \<longleftrightarrow> 0 < n \<and> n < 2 ^ 63"
| "rb_op_ok Free \<longleftrightarrow> True"
| "rb_op_ok Close \<longleftrightarrow> True"

lemma rb_step_live:
  assumes "rb_inv rb" "live rb bs" "rb_op_ok op" "rb_step op (rb, bs) = Some (rb', bs')"
  shows "rb_inv rb' \<and> live rb' bs' \<and> rb_size rb' = rb_size rb"
proof (cases op)
  case (Reserve n)
  obtain r rb1 where e: "fr_ring_buffer_reserve rb n = (r, rb1)" by (cases "fr_ring_buffer_reserve rb n")
  then show ?thesis using reserve_live [OF assms(1,2) _ e] assms(3,4) Reserve by simp
next
  case (Alloc n)
  obtain r rb1 where e: "fr_ring_buffer_alloc rb n = (r, rb1)" by (cases "fr_ring_buffer_alloc rb n")
  then show ?thesis using alloc_live [OF assms(1,2) _ _ e] assms(3,4) Alloc by (cases r) simp_all
next
  case Free
  show ?thesis
  proof (cases bs)
    case Nil
    with assms Free show ?thesis by simp
  next
    case (Cons b bs1)
    obtain p n where b: "b = (p, n)" by (cases b)
    obtain r rb1 where e: "fr_ring_buffer_free rb n = (r, rb1)" by (cases "fr_ring_buffer_free rb n")
    have "live rb ((p, n) # bs1)" using assms(2) Cons b by simp
    from free_live [OF assms(1) this e] show ?thesis
      using assms(4) Free Cons b e by (auto split: if_splits)
  qed
next
  case Close
  with assms show ?thesis by (auto simp: fr_ring_buffer_close_def rb_inv_def live_def)
qed

lemma rb_run_live:
  assumes "rb_inv rb" "live rb bs" "list_all rb_op_ok ops" "rb_run ops (rb, bs) = Some (rb', bs')"
  shows "rb_inv rb' \<and> live rb' bs' \<and> rb_size rb' = rb_size rb"
  using assms
proof (induction ops arbitrary: rb bs)
  case (Cons op ops)
  obtain rb1 bs1 where s: "rb_step op (rb, bs) = Some (rb1, bs1)" "rb_run ops (rb1, bs1) = Some (rb', bs')"
    using Cons.prems(4) by (auto split: option.splits)
  then show ?case using rb_step_live [OF Cons.prems(1,2) _ s(1)] Cons.IH [of rb1 bs1] Cons.prems(3) by simp
qed simp

lemma free_all_run:
  assumes "rb_inv rb" "live rb bs" "\<not> rb_closed rb"
  shows "\<exists>rb'. rb_run (replicate (length bs) Free) (rb, bs) = Some (rb', []) \<and> rb_inv rb' \<and> live rb' [] \<and>
    rb_size rb' = rb_size rb \<and> \<not> rb_closed rb'"
  using assms
proof (induction bs arbitrary: rb)
  case (Cons b bs)
  obtain p n where b: "b = (p, n)" by (cases b)
  obtain r rb1 where e: "fr_ring_buffer_free rb n = (r, rb1)" by (cases "fr_ring_buffer_free rb n")
  have "live rb ((p, n) # bs)" using Cons.prems(2) b by simp
  from free_live [OF Cons.prems(1) this e] Cons.prems(3) obtain rb2 where
    "rb1 = Some rb2" "rb_inv rb2" "live rb2 bs" "rb_size rb2 = rb_size rb" "\<not> rb_closed rb2" by auto
  with Cons.IH [of rb2] b e show ?case by auto
qed auto

subsection \<open>Edges\<close>

text \<open>
  Freeing more than there is fails, but on a wrapped buffer the first piece has been dropped by then; and a size near
  the top of \<open>size_t\<close> overflows the sum and is granted.
\<close>

lemma free_too_much:
  assumes "write_offset rb < data_start rb" "data_start rb \<le> data_end rb"
    "data_end rb - data_start rb + write_offset rb < n"
  shows "fr_ring_buffer_free rb n = (-1, Some (rb\<lparr>data_start := 0, data_end := write_offset rb\<rparr>))"
proof -
  let ?b = "data_end rb - data_start rb"
  have "\<not> n < ?b" "n \<noteq> 0" "n - ?b \<noteq> write_offset rb" "n - ?b \<noteq> 0" "n - ?b > write_offset rb" using assms by simp_all
  then show ?thesis using assms(1) unfolding fr_ring_buffer_free_def free_block_def Let_def by (simp del: diff_diff_right)
qed

lemma alloc_overflow:
  assumes "\<not> rb_closed rb" "data_start rb \<le> write_offset rb" "write_offset rb \<le> rb_size rb" "0 < k" "k \<le> write_offset rb"
    "rb_size rb \<le> 2 ^ 30"
  shows "fst (fr_ring_buffer_alloc rb (2 ^ 64 - k)) = Some (write_offset rb)"
proof -
  have "write_offset rb + (2 ^ 64 - k) = 2 ^ 64 + (write_offset rb - k)" using assms(3-6) by simp
  then have "size_add (write_offset rb) (2 ^ 64 - k) = (2 ^ 64 + (write_offset rb - k)) mod 2 ^ 64"
    unfolding size_add_def by (rule arg_cong)
  also have "\<dots> = write_offset rb - k" using assms(3,6) by simp
  finally have "size_add (write_offset rb) (2 ^ 64 - k) = write_offset rb - k" .
  moreover have "write_offset rb - k \<le> rb_size rb" using assms(3) by simp
  ultimately show ?thesis using assms(1,2) by (simp add: fr_ring_buffer_alloc_def Let_def)
qed

subsection \<open>Properties\<close>

text \<open>
  C16: Whatever a thread reserves, allocates and frees in a ring buffer, the blocks in use lie inside the buffer,
  no two of them overlap, and \<open>fr_ring_buffer_used\<close> is their total size.  The size of the buffer is the power of
  two at or above the requested one.
\<close>

theorem ring_buffer_blocks_disjoint:
  assumes "fr_ring_buffer_create n = Some rb" "list_all rb_op_ok ops" "rb_run ops (rb, []) = Some (rb', bs)"
  shows "sorted_wrt apart bs \<and> (\<forall>(p, k) \<in> set bs. 0 < k \<and> p + k \<le> rb_size rb') \<and>
    fr_ring_buffer_used rb' = sum_list (map snd bs) \<and> n \<le> rb_size rb' \<and> (\<exists>k. rb_size rb' = 2 ^ k)"
proof -
  note c = create_live [OF assms(1)]
  have r: "rb_inv rb'" "live rb' bs" "rb_size rb' = rb_size rb" using rb_run_live [OF _ _ assms(2,3)] c by blast+
  then show ?thesis using live_apart [OF r(1,2)] live_used [OF r(1,2)] create_size [OF assms(1)] by auto
qed

theorem ring_buffer_blocks_disjoint_witness:
  "\<exists>rb rb'. fr_ring_buffer_create 1000 = Some rb \<and>
    rb_run [Alloc 600, Alloc 300, Free, Alloc 500] (rb, []) = Some (rb', [(600, 300), (0, 500)]) \<and>
    fr_ring_buffer_used rb' = 800"
proof -
  have "\<exists>rb. fr_ring_buffer_create 1000 = Some rb \<and> rb = \<lparr>rb_size = 1024, data_start = 0, data_end = 0,
      write_offset = 0, reserved = 0, rb_closed = False\<rparr>"
    using round_up_pow2 [of 9 1024] by (simp add: fr_ring_buffer_create_def)
  then obtain rb where rb: "fr_ring_buffer_create 1000 = Some rb" "rb = \<lparr>rb_size = 1024, data_start = 0, data_end = 0,
      write_offset = 0, reserved = 0, rb_closed = False\<rparr>" by blast
  have "\<exists>rb'. rb_run [Alloc 600, Alloc 300, Free, Alloc 500] (rb, []) = Some (rb', [(600, 300), (0, 500)])"
    by (simp add: rb(2) fr_ring_buffer_alloc_def fr_ring_buffer_free_def free_block_def size_add_def)
  then show ?thesis using ring_buffer_blocks_disjoint [OF rb(1), of "[Alloc 600, Alloc 300, Free, Alloc 500]"] rb(1) by auto
qed

text \<open>
  C23: No sequence of operations makes a buffer unusable: from every state that can be reached, freeing the blocks
  in use succeeds one after the other, and then any block up to the size of the buffer can be allocated.
\<close>

theorem ring_buffer_recovers:
  assumes "fr_ring_buffer_create n = Some rb" "list_all rb_op_ok ops" "rb_run ops (rb, []) = Some (rb', bs)"
    "\<not> rb_closed rb'"
  shows "\<exists>rb''. rb_run (replicate (length bs) Free) (rb', bs) = Some (rb'', []) \<and>
    (\<forall>k. k \<le> rb_size rb \<longrightarrow> fst (fr_ring_buffer_alloc rb'' k) = Some 0)"
proof -
  note c = create_live [OF assms(1)]
  have r: "rb_inv rb'" "live rb' bs" "rb_size rb' = rb_size rb" using rb_run_live [OF _ _ assms(2,3)] c by blast+
  from free_all_run [OF r(1,2) assms(4)] r(3) show ?thesis using alloc_empty by metis
qed

theorem ring_buffer_recovers_witness:
  "\<exists>rb rb' rb''. fr_ring_buffer_create 1000 = Some rb \<and> rb_run [Alloc 600, Reserve 400] (rb, []) = Some (rb', [(0, 600)]) \<and>
    rb_run [Free] (rb', [(0, 600)]) = Some (rb'', []) \<and> fst (fr_ring_buffer_alloc rb'' 1024) = Some 0"
proof -
  obtain rb where rb: "fr_ring_buffer_create 1000 = Some rb" "rb = \<lparr>rb_size = 1024, data_start = 0, data_end = 0,
      write_offset = 0, reserved = 0, rb_closed = False\<rparr>"
    using round_up_pow2 [of 9 1024] by (simp add: fr_ring_buffer_create_def)
  then obtain rb' where "rb_run [Alloc 600, Reserve 400] (rb, []) = Some (rb', [(0, 600)])" "\<not> rb_closed rb'"
    by (simp add: fr_ring_buffer_alloc_def fr_ring_buffer_reserve_def size_add_def)
  with ring_buffer_recovers [OF rb(1) _ this] rb show ?thesis by auto
qed

text \<open>
  Once the writer has wrapped around, \<open>fr_ring_buffer_start\<close> returns the size of the piece at the
  beginning of the buffer, not of the block that starts where it points to: here 300 bytes are in use at
  offset 600, and the size is 0.
\<close>

theorem ring_buffer_start_wrapped:
  "\<exists>rb rb'. fr_ring_buffer_create 1000 = Some rb \<and>
    rb_run [Alloc 600, Alloc 300, Free, Reserve 500] (rb, []) = Some (rb', [(600, 300)]) \<and>
    fr_ring_buffer_used rb' = 300 \<and> fr_ring_buffer_start rb' = (600, 0)"
proof -
  have "fr_ring_buffer_create 1000 = Some \<lparr>rb_size = 1024, data_start = 0, data_end = 0, write_offset = 0,
      reserved = 0, rb_closed = False\<rparr>"
    using round_up_pow2 [of 9 1024] by (simp add: fr_ring_buffer_create_def)
  then show ?thesis
    by (simp add: fr_ring_buffer_alloc_def fr_ring_buffer_reserve_def fr_ring_buffer_free_def free_block_def
        size_add_def fr_ring_buffer_used_def fr_ring_buffer_start_def)
qed

end
