(* ===== verification/Atomic_Queue.thy ===== *)
theory Atomic_Queue
  imports Bounded_Queue
begin

text \<open>
  The lock-free queue of \<open>src/lib/io/atomic_queue.c\<close>, through which the threads of the server pass
  pointers to each other.  \<open>push_thread\<close> and \<open>pop_thread\<close> are the steps of one thread inside
  \<open>fr_atomic_queue_push\<close> and \<open>fr_atomic_queue_pop\<close>, one access to shared memory at a time; a thread's
  program counter and local variables are a value of type \<open>pc\<close>.  Run alone to the end, they give the two
  functions as a single thread sees them; interleaved, they give the runs of many threads, in which every
  access is atomic and seen by all threads in the same order.  The counters have 64 bits and are modelled
  without overflow.

  A counter value is the ticket of one push and of the pop that takes its value out; ticket \<open>i\<close> belongs to
  entry \<open>i mod size\<close>.
\<close>

record fr_atomic_queue =
  aq_size :: nat
  aq_head :: nat
  aq_tail :: nat
  aq_seq :: "nat list"
  aq_data :: "ptr list"

definition fr_atomic_queue_alloc :: "nat \<Rightarrow> fr_atomic_queue option" where
  "fr_atomic_queue_alloc n =
     (if n = 0 then None
      else Some \<lparr>aq_size = n, aq_head = 0, aq_tail = 0, aq_seq = [0..<n], aq_data = replicate n NULL\<rparr>)"

definition fr_atomic_queue_size :: "fr_atomic_queue \<Rightarrow> nat" where
  "fr_atomic_queue_size q = aq_size q"

subsection \<open>The steps of a thread\<close>

datatype pc =
    Idle
  | PushLoop ptr nat
  | PushCas ptr nat
  | PushData ptr nat
  | PushSeq ptr nat
  | PushDone bool
  | PopLoop nat
  | PopCas nat
  | PopData nat
  | PopSeq nat ptr
  | PopDone "(nat \<times> ptr) option"

text \<open>\<open>cas_incr\<close> loads the counter into its second argument when the exchange fails.\<close>

fun push_thread :: "fr_atomic_queue \<Rightarrow> pc \<Rightarrow> fr_atomic_queue \<times> pc" where
  "push_thread q (PushLoop data head) =
     (let diff = int (aq_seq q ! (head mod aq_size q)) - int head in
      if diff < 0 then (q, PushDone False)
      else if diff > 0 then (q, PushLoop data (aq_head q))
      else (q, PushCas data head))"
| "push_thread q (PushCas data head) =
     (if aq_head q = head then (q\<lparr>aq_head := head + 1\<rparr>, PushData data head)
      else (q, PushLoop data (aq_head q)))"
| "push_thread q (PushData data head) =
     (q\<lparr>aq_data := (aq_data q)[head mod aq_size q := data]\<rparr>, PushSeq data head)"
| "push_thread q (PushSeq data head) =
     (q\<lparr>aq_seq := (aq_seq q)[head mod aq_size q := head + 1]\<rparr>, PushDone True)"
| "push_thread q p = (q, p)"

fun pop_thread :: "fr_atomic_queue \<Rightarrow> pc \<Rightarrow> fr_atomic_queue \<times> pc" where
  "pop_thread q (PopLoop tail) =
     (let diff = int (aq_seq q ! (tail mod aq_size q)) - (int tail + 1) in
      if diff < 0 then (q, PopDone None)
      else if diff > 0 then (q, PopLoop (aq_tail q))
      else (q, PopCas tail))"
| "pop_thread q (PopCas tail) =
     (if aq_tail q = tail then (q\<lparr>aq_tail := tail + 1\<rparr>, PopData tail)
      else (q, PopLoop (aq_tail q)))"
| "pop_thread q (PopData tail) = (q, PopSeq tail (aq_data q ! (tail mod aq_size q)))"
| "pop_thread q (PopSeq tail data) =
     (q\<lparr>aq_seq := (aq_seq q)[tail mod aq_size q := tail + aq_size q]\<rparr>, PopDone (Some (tail, data)))"
| "pop_thread q p = (q, p)"

subsection \<open>One thread\<close>

partial_function (option) push_run :: "fr_atomic_queue \<Rightarrow> pc \<Rightarrow> (bool \<times> fr_atomic_queue) option" where
  "push_run q p = (case p of PushDone b \<Rightarrow> Some (b, q) | _ \<Rightarrow> (case push_thread q p of (q', p') \<Rightarrow> push_run q' p'))"

partial_function (option) pop_run :: "fr_atomic_queue \<Rightarrow> pc \<Rightarrow> (ptr option \<times> fr_atomic_queue) option" where
  "pop_run q p = (case p of PopDone r \<Rightarrow> Some (map_option snd r, q) | _ \<Rightarrow> (case pop_thread q p of (q', p') \<Rightarrow> pop_run q' p'))"

text \<open>\<open>None\<close>: the function does not return.\<close>

definition fr_atomic_queue_push :: "fr_atomic_queue \<Rightarrow> ptr \<Rightarrow> (bool \<times> fr_atomic_queue) option" where
  "fr_atomic_queue_push q data = (if data = NULL then Some (False, q) else push_run q (PushLoop data (aq_head q)))"

definition fr_atomic_queue_pop :: "fr_atomic_queue \<Rightarrow> (ptr option \<times> fr_atomic_queue) option" where
  "fr_atomic_queue_pop q = pop_run q (PopLoop (aq_tail q))"

lemmas push_run_unfold = push_run.simps [of _ "PushLoop v i" for v i] push_run.simps [of _ "PushCas v i" for v i]
  push_run.simps [of _ "PushData v i" for v i] push_run.simps [of _ "PushSeq v i" for v i] push_run.simps [of _ "PushDone b" for b]

lemmas pop_run_unfold = pop_run.simps [of _ "PopLoop i" for i] pop_run.simps [of _ "PopCas i" for i]
  pop_run.simps [of _ "PopData i" for i] pop_run.simps [of _ "PopSeq i v" for i v] pop_run.simps [of _ "PopDone r" for r]

definition aq_inv :: "fr_atomic_queue \<Rightarrow> bool" where
  "aq_inv q \<longleftrightarrow> 2 \<le> aq_size q \<and> length (aq_seq q) = aq_size q \<and> length (aq_data q) = aq_size q \<and>
     aq_tail q \<le> aq_head q \<and> aq_head q \<le> aq_tail q + aq_size q \<and>
     (\<forall>c. aq_tail q \<le> c \<and> c < aq_head q \<longrightarrow> aq_seq q ! (c mod aq_size q) = Suc c) \<and>
     (\<forall>c. aq_head q \<le> c \<and> c < aq_tail q + aq_size q \<longrightarrow> aq_seq q ! (c mod aq_size q) = c)"

definition aq_items :: "fr_atomic_queue \<Rightarrow> ptr list" where
  "aq_items q = map (\<lambda>c. aq_data q ! (c mod aq_size q)) [aq_tail q..<aq_head q]"

lemma mod_neq:
  assumes "a < b" "b < a + (n :: nat)"
  shows "a mod n \<noteq> b mod n"
proof
  assume "a mod n = b mod n"
  then have "n dvd b - a" using assms(1) mod_eq_dvd_iff_nat [of a b n] by simp
  then have "n \<le> b - a" using assms(1) by (intro dvd_imp_le) simp_all
  with assms show False by simp
qed

lemma mod_Suc_neq: "2 \<le> n \<Longrightarrow> Suc a mod n \<noteq> a mod n"
  using mod_neq [of a "Suc a" n] by (auto simp: eq_commute)

lemma aq_alloc: "fr_atomic_queue_alloc n = Some q \<Longrightarrow> 2 \<le> n \<Longrightarrow> aq_inv q \<and> aq_items q = [] \<and> aq_size q = n"
  by (auto simp: fr_atomic_queue_alloc_def aq_inv_def aq_items_def split: if_splits)

lemma aq_push_ok:
  assumes "aq_inv q" "v \<noteq> NULL" "length (aq_items q) < aq_size q"
  shows "\<exists>q'. fr_atomic_queue_push q v = Some (True, q') \<and> aq_inv q' \<and> aq_items q' = aq_items q @ [v] \<and> aq_size q' = aq_size q"
proof -
  let ?n = "aq_size q" and ?h = "aq_head q" and ?t = "aq_tail q"
  let ?q = "q\<lparr>aq_head := ?h + 1, aq_data := (aq_data q)[?h mod ?n := v], aq_seq := (aq_seq q)[?h mod ?n := ?h + 1]\<rparr>"
  have room: "?h < ?t + ?n" using assms by (auto simp: aq_items_def aq_inv_def)
  have n: "0 < ?n" using assms(1) by (simp add: aq_inv_def)
  have "aq_seq q ! (?h mod ?n) = ?h" using assms(1) room by (simp add: aq_inv_def)
  then have run: "fr_atomic_queue_push q v = Some (True, ?q)"
    using assms(2) by (simp add: fr_atomic_queue_push_def push_run_unfold)
  have other: "?h mod ?n \<noteq> c mod ?n" if "?t \<le> c" "c < ?t + ?n" "c \<noteq> ?h" for c
    using that room mod_neq [of c ?h ?n] mod_neq [of ?h c ?n] assms(1) by (cases "c < ?h") (auto simp: aq_inv_def)
  have "aq_inv ?q"
    using assms(1) room n other unfolding aq_inv_def by (auto simp: less_Suc_eq)
  moreover have "aq_items ?q = aq_items q @ [v]"
    using assms(1) room n other by (auto simp: aq_items_def aq_inv_def)
  ultimately show ?thesis using run by auto
qed

lemma aq_push_full:
  assumes "aq_inv q" "aq_size q \<le> length (aq_items q)"
  shows "fr_atomic_queue_push q v = Some (False, q)"
proof (cases "v = NULL")
  case False
  have h: "aq_head q = aq_tail q + aq_size q" using assms by (auto simp: aq_items_def aq_inv_def)
  then have "aq_seq q ! (aq_head q mod aq_size q) = Suc (aq_tail q)" "Suc (aq_tail q) < aq_head q"
    using assms(1) by (auto simp: aq_inv_def)
  then show ?thesis using False by (simp add: fr_atomic_queue_push_def push_run_unfold)
qed (simp add: fr_atomic_queue_push_def)

lemma aq_pop_ok:
  assumes "aq_inv q" "aq_items q = v # vs"
  shows "\<exists>q'. fr_atomic_queue_pop q = Some (Some v, q') \<and> aq_inv q' \<and> aq_items q' = vs \<and> aq_size q' = aq_size q"
proof -
  let ?n = "aq_size q" and ?h = "aq_head q" and ?t = "aq_tail q"
  let ?q = "q\<lparr>aq_tail := ?t + 1, aq_seq := (aq_seq q)[?t mod ?n := ?t + ?n]\<rparr>"
  have some: "?t < ?h" using assms(2) by (cases "?t < ?h") (auto simp: aq_items_def)
  have n: "0 < ?n" using assms(1) by (simp add: aq_inv_def)
  have items: "aq_data q ! (?t mod ?n) = v" "map (\<lambda>c. aq_data q ! (c mod ?n)) [Suc ?t..<?h] = vs"
    using assms(2) some by (simp_all add: aq_items_def upt_conv_Cons)
  have "aq_seq q ! (?t mod ?n) = Suc ?t" using assms(1) some by (simp add: aq_inv_def)
  then have run: "fr_atomic_queue_pop q = Some (Some v, ?q)"
    by (simp add: fr_atomic_queue_pop_def pop_run_unfold items)
  have other: "?t mod ?n \<noteq> c mod ?n" if "?t < c" "c < ?t + ?n" for c
    using that mod_neq [of ?t c ?n] by auto
  have last: "?t mod ?n = c mod ?n \<longleftrightarrow> c = ?t + ?n" if "?t < c" "c < Suc ?t + ?n" for c
    using that other [of c] by (cases "c = ?t + ?n") auto
  have "aq_inv ?q"
    using assms(1) some n other last unfolding aq_inv_def by (auto simp: less_Suc_eq nth_list_update)
  then show ?thesis using run items by (auto simp: aq_items_def)
qed

lemma aq_pop_empty:
  assumes "aq_inv q" "aq_items q = []"
  shows "fr_atomic_queue_pop q = Some (None, q)"
proof -
  have "aq_head q = aq_tail q" using assms by (auto simp: aq_items_def aq_inv_def)
  then have "aq_seq q ! (aq_tail q mod aq_size q) = aq_tail q" using assms(1) by (auto simp: aq_inv_def)
  then show ?thesis by (simp add: fr_atomic_queue_pop_def pop_run_unfold)
qed

text \<open>The queue as its callers see it: \<open>None\<close> for a failed push or pop.\<close>

definition aq_push :: "fr_atomic_queue \<Rightarrow> ptr \<Rightarrow> fr_atomic_queue option" where
  "aq_push q v = (case fr_atomic_queue_push q v of Some (True, q') \<Rightarrow> Some q' | _ \<Rightarrow> None)"

definition aq_pop :: "fr_atomic_queue \<Rightarrow> (ptr \<times> fr_atomic_queue) option" where
  "aq_pop q = (case fr_atomic_queue_pop q of Some (Some v, q') \<Rightarrow> Some (v, q') | _ \<Rightarrow> None)"

interpretation atomic_q: bounded_queue aq_inv aq_items aq_size "\<lambda>v. v \<noteq> NULL" aq_push aq_pop
proof
  fix q assume "aq_inv q"
  then show "length (aq_items q) \<le> aq_size q" by (auto simp: aq_inv_def aq_items_def)
next
  fix q :: fr_atomic_queue and v :: ptr assume "aq_inv q" "v \<noteq> NULL" "length (aq_items q) < aq_size q"
  then show "\<exists>q'. aq_push q v = Some q' \<and> aq_inv q' \<and> aq_items q' = aq_items q @ [v] \<and> aq_size q' = aq_size q"
    using aq_push_ok [of q v] by (auto simp: aq_push_def)
next
  fix q :: fr_atomic_queue and v :: ptr assume "aq_inv q" "aq_size q \<le> length (aq_items q)"
  then show "aq_push q v = None" using aq_push_full [of q v] by (simp add: aq_push_def)
next
  fix q :: fr_atomic_queue and v vs assume "aq_inv q" "aq_items q = v # vs"
  then show "\<exists>q'. aq_pop q = Some (v, q') \<and> aq_inv q' \<and> aq_items q' = vs \<and> aq_size q' = aq_size q"
    using aq_pop_ok [of q v vs] by (auto simp: aq_pop_def)
next
  fix q :: fr_atomic_queue assume "aq_inv q" "aq_items q = []"
  then show "aq_pop q = None" using aq_pop_empty [of q] by (simp add: aq_pop_def)
qed

subsection \<open>Many threads\<close>

text \<open>
  A state: the queue, the program counter of every thread, and two histories that the code does not have, the
  values in the order in which the pushes got their tickets, and the tickets and values that the pops returned.
\<close>

type_synonym aq_state = "fr_atomic_queue \<times> (nat \<Rightarrow> pc) \<times> ptr list \<times> (nat \<times> ptr) list"

fun thread_step :: "fr_atomic_queue \<Rightarrow> pc \<Rightarrow> fr_atomic_queue \<times> pc" where
  "thread_step q (PopLoop i) = pop_thread q (PopLoop i)"
| "thread_step q (PopCas i) = pop_thread q (PopCas i)"
| "thread_step q (PopData i) = pop_thread q (PopData i)"
| "thread_step q (PopSeq i v) = pop_thread q (PopSeq i v)"
| "thread_step q p = push_thread q p"

fun note_push :: "fr_atomic_queue \<Rightarrow> pc \<Rightarrow> ptr list \<Rightarrow> ptr list" where
  "note_push q (PushCas v i) ins = (if aq_head q = i then ins @ [v] else ins)"
| "note_push q p ins = ins"

fun note_pop :: "pc \<Rightarrow> (nat \<times> ptr) list \<Rightarrow> (nat \<times> ptr) list" where
  "note_pop (PopSeq i v) outs = outs @ [(i, v)]"
| "note_pop p outs = outs"

text \<open>The states that threads reach when those in \<open>C\<close> may pop and all may push.\<close>

inductive aq_reach :: "nat set \<Rightarrow> nat \<Rightarrow> aq_state \<Rightarrow> bool" for C n where
  alloc: "fr_atomic_queue_alloc n = Some q \<Longrightarrow> aq_reach C n (q, \<lambda>k. Idle, [], [])"
| push: "aq_reach C n (q, pcs, ins, outs) \<Longrightarrow> pcs k = Idle \<Longrightarrow> v \<noteq> NULL \<Longrightarrow>
    aq_reach C n (q, pcs(k := PushLoop v (aq_head q)), ins, outs)"
| pop: "aq_reach C n (q, pcs, ins, outs) \<Longrightarrow> pcs k = Idle \<Longrightarrow> k \<in> C \<Longrightarrow>
    aq_reach C n (q, pcs(k := PopLoop (aq_tail q)), ins, outs)"
| step: "aq_reach C n (q, pcs, ins, outs) \<Longrightarrow> thread_step q (pcs k) = (q', p') \<Longrightarrow>
    aq_reach C n (q', pcs(k := p'), note_push q (pcs k) ins, note_pop (pcs k) outs)"
| ret: "aq_reach C n (q, pcs, ins, outs) \<Longrightarrow> pcs k = PushDone b \<or> pcs k = PopDone r \<Longrightarrow>
    aq_reach C n (q, pcs(k := Idle), ins, outs)"

fun pushing :: "pc \<Rightarrow> nat option" where
  "pushing (PushData v i) = Some i"
| "pushing (PushSeq v i) = Some i"
| "pushing p = None"

fun popping :: "pc \<Rightarrow> nat option" where
  "popping (PopData i) = Some i"
| "popping (PopSeq i v) = Some i"
| "popping p = None"

text \<open>
  Every entry belongs to one ticket \<open>c\<close>: it waits for its push, is being written, holds its value, or is being read.
\<close>

definition slot_ok :: "fr_atomic_queue \<Rightarrow> (nat \<Rightarrow> pc) \<Rightarrow> ptr list \<Rightarrow> nat \<Rightarrow> nat \<Rightarrow> bool" where
  "slot_ok q pcs ins j c \<longleftrightarrow> c mod aq_size q = j \<and> aq_head q \<le> c + aq_size q \<and> c < aq_tail q + aq_size q \<and>
     (aq_seq q ! j = c \<and> (aq_head q \<le> c \<or> aq_tail q \<le> c \<and> (\<exists>k. pushing (pcs k) = Some c)) \<or>
      aq_seq q ! j = Suc c \<and> c < aq_head q \<and> aq_data q ! j = ins ! c \<and>
        (aq_tail q \<le> c \<or> (\<exists>k. popping (pcs k) = Some c)))"

fun thread_ok :: "fr_atomic_queue \<Rightarrow> ptr list \<Rightarrow> pc \<Rightarrow> bool" where
  "thread_ok q ins (PushLoop v i) \<longleftrightarrow> i \<le> aq_head q"
| "thread_ok q ins (PushCas v i) \<longleftrightarrow> i \<le> aq_head q \<and> (i = aq_head q \<longrightarrow> aq_seq q ! (i mod aq_size q) = i)"
| "thread_ok q ins (PushData v i) \<longleftrightarrow> aq_tail q \<le> i \<and> i < aq_head q \<and> aq_seq q ! (i mod aq_size q) = i \<and> ins ! i = v"
| "thread_ok q ins (PushSeq v i) \<longleftrightarrow> aq_tail q \<le> i \<and> i < aq_head q \<and> aq_seq q ! (i mod aq_size q) = i \<and> ins ! i = v \<and>
     aq_data q ! (i mod aq_size q) = v"
| "thread_ok q ins (PopLoop i) \<longleftrightarrow> i \<le> aq_tail q"
| "thread_ok q ins (PopCas i) \<longleftrightarrow> i \<le> aq_tail q \<and> (i = aq_tail q \<longrightarrow> aq_seq q ! (i mod aq_size q) = Suc i)"
| "thread_ok q ins (PopData i) \<longleftrightarrow> i < aq_tail q \<and> aq_seq q ! (i mod aq_size q) = Suc i \<and>
     aq_data q ! (i mod aq_size q) = ins ! i"
| "thread_ok q ins (PopSeq i v) \<longleftrightarrow> i < aq_tail q \<and> aq_seq q ! (i mod aq_size q) = Suc i \<and> v = ins ! i \<and>
     aq_data q ! (i mod aq_size q) = ins ! i"
| "thread_ok q ins p \<longleftrightarrow> True"

definition aq_shape :: "fr_atomic_queue \<Rightarrow> ptr list \<Rightarrow> bool" where
  "aq_shape q ins \<longleftrightarrow> 2 \<le> aq_size q \<and> length (aq_seq q) = aq_size q \<and> length (aq_data q) = aq_size q \<and>
     aq_tail q \<le> aq_head q \<and> length ins = aq_head q"

definition aq_unique :: "(nat \<Rightarrow> pc) \<Rightarrow> bool" where
  "aq_unique pcs \<longleftrightarrow> (\<forall>k k' c. pushing (pcs k) = Some c \<longrightarrow> pushing (pcs k') = Some c \<longrightarrow> k = k') \<and>
     (\<forall>k k' c. popping (pcs k) = Some c \<longrightarrow> popping (pcs k') = Some c \<longrightarrow> k = k')"

definition aq_outs :: "fr_atomic_queue \<Rightarrow> (nat \<Rightarrow> pc) \<Rightarrow> ptr list \<Rightarrow> (nat \<times> ptr) list \<Rightarrow> bool" where
  "aq_outs q pcs ins outs \<longleftrightarrow> distinct (map fst outs) \<and>
     (\<forall>c v. (c, v) \<in> set outs \<longrightarrow> c < aq_tail q \<and> v = ins ! c \<and> (\<forall>k. popping (pcs k) \<noteq> Some c)) \<and>
     (\<forall>c < aq_tail q. c \<in> fst ` set outs \<or> (\<exists>k. popping (pcs k) = Some c))"

definition aq_conc_inv :: "aq_state \<Rightarrow> bool" where
  "aq_conc_inv st \<longleftrightarrow> (case st of (q, pcs, ins, outs) \<Rightarrow>
     aq_shape q ins \<and> (\<forall>j < aq_size q. \<exists>c. slot_ok q pcs ins j c) \<and> (\<forall>k. thread_ok q ins (pcs k)) \<and>
     aq_unique pcs \<and> aq_outs q pcs ins outs)"

text \<open>Steps that change only what a thread is about to do, and neither take nor release an entry.\<close>

lemma neutral_step:
  assumes "aq_conc_inv (q, pcs, ins, outs)" "pushing (pcs k) = pushing p" "popping (pcs k) = popping p" "thread_ok q ins p"
  shows "aq_conc_inv (q, pcs(k := p), ins, outs)"
proof -
  have e: "pushing ((pcs(k := p)) k') = pushing (pcs k')" "popping ((pcs(k := p)) k') = popping (pcs k')" for k'
    using assms(2,3) by auto
  show ?thesis
    using assms(1,4) unfolding aq_conc_inv_def prod.case aq_unique_def aq_outs_def slot_ok_def e by simp
qed

lemma owner_upd:
  "pushing (pcs k) \<noteq> Some c \<Longrightarrow> (\<exists>k'. pushing ((pcs(k := p)) k') = Some c) \<longleftrightarrow> pushing p = Some c \<or> (\<exists>k'. pushing (pcs k') = Some c)"
  "popping (pcs k) \<noteq> Some c \<Longrightarrow> (\<exists>k'. popping ((pcs(k := p)) k') = Some c) \<longleftrightarrow> popping p = Some c \<or> (\<exists>k'. popping (pcs k') = Some c)"
  by (metis fun_upd_apply)+

lemma slot_seq:
  assumes "2 \<le> aq_size q" "slot_ok q pcs ins (i mod aq_size q) c"
  shows "aq_seq q ! (i mod aq_size q) = i \<Longrightarrow> c = i" "aq_seq q ! (i mod aq_size q) = Suc i \<Longrightarrow> c = i \<and> i < aq_head q"
  using assms mod_Suc_neq [OF assms(1), of c] mod_Suc_neq [OF assms(1), of i] by (auto simp: slot_ok_def)

lemma push_cas_slot:
  assumes "slot_ok q pcs ins j c" "aq_shape q ins" "pcs k = PushCas v (aq_head q)" "aq_seq q ! (aq_head q mod aq_size q) = aq_head q"
  shows "slot_ok (q\<lparr>aq_head := aq_head q + 1\<rparr>) (pcs(k := PushData v (aq_head q))) (ins @ [v]) j c"
proof (cases "j = aq_head q mod aq_size q")
  case True
  then have "c = aq_head q" using slot_seq(1) [of q pcs ins "aq_head q" c] assms by (auto simp: aq_shape_def)
  moreover have "c < aq_tail q + aq_size q" using assms(1) by (simp add: slot_ok_def)
  ultimately show ?thesis using True assms(2,4) by (auto simp: slot_ok_def aq_shape_def owner_upd(1) assms(3))
next
  case False
  have cj: "c mod aq_size q = j" using assms(1) by (simp add: slot_ok_def)
  have c: "c \<noteq> aq_head q" using cj False by auto
  have c': "c + aq_size q \<noteq> aq_head q" using cj False by (metis mod_add_self2)
  have "pushing (pcs k) = None" "popping (pcs k) = None" using assms(3) by simp_all
  then have ow: "(\<exists>k'. pushing ((pcs(k := PushData v (aq_head q))) k') = Some c) \<longleftrightarrow> (\<exists>k'. pushing (pcs k') = Some c)"
    "(\<exists>k'. popping ((pcs(k := PushData v (aq_head q))) k') = Some c) \<longleftrightarrow> (\<exists>k'. popping (pcs k') = Some c)"
    using owner_upd [of pcs k c "PushData v (aq_head q)"] c by simp_all
  show ?thesis using assms(1,2) c c' unfolding slot_ok_def ow by (auto simp: aq_shape_def nth_append)
qed

lemma aq_conc_invD:
  assumes "aq_conc_inv (q, pcs, ins, outs)"
  shows "aq_shape q ins" "j < aq_size q \<Longrightarrow> \<exists>c. slot_ok q pcs ins j c" "thread_ok q ins (pcs k)"
    "aq_unique pcs" "aq_outs q pcs ins outs"
  using assms by (auto simp: aq_conc_inv_def)

lemma aq_conc_invI:
  assumes "aq_shape q ins" "\<And>j. j < aq_size q \<Longrightarrow> \<exists>c. slot_ok q pcs ins j c" "\<And>k. thread_ok q ins (pcs k)"
    "aq_unique pcs" "aq_outs q pcs ins outs"
  shows "aq_conc_inv (q, pcs, ins, outs)"
  using assms by (simp add: aq_conc_inv_def)

text \<open>A slot that the step does not touch keeps its ticket.\<close>

lemma slot_keep:
  assumes "slot_ok q pcs ins j c" "aq_size q' = aq_size q" "aq_head q' = aq_head q" "aq_seq q' ! j = aq_seq q ! j"
    "aq_data q' ! j = aq_data q ! j" "aq_tail q \<le> aq_tail q'" "aq_tail q \<le> c \<longrightarrow> aq_tail q' \<le> c"
    "pushing (pcs k) = Some c \<longrightarrow> pushing p = Some c" "popping (pcs k) = Some c \<longrightarrow> popping p = Some c"
  shows "slot_ok q' (pcs(k := p)) ins j c"
proof -
  have "(\<exists>k'. pushing (pcs k') = Some c) \<Longrightarrow> (\<exists>k'. pushing ((pcs(k := p)) k') = Some c)"
    "(\<exists>k'. popping (pcs k') = Some c) \<Longrightarrow> (\<exists>k'. popping ((pcs(k := p)) k') = Some c)"
    using assms(8,9) by (metis fun_upd_apply)+
  moreover have "c < aq_tail q + aq_size q \<Longrightarrow> c < aq_tail q' + aq_size q" using assms(6) by simp
  ultimately show ?thesis using assms(1,7) unfolding slot_ok_def assms(2-5) by blast
qed

lemma outs_keep:
  assumes "aq_outs q pcs ins outs" "aq_tail q' = aq_tail q" "popping (pcs k) = popping p" "\<forall>c < aq_tail q. ins' ! c = ins ! c"
  shows "aq_outs q' (pcs(k := p)) ins' outs"
proof -
  have "popping ((pcs(k := p)) k') = popping (pcs k')" for k' using assms(3) by simp
  with assms(1,2,4) show ?thesis unfolding aq_outs_def by simp
qed

lemma push_cas_step:
  assumes inv: "aq_conc_inv (q, pcs, ins, outs)" and k: "pcs k = PushCas v (aq_head q)"
  shows "aq_conc_inv (q\<lparr>aq_head := aq_head q + 1\<rparr>, pcs(k := PushData v (aq_head q)), ins @ [v], outs)"
proof (rule aq_conc_invI)
  note sh = aq_conc_invD(1) [OF inv] and th = aq_conc_invD(3) [OF inv]
  have sq: "aq_seq q ! (aq_head q mod aq_size q) = aq_head q" using th [of k] k by simp
  show "aq_shape (q\<lparr>aq_head := aq_head q + 1\<rparr>) (ins @ [v])" using sh by (simp add: aq_shape_def)
  show "thread_ok (q\<lparr>aq_head := aq_head q + 1\<rparr>) (ins @ [v]) ((pcs(k := PushData v (aq_head q))) k')" for k'
  proof (cases "k' = k")
    case True
    then show ?thesis using sh sq by (simp add: aq_shape_def nth_append)
  next
    case False
    then show ?thesis using th [of k'] sh by (cases "pcs k'") (auto simp: aq_shape_def nth_append)
  qed
  have "pushing (pcs k') \<noteq> Some (aq_head q)" for k' using th [of k'] by (cases "pcs k'") auto
  with aq_conc_invD(4) [OF inv] show "aq_unique (pcs(k := PushData v (aq_head q)))" using k by (auto simp: aq_unique_def)
  show "aq_outs (q\<lparr>aq_head := aq_head q + 1\<rparr>) (pcs(k := PushData v (aq_head q))) (ins @ [v]) outs"
    by (rule outs_keep [OF aq_conc_invD(5) [OF inv]]) (use sh k in \<open>auto simp: aq_shape_def nth_append\<close>)
  show "\<exists>c. slot_ok (q\<lparr>aq_head := aq_head q + 1\<rparr>) (pcs(k := PushData v (aq_head q))) (ins @ [v]) j c"
    if "j < aq_size (q\<lparr>aq_head := aq_head q + 1\<rparr>)" for j
    using aq_conc_invD(2) [OF inv, of j] that push_cas_slot [of q pcs ins j _ k v, OF _ sh k sq] by auto
qed

lemma push_data_step:
  assumes inv: "aq_conc_inv (q, pcs, ins, outs)" and k: "pcs k = PushData v i"
  shows "aq_conc_inv (q\<lparr>aq_data := (aq_data q)[i mod aq_size q := v]\<rparr>, pcs(k := PushSeq v i), ins, outs)"
proof (rule aq_conc_invI)
  let ?q = "q\<lparr>aq_data := (aq_data q)[i mod aq_size q := v]\<rparr>" and ?n = "aq_size q"
  note sh = aq_conc_invD(1) [OF inv] and th = aq_conc_invD(3) [OF inv] and un = aq_conc_invD(4) [OF inv]
  have n: "2 \<le> ?n" "length (aq_data q) = ?n" using sh by (simp_all add: aq_shape_def)
  have i: "aq_tail q \<le> i" "i < aq_head q" "aq_seq q ! (i mod ?n) = i" "ins ! i = v" using th [of k] k by auto
  show "aq_shape ?q ins" using sh by (simp add: aq_shape_def)
  show "aq_unique (pcs(k := PushSeq v i))" using un k by (auto simp: aq_unique_def split: if_splits)
  show "aq_outs ?q (pcs(k := PushSeq v i)) ins outs" by (rule outs_keep [OF aq_conc_invD(5) [OF inv]]) (simp_all add: k)
  show "thread_ok ?q ins ((pcs(k := PushSeq v i)) k')" for k'
  proof (cases "k' = k")
    case True
    then show ?thesis using i n by simp
  next
    case False
    then have "pushing (pcs k') \<noteq> Some i" using un k by (auto simp: aq_unique_def)
    then show ?thesis using False th [of k'] i(3) n mod_Suc_neq [OF n(1)]
      by (cases "pcs k'") (auto simp: nth_list_update)
  qed
  fix j assume "j < aq_size ?q"
  then obtain c where c: "slot_ok q pcs ins j c" using aq_conc_invD(2) [OF inv, of j] by auto
  show "\<exists>c. slot_ok ?q (pcs(k := PushSeq v i)) ins j c"
  proof (cases "j = i mod ?n")
    case True
    then have "c = i" using slot_seq(1) [OF n(1), of pcs ins i c] c i(3) by simp
    then have "slot_ok ?q (pcs(k := PushSeq v i)) ins j c"
      using c True i by (auto simp: slot_ok_def intro: exI [of _ k])
    then show ?thesis by blast
  next
    case False
    then show ?thesis using slot_keep [OF c, of ?q k "PushSeq v i"] k by auto
  qed
qed

lemma push_seq_step:
  assumes inv: "aq_conc_inv (q, pcs, ins, outs)" and k: "pcs k = PushSeq v i"
  shows "aq_conc_inv (q\<lparr>aq_seq := (aq_seq q)[i mod aq_size q := i + 1]\<rparr>, pcs(k := PushDone True), ins, outs)"
proof (rule aq_conc_invI)
  let ?q = "q\<lparr>aq_seq := (aq_seq q)[i mod aq_size q := i + 1]\<rparr>" and ?n = "aq_size q"
  note sh = aq_conc_invD(1) [OF inv] and th = aq_conc_invD(3) [OF inv] and un = aq_conc_invD(4) [OF inv]
  have n: "2 \<le> ?n" "length (aq_seq q) = ?n" using sh by (simp_all add: aq_shape_def)
  have i: "aq_tail q \<le> i" "i < aq_head q" "aq_seq q ! (i mod ?n) = i" "ins ! i = v" "aq_data q ! (i mod ?n) = v"
    using th [of k] k by auto
  show "aq_shape ?q ins" using sh by (simp add: aq_shape_def)
  show "aq_unique (pcs(k := PushDone True))" using un by (auto simp: aq_unique_def)
  show "aq_outs ?q (pcs(k := PushDone True)) ins outs" by (rule outs_keep [OF aq_conc_invD(5) [OF inv]]) (simp_all add: k)
  show "thread_ok ?q ins ((pcs(k := PushDone True)) k')" for k'
  proof (cases "k' = k")
    case False
    then have "pushing (pcs k') \<noteq> Some i" using un k by (auto simp: aq_unique_def)
    then show ?thesis using False th [of k'] i(2,3) n mod_Suc_neq [OF n(1)]
      by (cases "pcs k'") (auto simp: nth_list_update)
  qed simp
  fix j assume "j < aq_size ?q"
  then obtain c where c: "slot_ok q pcs ins j c" using aq_conc_invD(2) [OF inv, of j] by auto
  show "\<exists>c. slot_ok ?q (pcs(k := PushDone True)) ins j c"
  proof (cases "j = i mod ?n")
    case True
    then have "c = i" using slot_seq(1) [OF n(1), of pcs ins i c] c i(3) by simp
    then have "slot_ok ?q (pcs(k := PushDone True)) ins j c"
      using c True i n by (auto simp: slot_ok_def)
    then show ?thesis by blast
  next
    case False
    moreover have "c mod ?n = j" using c by (simp add: slot_ok_def)
    ultimately show ?thesis using slot_keep [OF c, of ?q k "PushDone True"] k by auto
  qed
qed

lemma pop_cas_step:
  assumes inv: "aq_conc_inv (q, pcs, ins, outs)" and k: "pcs k = PopCas (aq_tail q)"
  shows "aq_conc_inv (q\<lparr>aq_tail := aq_tail q + 1\<rparr>, pcs(k := PopData (aq_tail q)), ins, outs)"
proof (rule aq_conc_invI)
  let ?t = "aq_tail q" and ?n = "aq_size q"
  let ?q = "q\<lparr>aq_tail := aq_tail q + 1\<rparr>"
  note sh = aq_conc_invD(1) [OF inv] and th = aq_conc_invD(3) [OF inv] and un = aq_conc_invD(4) [OF inv]
  have n: "2 \<le> ?n" using sh by (simp add: aq_shape_def)
  have sq: "aq_seq q ! (?t mod ?n) = Suc ?t" using th [of k] k by simp
  obtain c0 where c0: "slot_ok q pcs ins (?t mod ?n) c0" using aq_conc_invD(2) [OF inv, of "?t mod ?n"] n by auto
  then have t: "c0 = ?t" "?t < aq_head q" using slot_seq(2) [OF n c0 sq] by simp_all
  then have dat: "aq_data q ! (?t mod ?n) = ins ! ?t" using c0 sq by (simp add: slot_ok_def)
  show "aq_shape ?q ins" using sh t by (simp add: aq_shape_def)
  have fresh: "popping (pcs k') \<noteq> Some ?t" for k' using th [of k'] by (cases "pcs k'") auto
  then show "aq_unique (pcs(k := PopData ?t))" using un by (auto simp: aq_unique_def)
  show "aq_outs ?q (pcs(k := PopData ?t)) ins outs"
  proof -
    have "popping (pcs k) = None" using k by simp
    then have "popping ((pcs(k := PopData ?t)) k') = Some c \<longleftrightarrow> popping (pcs k') = Some c" if "c < ?t" for c k'
      using that by simp
    moreover have "popping ((pcs(k := PopData ?t)) k) = Some ?t" by simp
    ultimately show ?thesis using aq_conc_invD(5) [OF inv] unfolding aq_outs_def
      by (auto simp: less_Suc_eq simp del: fun_upd_apply)
  qed
  show "thread_ok ?q ins ((pcs(k := PopData ?t)) k')" for k'
  proof (cases "k' = k")
    case True
    then show ?thesis using sq dat by simp
  next
    case False
    have "Suc ?t \<le> i" if "?t \<le> i" "aq_seq q ! (i mod ?n) = i" for i using that sq by (cases "i = ?t") auto
    then show ?thesis using False th [of k'] by (cases "pcs k'") auto
  qed
  fix j assume "j < aq_size ?q"
  then obtain c where c: "slot_ok q pcs ins j c" using aq_conc_invD(2) [OF inv, of j] by auto
  show "\<exists>c. slot_ok ?q (pcs(k := PopData ?t)) ins j c"
  proof (cases "j = ?t mod ?n")
    case True
    then have "slot_ok ?q (pcs(k := PopData ?t)) ins j ?t"
      using c0 t sq dat by (auto simp: slot_ok_def intro: exI [of _ k])
    then show ?thesis by blast
  next
    case False
    moreover have "c mod ?n = j" using c by (simp add: slot_ok_def)
    ultimately have "c \<noteq> ?t" by auto
    then show ?thesis using slot_keep [OF c, of ?q k "PopData ?t"] k by auto
  qed
qed

lemma pop_seq_step:
  assumes inv: "aq_conc_inv (q, pcs, ins, outs)" and k: "pcs k = PopSeq i v"
  shows "aq_conc_inv (q\<lparr>aq_seq := (aq_seq q)[i mod aq_size q := i + aq_size q]\<rparr>, pcs(k := PopDone (Some (i, v))), ins, outs @ [(i, v)])"
proof (rule aq_conc_invI)
  let ?q = "q\<lparr>aq_seq := (aq_seq q)[i mod aq_size q := i + aq_size q]\<rparr>" and ?n = "aq_size q"
  let ?pcs = "pcs(k := PopDone (Some (i, v)))"
  note sh = aq_conc_invD(1) [OF inv] and th = aq_conc_invD(3) [OF inv] and un = aq_conc_invD(4) [OF inv]
  have n: "2 \<le> ?n" "length (aq_seq q) = ?n" using sh by (simp_all add: aq_shape_def)
  have i: "i < aq_tail q" "aq_seq q ! (i mod ?n) = Suc i" "v = ins ! i" using th [of k] k by auto
  show "aq_shape ?q ins" using sh by (simp add: aq_shape_def)
  show "aq_unique ?pcs" using un by (auto simp: aq_unique_def)
  have alone: "popping (pcs k') \<noteq> Some i" if "k' \<noteq> k" for k' using un k that by (auto simp: aq_unique_def)
  show "aq_outs ?q ?pcs ins (outs @ [(i, v)])"
  proof -
    have p: "popping (pcs k) = Some i" using k by simp
    then have "i \<notin> fst ` set outs" using aq_conc_invD(5) [OF inv] by (auto simp: aq_outs_def)
    moreover have "popping (?pcs k') = Some c \<longleftrightarrow> c \<noteq> i \<and> popping (pcs k') = Some c" for c k'
      using p alone by (cases "k' = k") auto
    ultimately show ?thesis using aq_conc_invD(5) [OF inv] i unfolding aq_outs_def by (auto simp del: fun_upd_apply)
  qed
  show "thread_ok ?q ins (?pcs k')" for k'
  proof (cases "k' = k")
    case False
    then show ?thesis using alone [OF False] th [of k'] i n mod_Suc_neq [OF n(1), symmetric]
      by (cases "pcs k'") (auto simp: nth_list_update)
  qed simp
  fix j assume "j < aq_size ?q"
  then obtain c where c: "slot_ok q pcs ins j c" using aq_conc_invD(2) [OF inv, of j] by auto
  show "\<exists>c. slot_ok ?q ?pcs ins j c"
  proof (cases "j = i mod ?n")
    case True
    then have "c = i" using slot_seq(2) [OF n(1), of pcs ins i c] c i(2) by simp
    then have "slot_ok ?q ?pcs ins j (i + ?n)"
      using c True i n sh by (auto simp: slot_ok_def aq_shape_def)
    then show ?thesis by blast
  next
    case False
    moreover have "c mod ?n = j" using c by (simp add: slot_ok_def)
    ultimately show ?thesis using slot_keep [OF c, of ?q k "PopDone (Some (i, v))"] k by auto
  qed
qed

lemma aq_reach_inv:
  assumes "aq_reach C n st" "2 \<le> n"
  shows "aq_conc_inv st \<and> aq_size (fst st) = n"
  using assms(1)
proof (induction rule: aq_reach.induct)
  case (alloc q)
  then have "q = \<lparr>aq_size = n, aq_head = 0, aq_tail = 0, aq_seq = [0..<n], aq_data = replicate n NULL\<rparr>"
    by (simp add: fr_atomic_queue_alloc_def split: if_splits)
  moreover from this have "slot_ok q (\<lambda>k. Idle) [] j j" if "j < n" for j using that by (simp add: slot_ok_def)
  ultimately show ?case using assms(2) by (auto simp: aq_conc_inv_def aq_shape_def aq_unique_def aq_outs_def)
next
  case (push q pcs ins outs k v)
  then show ?case by (auto intro!: neutral_step)
next
  case (pop q pcs ins outs k)
  then show ?case by (auto intro!: neutral_step)
next
  case (step q pcs ins outs k q' p')
  have inv: "aq_conc_inv (q, pcs, ins, outs)" and n: "aq_size q = n" using step.IH by simp_all
  note th = aq_conc_invD(3) [OF inv, of k]
  show ?case
  proof (cases "pcs k")
    case (PushLoop v i)
    then show ?thesis using step.hyps(2) th inv n by (auto simp: Let_def split: if_splits intro!: neutral_step)
  next
    case (PushCas v i)
    then show ?thesis using step.hyps(2) th inv n push_cas_step [OF inv, of k v] by (auto split: if_splits intro!: neutral_step)
  next
    case (PushData v i)
    then show ?thesis using step.hyps(2) n push_data_step [OF inv PushData] by auto
  next
    case (PushSeq v i)
    then show ?thesis using step.hyps(2) n push_seq_step [OF inv PushSeq] by auto
  next
    case (PopLoop i)
    then show ?thesis using step.hyps(2) th inv n by (auto simp: Let_def split: if_splits intro!: neutral_step)
  next
    case (PopCas i)
    then show ?thesis using step.hyps(2) th inv n pop_cas_step [OF inv, of k] by (auto split: if_splits intro!: neutral_step)
  next
    case (PopData i)
    then show ?thesis using step.hyps(2) th inv n by (auto intro!: neutral_step)
  next
    case (PopSeq i v)
    then show ?thesis using step.hyps(2) n pop_seq_step [OF inv PopSeq] by auto
  next
    case Idle
    with step.hyps(2) have "q' = q" "p' = Idle" by simp_all
    with Idle inv n show ?thesis by (simp add: fun_upd_idem)
  next
    case (PushDone b)
    with step.hyps(2) have "q' = q" "p' = PushDone b" by simp_all
    with PushDone inv n show ?thesis by (simp add: fun_upd_idem)
  next
    case (PopDone r)
    with step.hyps(2) have "q' = q" "p' = PopDone r" by simp_all
    with PopDone inv n show ?thesis by (simp add: fun_upd_idem)
  qed
next
  case (ret q pcs ins outs k b r)
  then show ?case by (auto intro!: neutral_step)
qed

text \<open>With one consumer \<open>c\<close>, the tickets are popped in order.\<close>

fun pop_pc :: "pc \<Rightarrow> bool" where
  "pop_pc (PopLoop i) = True"
| "pop_pc (PopCas i) = True"
| "pop_pc (PopData i) = True"
| "pop_pc (PopSeq i v) = True"
| "pop_pc p = False"

lemma pop_pc_step: "thread_step q p = (q', p') \<Longrightarrow> pop_pc p' \<Longrightarrow> pop_pc p"
  by (cases p) (auto simp: Let_def split: if_splits)

lemma pop_effect:
  assumes "thread_step q p = (q', p')"
  shows "note_pop p outs = outs \<and> popping p' = popping p \<and> aq_tail q' = aq_tail q \<or>
    note_pop p outs = outs \<and> popping p = None \<and> popping p' = Some (aq_tail q) \<and> aq_tail q' = Suc (aq_tail q) \<and> pop_pc p \<or>
    (\<exists>i v. p = PopSeq i v \<and> note_pop p outs = outs @ [(i, v)] \<and> popping p' = None \<and> aq_tail q' = aq_tail q)"
  using assms by (cases p) (auto simp: Let_def split: if_splits)

lemma single_consumer:
  assumes "aq_reach {c} n (q, pcs, ins, outs)"
  shows "(\<forall>k. pop_pc (pcs k) \<longrightarrow> k = c) \<and> map fst outs = [0..<length outs] \<and>
    (case popping (pcs c) of None \<Rightarrow> aq_tail q = length outs | Some i \<Rightarrow> i = length outs \<and> aq_tail q = Suc i)"
  using assms
proof (induction "(q, pcs, ins, outs)" arbitrary: q pcs ins outs rule: aq_reach.induct)
  case (alloc q)
  then show ?case by (auto simp: fr_atomic_queue_alloc_def split: if_splits)
next
  case (step q pcs ins outs k q' p')
  note IH = step.hyps(2)
  have one: "\<forall>k'. pop_pc ((pcs(k := p')) k') \<longrightarrow> k' = c" using IH pop_pc_step [OF step.hyps(3)] by auto
  have k: "pop_pc (pcs k) \<Longrightarrow> k = c" using IH by blast
  have fo: "map fst outs = [0..<length outs]"
    and ta: "case popping (pcs c) of None \<Rightarrow> aq_tail q = length outs | Some i \<Rightarrow> i = length outs \<and> aq_tail q = Suc i"
    using IH by blast+
  have "map fst (note_pop (pcs k) outs) = [0..<length (note_pop (pcs k) outs)] \<and>
    (case popping ((pcs(k := p')) c) of None \<Rightarrow> aq_tail q' = length (note_pop (pcs k) outs)
     | Some i \<Rightarrow> i = length (note_pop (pcs k) outs) \<and> aq_tail q' = Suc i)"
    using pop_effect [OF step.hyps(3), of outs]
  proof (elim disjE exE conjE)
    assume "note_pop (pcs k) outs = outs" "popping p' = popping (pcs k)" "aq_tail q' = aq_tail q"
    with fo ta show ?thesis by (cases "k = c") (auto split: option.splits)
  next
    assume "note_pop (pcs k) outs = outs" "popping (pcs k) = None" "popping p' = Some (aq_tail q)"
      "aq_tail q' = Suc (aq_tail q)" "pop_pc (pcs k)"
    with fo ta k show ?thesis by (auto split: option.splits)
  next
    fix i v assume "pcs k = PopSeq i v" "note_pop (pcs k) outs = outs @ [(i, v)]" "popping p' = None" "aq_tail q' = aq_tail q"
    with fo ta k show ?thesis by (auto split: option.splits)
  qed
  with one show ?case by blast
qed (auto split: if_splits)

subsection \<open>Nothing is stuck\<close>

text \<open>At the head and at the tail the sequence number of the entry is never ahead, so a second look decides.\<close>

lemma head_seq:
  assumes "aq_conc_inv (q, pcs, ins, outs)"
  shows "aq_seq q ! (aq_head q mod aq_size q) \<le> aq_head q"
proof -
  have n: "2 \<le> aq_size q" "aq_tail q \<le> aq_head q" using aq_conc_invD(1) [OF assms] by (simp_all add: aq_shape_def)
  obtain c where c: "slot_ok q pcs ins (aq_head q mod aq_size q) c"
    using aq_conc_invD(2) [OF assms, of "aq_head q mod aq_size q"] n by auto
  then have "\<not> (aq_head q < c \<and> c < aq_head q + aq_size q)" using mod_neq [of "aq_head q" c "aq_size q"] by (auto simp: slot_ok_def)
  with c n show ?thesis by (auto simp: slot_ok_def)
qed

lemma tail_seq:
  assumes "aq_conc_inv (q, pcs, ins, outs)"
  shows "aq_seq q ! (aq_tail q mod aq_size q) \<le> Suc (aq_tail q)"
proof -
  have n: "2 \<le> aq_size q" using aq_conc_invD(1) [OF assms] by (simp add: aq_shape_def)
  obtain c where c: "slot_ok q pcs ins (aq_tail q mod aq_size q) c"
    using aq_conc_invD(2) [OF assms, of "aq_tail q mod aq_size q"] n by auto
  then have "\<not> (aq_tail q < c \<and> c < aq_tail q + aq_size q)" using mod_neq [of "aq_tail q" c "aq_size q"] by (auto simp: slot_ok_def)
  with c show ?thesis by (auto simp: slot_ok_def)
qed

lemma push_head_returns: "aq_seq q ! (aq_head q mod aq_size q) \<le> aq_head q \<Longrightarrow> push_run q (PushLoop v (aq_head q)) \<noteq> None"
  by (cases "aq_seq q ! (aq_head q mod aq_size q) = aq_head q") (simp_all add: push_run_unfold)

lemma pop_tail_returns: "aq_seq q ! (aq_tail q mod aq_size q) \<le> Suc (aq_tail q) \<Longrightarrow> pop_run q (PopLoop (aq_tail q)) \<noteq> None"
  by (cases "aq_seq q ! (aq_tail q mod aq_size q) = Suc (aq_tail q)") (simp_all add: pop_run_unfold)

fun push_pc :: "pc \<Rightarrow> bool" where
  "push_pc (PushLoop v i) = True"
| "push_pc (PushCas v i) = True"
| "push_pc (PushData v i) = True"
| "push_pc (PushSeq v i) = True"
| "push_pc p = False"

lemma quiescent_inv:
  assumes "aq_conc_inv (q, pcs, ins, outs)" "\<forall>k. pcs k = Idle"
  shows "aq_inv q \<and> aq_items q = drop (aq_tail q) ins \<and> length outs = aq_tail q"
proof -
  have sh: "2 \<le> aq_size q" "length (aq_seq q) = aq_size q" "length (aq_data q) = aq_size q" "aq_tail q \<le> aq_head q"
    "length ins = aq_head q" using aq_conc_invD(1) [OF assms(1)] by (simp_all add: aq_shape_def)
  have slot: "\<exists>c. slot_ok q pcs ins (i mod aq_size q) c" for i
    using aq_conc_invD(2) [OF assms(1), of "i mod aq_size q"] sh(1) by auto
  have full: "aq_head q \<le> aq_tail q + aq_size q"
  proof -
    obtain c where "slot_ok q pcs ins (aq_tail q mod aq_size q) c" using slot by blast
    then have "c \<le> aq_tail q" "aq_head q \<le> c + aq_size q"
      using mod_neq [of "aq_tail q" c "aq_size q"] by (auto simp: slot_ok_def linorder_not_less [symmetric])
    then show ?thesis by simp
  qed
  have at: "aq_seq q ! (i mod aq_size q) = (if i < aq_head q then Suc i else i) \<and>
      (i < aq_head q \<longrightarrow> aq_data q ! (i mod aq_size q) = ins ! i)" if i: "aq_tail q \<le> i" "i < aq_tail q + aq_size q" for i
  proof -
    obtain c where c: "slot_ok q pcs ins (i mod aq_size q) c" using slot by blast
    then have lo: "aq_tail q \<le> c" using assms(2) sh(4) by (auto simp: slot_ok_def)
    have "c < aq_tail q + aq_size q" "c mod aq_size q = i mod aq_size q" using c by (simp_all add: slot_ok_def)
    then have "c = i" using lo i mod_neq [of c i "aq_size q"] mod_neq [of i c "aq_size q"] by (cases c i rule: linorder_cases) auto
    with c assms(2) show ?thesis by (auto simp: slot_ok_def)
  qed
  have "aq_inv q" using sh full at by (auto simp: aq_inv_def)
  moreover have "aq_items q = drop (aq_tail q) ins"
    using sh full at by (intro nth_equalityI) (auto simp: aq_items_def)
  moreover have "length outs = aq_tail q"
  proof -
    have o: "distinct (map fst outs)" "fst ` set outs = {0..<aq_tail q}"
      using aq_conc_invD(5) [OF assms(1)] assms(2) by (auto simp: aq_outs_def)
    then show ?thesis using distinct_card [of "map fst outs"] by simp
  qed
  ultimately show ?thesis by blast
qed

lemma push_pc_returns:
  assumes "aq_conc_inv (q, pcs, ins, outs)" "push_pc (pcs k)"
  shows "push_run q (pcs k) \<noteq> None"
proof -
  have h: "push_run q (PushLoop v (aq_head q)) \<noteq> None" for v by (rule push_head_returns [OF head_seq [OF assms(1)]])
  show ?thesis using assms(2)
  proof (cases "pcs k")
    case (PushLoop v i)
    then show ?thesis using h [of v] by (subst push_run.simps) (auto simp: Let_def push_run_unfold(2-) split: if_splits)
  next
    case (PushCas v i)
    then show ?thesis using h [of v] by (subst push_run.simps) (auto simp: push_run_unfold(2-) split: if_splits)
  qed (simp_all add: push_run_unfold)
qed

lemma pop_pc_returns:
  assumes "aq_conc_inv (q, pcs, ins, outs)" "pop_pc (pcs k)"
  shows "pop_run q (pcs k) \<noteq> None"
proof -
  have h: "pop_run q (PopLoop (aq_tail q)) \<noteq> None" by (rule pop_tail_returns [OF tail_seq [OF assms(1)]])
  show ?thesis using assms(2)
  proof (cases "pcs k")
    case (PopLoop i)
    then show ?thesis using h by (subst pop_run.simps) (auto simp: Let_def pop_run_unfold(2-) split: if_splits)
  next
    case (PopCas i)
    then show ?thesis using h by (subst pop_run.simps) (auto simp: pop_run_unfold(2-) split: if_splits)
  qed (simp_all add: pop_run_unfold)
qed

subsection \<open>Schedules\<close>

text \<open>A schedule as a list of events; what a thread cannot do is skipped.\<close>

datatype event = EPush nat ptr | EPop nat | EStep nat | ERet nat

fun aq_event :: "nat set \<Rightarrow> event \<Rightarrow> aq_state \<Rightarrow> aq_state" where
  "aq_event C (EPush k v) (q, pcs, ins, outs) =
     (if pcs k = Idle \<and> v \<noteq> NULL then (q, pcs(k := PushLoop v (aq_head q)), ins, outs) else (q, pcs, ins, outs))"
| "aq_event C (EPop k) (q, pcs, ins, outs) =
     (if pcs k = Idle \<and> k \<in> C then (q, pcs(k := PopLoop (aq_tail q)), ins, outs) else (q, pcs, ins, outs))"
| "aq_event C (EStep k) (q, pcs, ins, outs) =
     (let r = thread_step q (pcs k) in (fst r, pcs(k := snd r), note_push q (pcs k) ins, note_pop (pcs k) outs))"
| "aq_event C (ERet k) (q, pcs, ins, outs) =
     (case pcs k of PushDone b \<Rightarrow> (q, pcs(k := Idle), ins, outs) | PopDone r \<Rightarrow> (q, pcs(k := Idle), ins, outs)
      | _ \<Rightarrow> (q, pcs, ins, outs))"

lemma aq_reach_event: "aq_reach C n st \<Longrightarrow> aq_reach C n (aq_event C e st)"
proof (cases st)
  case (fields q pcs ins outs)
  assume "aq_reach C n st"
  then have r: "aq_reach C n (q, pcs, ins, outs)" by (simp add: fields)
  show ?thesis
  proof (cases e)
    case (EPush k v)
    with r fields show ?thesis by (auto intro: aq_reach.push)
  next
    case (EPop k)
    with r fields show ?thesis by (auto intro: aq_reach.pop)
  next
    case (EStep k)
    have "thread_step q (pcs k) = (fst (thread_step q (pcs k)), snd (thread_step q (pcs k)))" by simp
    from aq_reach.step [OF r this] EStep fields show ?thesis by (simp add: Let_def)
  next
    case (ERet k)
    with r fields show ?thesis by (cases "pcs k") (auto intro: aq_reach.ret)
  qed
qed

lemma aq_reach_events: "aq_reach C n st \<Longrightarrow> aq_reach C n (fold (aq_event C) es st)"
  by (induction es arbitrary: st) (simp_all add: aq_reach_event)

subsection \<open>Properties\<close>

text \<open>
  C8: Whatever the threads do and however their steps interleave, on a queue of two or more entries a pop returns the value
  that was pushed under its ticket, no value is returned twice, and when one thread does all the pops, it gets
  the values in the order in which they were pushed.
\<close>

theorem atomic_queue_fifo:
  assumes "aq_reach C n (q, pcs, ins, outs)" "2 \<le> n"
  shows "distinct (map fst outs) \<and> (\<forall>(i, v) \<in> set outs. i < length ins \<and> v = ins ! i) \<and>
    (\<forall>c. C = {c} \<longrightarrow> map snd outs = take (length outs) ins)"
proof -
  have inv: "aq_conc_inv (q, pcs, ins, outs)" using aq_reach_inv [OF assms] by blast
  have outs: "distinct (map fst outs)" "\<And>i v. (i, v) \<in> set outs \<Longrightarrow> i < length ins \<and> v = ins ! i"
    using aq_conc_invD(1,5) [OF inv] by (fastforce simp: aq_outs_def aq_shape_def)+
  moreover have "map snd outs = take (length outs) ins" if "C = {c}" for c
  proof (rule nth_equalityI)
    have f: "map fst outs = [0..<length outs]" using single_consumer assms(1) that by blast
    have at: "fst (outs ! i) = i" if "i < length outs" for i using arg_cong [OF f, of "\<lambda>xs. xs ! i"] that by simp
    have nth: "i < length ins \<and> snd (outs ! i) = ins ! i" if "i < length outs" for i
    proof -
      have "(fst (outs ! i), snd (outs ! i)) \<in> set outs" using nth_mem [OF that] by simp
      from outs(2) [OF this] show ?thesis unfolding at [OF that] .
    qed
    have "length outs \<le> length ins" using nth [of "length outs - 1"] by (cases outs) auto
    then show "length (map snd outs) = length (take (length outs) ins)" by simp
    fix i assume "i < length (map snd outs)"
    then show "map snd outs ! i = take (length outs) ins ! i" using nth by simp
  qed
  ultimately show ?thesis by blast
qed

text \<open>Two threads push at the same time, the second gets the first ticket; thread 9 pops.\<close>

definition example_events :: "event list" where
  "example_events = [EPush 0 7, EStep 0, EPush 1 8, EStep 1, EStep 1, EStep 0, EStep 0, EStep 0, EStep 1, EStep 1, EStep 0, EStep 0,
     EStep 0, EPop 9, EStep 9, EStep 9, EStep 9, EStep 9, ERet 0, ERet 1, ERet 9]"

lemma example_run:
  "\<exists>q st. fr_atomic_queue_alloc 2 = Some q \<and> fold (aq_event {9}) example_events (q, \<lambda>k. Idle, [], []) = st \<and>
    (\<exists>q' pcs. st = (q', pcs, [8, 7], [(0, 8)]) \<and> (\<forall>k. pcs k = Idle)) \<and> aq_reach {9} 2 st"
proof -
  let ?q = "\<lparr>aq_size = 2, aq_head = 0, aq_tail = 0, aq_seq = [0, 1], aq_data = [NULL, NULL]\<rparr>"
  have a: "fr_atomic_queue_alloc 2 = Some ?q" by (simp add: fr_atomic_queue_alloc_def numeral_2_eq_2)
  have "\<exists>q' pcs. fold (aq_event {9}) example_events (?q, \<lambda>k. Idle, [], []) = (q', pcs, [8, 7], [(0, 8)]) \<and> (\<forall>k. pcs k = Idle)"
    by (simp add: example_events_def Let_def)
  with a show ?thesis using aq_reach_events [OF aq_reach.alloc [OF a], of "{9}" example_events] by blast
qed

theorem atomic_queue_fifo_witness:
  "\<exists>q pcs. aq_reach {9} 2 (q, pcs, [8, 7], [(0, 8)]) \<and> map snd [(0 :: nat, 8 :: ptr)] = take 1 [8, 7]"
proof -
  obtain q pcs where r: "aq_reach {9} 2 (q, pcs, [8, 7], [(0, 8)])" using example_run by metis
  with atomic_queue_fifo [OF r] show ?thesis by auto
qed

text \<open>
  C17: Once all threads have returned, however they interleaved before, the queue is a bounded queue that holds the
  values pushed and not yet popped, in the order of the pushes: a push fails only when it holds \<open>size\<close> values, and a pop
  only when it holds none.
\<close>

theorem atomic_queue_quiescent:
  assumes "aq_reach C n (q, pcs, ins, outs)" "2 \<le> n" "\<forall>k. pcs k = Idle" "v \<noteq> NULL"
  shows "(if length ins - length outs < n
      then \<exists>q'. fr_atomic_queue_push q v = Some (True, q') \<and> aq_items q' = drop (length outs) ins @ [v]
      else fr_atomic_queue_push q v = Some (False, q)) \<and>
    (case drop (length outs) ins of
       [] \<Rightarrow> fr_atomic_queue_pop q = Some (None, q)
     | x # xs \<Rightarrow> \<exists>q'. fr_atomic_queue_pop q = Some (Some x, q') \<and> aq_items q' = xs)"
proof -
  have inv: "aq_conc_inv (q, pcs, ins, outs)" "aq_size q = n" using aq_reach_inv [OF assms(1,2)] by simp_all
  have q: "aq_inv q" "aq_items q = drop (length outs) ins" using quiescent_inv [OF inv(1) assms(3)] by simp_all
  show ?thesis
    using aq_push_ok [OF q(1) assms(4)] aq_push_full [OF q(1), of v] aq_pop_empty [OF q(1)] aq_pop_ok [OF q(1)]
    unfolding q(2) inv(2) by (fastforce split: list.splits)
qed

theorem atomic_queue_quiescent_witness:
  "\<exists>q q'. fr_atomic_queue_pop q = Some (Some 7, q') \<and> aq_items q' = []"
proof -
  obtain q pcs where r: "aq_reach {9} 2 (q, pcs, [8, 7], [(0, 8)])" "\<forall>k. pcs k = Idle" using example_run by metis
  from atomic_queue_quiescent [OF r(1) _ r(2), of 1] show ?thesis by auto
qed

text \<open>
  C18: A thread inside a push or a pop that the others do not disturb any more returns, wherever it and they have
  stopped, on a queue of two or more entries.
\<close>

theorem atomic_queue_returns:
  assumes "aq_reach C n (q, pcs, ins, outs)" "2 \<le> n"
  shows "(push_pc (pcs k) \<longrightarrow> push_run q (pcs k) \<noteq> None) \<and> (pop_pc (pcs k) \<longrightarrow> pop_run q (pcs k) \<noteq> None)"
  using aq_reach_inv [OF assms] push_pc_returns pop_pc_returns by auto

theorem atomic_queue_returns_witness:
  "\<exists>q pcs. aq_reach {9} 2 (q, pcs, [], []) \<and> pcs 0 = PushLoop 7 0 \<and> push_run q (pcs 0) \<noteq> None"
proof -
  obtain q where a: "fr_atomic_queue_alloc 2 = Some q" "aq_head q = 0" by (simp add: fr_atomic_queue_alloc_def)
  have r: "aq_reach {9} 2 (q, (\<lambda>k. Idle)(0 := PushLoop 7 (aq_head q)), [], [])"
    by (rule aq_reach.push [OF aq_reach.alloc [OF a(1)]]) simp_all
  have "push_run q (PushLoop 7 (aq_head q)) \<noteq> None" using atomic_queue_returns [OF r, of 0] by simp
  with r a(2) show ?thesis by (intro exI [of _ q] exI [of _ "(\<lambda>k. Idle)(0 := PushLoop 7 (aq_head q))"]) simp
qed

text \<open>
  A queue with one entry accepts a second value before the first is popped, and a pop after that never returns: the
  sequence number of a filled entry is the one of an empty entry of the next round.
\<close>

theorem atomic_queue_one_entry:
  "\<exists>q q' q''. fr_atomic_queue_alloc 1 = Some q \<and> fr_atomic_queue_push q (Suc a) = Some (True, q') \<and>
    fr_atomic_queue_push q' (Suc b) = Some (True, q'') \<and> fr_atomic_queue_pop q'' = None"
proof -
  let ?q = "\<lparr>aq_size = 1, aq_head = 0, aq_tail = 0, aq_seq = [0], aq_data = [NULL]\<rparr>"
  let ?q' = "\<lparr>aq_size = 1, aq_head = 1, aq_tail = 0, aq_seq = [1], aq_data = [Suc a]\<rparr>"
  let ?q'' = "\<lparr>aq_size = 1, aq_head = 2, aq_tail = 0, aq_seq = [2], aq_data = [Suc b]\<rparr>"
  have "fr_atomic_queue_alloc 1 = Some ?q" by (simp add: fr_atomic_queue_alloc_def)
  moreover have "fr_atomic_queue_push ?q (Suc a) = Some (True, ?q')" by (simp add: fr_atomic_queue_push_def push_run_unfold)
  moreover have "fr_atomic_queue_push ?q' (Suc b) = Some (True, ?q'')"
    by (simp add: fr_atomic_queue_push_def push_run_unfold numeral_2_eq_2)
  moreover have "pop_run ?q'' (PopLoop 0) = Some y \<Longrightarrow> False" for y
    by (drule pop_run.raw_induct [where P = "\<lambda>q p y. q = ?q'' \<and> p = PopLoop 0 \<longrightarrow> False", rotated]) (fastforce simp: Let_def)+
  then have "pop_run ?q'' (PopLoop 0) = None" by (cases "pop_run ?q'' (PopLoop 0)") blast+
  then have "fr_atomic_queue_pop ?q'' = None" by (simp add: fr_atomic_queue_pop_def)
  ultimately show ?thesis by blast
qed

end
