(* ===== verification/Control.thy ===== *)
theory Control
  imports Ring_Buffer Atomic_Queue
begin

text \<open>
  The control plane of \<open>src/lib/io/control.c\<close>: a thread allocates a message in its ring buffer, pushes a
  pointer to it into the atomic queue of the receiver, and the receiver pops it, copies the data out and
  marks the message as done, after which the sender's garbage collection frees it.  This composes
  \<open>Ring_Buffer\<close> and \<open>Atomic_Queue\<close>.

  The memory of the ring buffer maps an offset to the message that starts there; writing a message destroys
  every message it overlaps.  The address of offset \<open>p\<close> is \<open>Suc p\<close>, which is not \<open>NULL\<close>.  The operations of sender
  and receiver are atomic here; \<open>Atomic_Queue\<close> has their interleaving.
\<close>

datatype fr_control_message_status = FR_CONTROL_MESSAGE_FREE | FR_CONTROL_MESSAGE_USED | FR_CONTROL_MESSAGE_DONE

record fr_control_message =
  m_status :: fr_control_message_status
  m_id :: nat
  m_data_size :: nat
  m_data :: bytes

type_synonym ctl_mem = "nat \<Rightarrow> fr_control_message option"

subsection \<open>Operations\<close>

text \<open>The header takes 16 bytes: an \<open>enum\<close>, an \<open>uint32_t\<close> and a \<open>size_t\<close>.\<close>

definition message_size :: "nat \<Rightarrow> nat" where
  "message_size data_size = (16 + data_size + 63) div 64 * 64"

definition mem_put :: "ctl_mem \<Rightarrow> nat \<Rightarrow> fr_control_message \<Rightarrow> ctl_mem" where
  "mem_put mem p m = (\<lambda>q. if q = p then Some m else
     (case mem q of None \<Rightarrow> None
      | Some m' \<Rightarrow> if apart (p, message_size (m_data_size m)) (q, message_size (m_data_size m')) then Some m' else None))"

text \<open>\<open>None\<close>: the loop does not end, or it reads something that is not a message.\<close>

partial_function (option) fr_control_gc_loop :: "fr_ring_buffer \<Rightarrow> ctl_mem \<Rightarrow> (fr_ring_buffer \<times> ctl_mem) option" where
  "fr_control_gc_loop rb mem =
     (case fr_ring_buffer_start rb of (p, room) \<Rightarrow>
      if room = 0 then Some (rb, mem)
      else case mem p of
        None \<Rightarrow> None
      | Some m \<Rightarrow>
          if m_status m \<noteq> FR_CONTROL_MESSAGE_DONE then Some (rb, mem)
          else
            (case snd (fr_ring_buffer_free rb (message_size (m_data_size m))) of
               None \<Rightarrow> None
             | Some rb' \<Rightarrow> fr_control_gc_loop rb' (mem(p := Some (m\<lparr>m_status := FR_CONTROL_MESSAGE_FREE\<rparr>)))))"

definition fr_control_gc :: "fr_ring_buffer \<Rightarrow> ctl_mem \<Rightarrow> (int \<times> fr_ring_buffer \<times> ctl_mem) option" where
  "fr_control_gc rb mem =
     (case fr_control_gc_loop rb mem of None \<Rightarrow> None
      | Some (rb', mem') \<Rightarrow> Some (if fr_ring_buffer_used rb' > 0 then -1 else 0, rb', mem'))"

definition fill_message :: "ctl_mem \<Rightarrow> nat \<Rightarrow> nat \<Rightarrow> bytes \<Rightarrow> ctl_mem" where
  "fill_message mem p ident data =
     mem_put mem p \<lparr>m_status = FR_CONTROL_MESSAGE_USED, m_id = ident, m_data_size = length data, m_data = data\<rparr>"

definition fr_control_message_alloc ::
  "fr_ring_buffer \<Rightarrow> ctl_mem \<Rightarrow> nat \<Rightarrow> bytes \<Rightarrow> (nat option \<times> fr_ring_buffer \<times> ctl_mem) option" where
  "fr_control_message_alloc rb mem ident data =
     (case fr_ring_buffer_alloc rb (message_size (length data)) of
        (Some p, rb1) \<Rightarrow> Some (Some p, rb1, fill_message mem p ident data)
      | (None, rb1) \<Rightarrow>
          (case fr_control_gc rb1 mem of
             None \<Rightarrow> None
           | Some (_, rb2, mem2) \<Rightarrow>
               (case fr_ring_buffer_alloc rb2 (message_size (length data)) of
                  (Some p, rb3) \<Rightarrow> Some (Some p, rb3, fill_message mem2 p ident data)
                | (None, rb3) \<Rightarrow> Some (None, rb3, mem2))))"

text \<open>The end of \<open>fr_control_message_push\<close>: the message at \<open>p\<close> goes into the queue, or is done.\<close>

definition push_message ::
  "fr_atomic_queue \<Rightarrow> fr_ring_buffer \<Rightarrow> ctl_mem \<Rightarrow> nat \<Rightarrow> (int \<times> fr_atomic_queue \<times> fr_ring_buffer \<times> ctl_mem) option" where
  "push_message q rb mem p =
     (case fr_atomic_queue_push q (Suc p) of
        None \<Rightarrow> None
      | Some (True, q') \<Rightarrow> Some (0, q', rb, mem)
      | Some (False, q') \<Rightarrow>
          Some (-1, q', rb, mem(p := map_option (\<lambda>m. m\<lparr>m_status := FR_CONTROL_MESSAGE_DONE\<rparr>) (mem p))))"

definition fr_control_message_push ::
  "fr_atomic_queue \<Rightarrow> fr_ring_buffer \<Rightarrow> ctl_mem \<Rightarrow> nat \<Rightarrow> bytes \<Rightarrow>
    (int \<times> fr_atomic_queue \<times> fr_ring_buffer \<times> ctl_mem) option" where
  "fr_control_message_push q rb mem ident data =
     (case fr_control_message_alloc rb mem ident data of
        None \<Rightarrow> None
      | Some (Some p, rb1, mem1) \<Rightarrow> push_message q rb1 mem1 p
      | Some (None, rb1, mem1) \<Rightarrow>
          (case fr_control_gc rb1 mem1 of
             None \<Rightarrow> None
           | Some (_, rb2, mem2) \<Rightarrow>
               (case fr_control_message_alloc rb2 mem2 ident data of
                  None \<Rightarrow> None
                | Some (Some p, rb3, mem3) \<Rightarrow> push_message q rb3 mem3 p
                | Some (None, rb3, mem3) \<Rightarrow> Some (-2, q, rb3, mem3))))"

text \<open>The return value, and the identifier and the data that are written through the pointers.\<close>

definition fr_control_message_pop ::
  "fr_atomic_queue \<Rightarrow> ctl_mem \<Rightarrow> nat \<Rightarrow> (int \<times> (nat \<times> bytes) option \<times> fr_atomic_queue \<times> ctl_mem) option" where
  "fr_control_message_pop q mem data_size =
     (case fr_atomic_queue_pop q of
        None \<Rightarrow> None
      | Some (None, q') \<Rightarrow> Some (0, None, q', mem)
      | Some (Some a, q') \<Rightarrow>
          (case mem (a - 1) of
             None \<Rightarrow> None
           | Some m \<Rightarrow>
               if data_size < m_data_size m then Some (- int (m_data_size m), None, q', mem)
               else Some (int (m_data_size m), Some (m_id m, m_data m), q',
                          mem(a - 1 := Some (m\<lparr>m_status := FR_CONTROL_MESSAGE_DONE\<rparr>)))))"

text \<open>
  The loop of \<open>pipe_read\<close> over the bytes that it has read: the calls of the callbacks, with the identifier, the size
  as the \<open>size_t\<close> that the code converts it to, and the data.  \<open>registered\<close> are the identifiers that have a callback.
  After a failed pop, the identifier is 0 and the data is what the buffer held.
\<close>

fun pipe_read :: "(nat \<Rightarrow> bool) \<Rightarrow> nat \<Rightarrow> bytes \<Rightarrow> fr_atomic_queue \<Rightarrow> ctl_mem \<Rightarrow>
    ((nat \<times> nat \<times> bytes) list \<times> fr_atomic_queue \<times> ctl_mem) option" where
  "pipe_read registered 0 buf q mem = Some ([], q, mem)"
| "pipe_read registered (Suc num) buf q mem =
     (case fr_control_message_pop q mem 256 of
        None \<Rightarrow> None
      | Some (ret, out, q', mem') \<Rightarrow>
          let message_size = nat (ret mod 2 ^ 64);
              ident = (case out of None \<Rightarrow> 0 | Some (ident, d) \<Rightarrow> ident);
              buf' = (case out of None \<Rightarrow> buf | Some (ident, d) \<Rightarrow> d @ drop (length d) buf)
          in if message_size = 0 then Some ([], q', mem')
             else
               (case pipe_read registered num buf' q' mem' of
                  None \<Rightarrow> None
                | Some (calls, q'', mem'') \<Rightarrow>
                    Some (if ident \<ge> 32 \<or> \<not> registered ident then calls else (ident, message_size, take message_size buf') # calls, q'', mem'')))"

text \<open>
  The callbacks: for each of the 32 types its identifier, its context and the callback.
\<close>

record fr_control =
  same_thread :: bool
  ctl_type :: "(nat \<times> ptr \<times> ptr) list"

definition fr_control_create :: fr_control where
  "fr_control_create = \<lparr>same_thread = False, ctl_type = replicate 32 (0, NULL, NULL)\<rparr>"

definition has_callback :: "fr_control \<Rightarrow> nat \<Rightarrow> bool" where
  "has_callback c ident \<longleftrightarrow> snd (snd (ctl_type c ! ident)) \<noteq> NULL"

definition fr_control_callback_add :: "fr_control \<Rightarrow> nat \<Rightarrow> ptr \<Rightarrow> ptr \<Rightarrow> int \<times> fr_control" where
  "fr_control_callback_add c ident ctx callback =
     (if ident \<ge> 32 then (-1, c)
      else if snd (ctl_type c ! ident) = (ctx, callback) then (0, c)
      else if has_callback c ident then (-1, c)
      else (0, c\<lparr>ctl_type := (ctl_type c)[ident := (ident, ctx, callback)]\<rparr>))"

definition fr_control_callback_delete :: "fr_control \<Rightarrow> nat \<Rightarrow> int \<times> fr_control" where
  "fr_control_callback_delete c ident =
     (if ident \<ge> 32 then (-1, c)
      else if \<not> has_callback c ident then (0, c)
      else (0, c\<lparr>ctl_type := (ctl_type c)[ident := (0, NULL, NULL)]\<rparr>))"

definition fr_control_same_thread :: "fr_control \<Rightarrow> int \<times> fr_control" where
  "fr_control_same_thread c = (0, c\<lparr>same_thread := True\<rparr>)"

text \<open>
  The return value, the calls made at once, the number of bytes in the pipe and the rest of the state.  \<open>written\<close> tells whether
  the pipe took the byte.  \<open>None\<close> also stands for reading outside of the array of types: with both ends in the same thread, the
  identifier is not checked.
\<close>

definition fr_control_message_send ::
  "fr_control \<Rightarrow> bool \<Rightarrow> nat \<Rightarrow> fr_atomic_queue \<Rightarrow> fr_ring_buffer \<Rightarrow> ctl_mem \<Rightarrow> nat \<Rightarrow> bytes \<Rightarrow>
    (int \<times> (nat \<times> nat \<times> bytes) list \<times> nat \<times> fr_atomic_queue \<times> fr_ring_buffer \<times> ctl_mem) option" where
  "fr_control_message_send c written pipe q rb mem ident data =
     (if same_thread c then
        if ident \<ge> length (ctl_type c) then None
        else if \<not> has_callback c ident then Some (-1, [], pipe, q, rb, mem)
        else Some (0, [(ident, length data, data)], pipe, q, rb, mem)
      else
        (case fr_control_message_push q rb mem ident data of
           None \<Rightarrow> None
         | Some (r, q', rb', mem') \<Rightarrow>
             if r < 0 then Some (-1, [], pipe, q', rb', mem')
             else Some (0, [], if written then Suc pipe else pipe, q', rb', mem')))"

subsection \<open>The callbacks\<close>

lemma callback_types:
  assumes "length (ctl_type c) = 32"
  shows "length (ctl_type (snd (fr_control_callback_add c ident ctx callback))) = 32"
    "length (ctl_type (snd (fr_control_callback_delete c ident))) = 32"
  using assms by (simp_all add: fr_control_callback_add_def fr_control_callback_delete_def)

lemma callback_add:
  assumes "length (ctl_type c) = 32" "fr_control_callback_add c ident ctx callback = (0, c')"
  shows "ident < 32 \<and> snd (ctl_type c' ! ident) = (ctx, callback) \<and> (\<forall>k. k \<noteq> ident \<longrightarrow> ctl_type c' ! k = ctl_type c ! k)"
  using assms by (auto simp: fr_control_callback_add_def split: if_splits)

text \<open>A has_callback callback is neither replaced nor lost.\<close>

lemma callback_add_kept:
  assumes "has_callback c ident" "fr_control_callback_add c k ctx callback = (r, c')"
  shows "ctl_type c' ! ident = ctl_type c ! ident"
  using assms by (cases "k = ident") (auto simp: fr_control_callback_add_def split: if_splits)

lemma callback_delete:
  assumes "length (ctl_type c) = 32" "fr_control_callback_delete c ident = (0, c')"
  shows "ident < 32 \<and> \<not> has_callback c' ident \<and> (\<forall>k. k \<noteq> ident \<longrightarrow> ctl_type c' ! k = ctl_type c ! k)"
  using assms by (auto simp: fr_control_callback_delete_def has_callback_def split: if_splits)

subsection \<open>The invariant\<close>

text \<open>
  The messages that are in the ring buffer, oldest first: where each starts, what it is, and whether its address is in the
  queue.
\<close>

type_synonym entry = "nat \<times> fr_control_message \<times> bool"

definition block_of :: "entry \<Rightarrow> nat \<times> nat" where
  "block_of e = (fst e, message_size (m_data_size (fst (snd e))))"

abbreviation msg :: "entry \<Rightarrow> fr_control_message" where
  "msg e \<equiv> fst (snd e)"

abbreviation queued :: "entry \<Rightarrow> bool" where
  "queued e \<equiv> snd (snd e)"

text \<open>\<open>fr_control_message_alloc\<close> never leaves the write offset at 0 after wrapping around, as a reservation does.\<close>

definition rb_ok :: "fr_ring_buffer \<Rightarrow> ctl_mem \<Rightarrow> entry list \<Rightarrow> bool" where
  "rb_ok rb mem es \<longleftrightarrow> rb_inv rb \<and> \<not> rb_closed rb \<and> 1024 \<le> rb_size rb \<and> live rb (map block_of es) \<and>
     (write_offset rb < data_start rb \<longrightarrow> 0 < write_offset rb) \<and> (\<forall>e \<in> set es. mem (fst e) = Some (msg e))"

definition ctl_ok :: "fr_atomic_queue \<Rightarrow> fr_ring_buffer \<Rightarrow> ctl_mem \<Rightarrow> entry list \<Rightarrow> bool" where
  "ctl_ok q rb mem es \<longleftrightarrow> aq_inv q \<and> rb_ok rb mem es \<and>
     aq_items q = map (\<lambda>e. Suc (fst e)) (filter queued es) \<and>
     (\<forall>e \<in> set es. m_data_size (msg e) = length (m_data (msg e)) \<and> m_status (msg e) = (if queued e then FR_CONTROL_MESSAGE_USED else FR_CONTROL_MESSAGE_DONE))"

lemma message_size_pos: "0 < message_size n"
  by (simp add: message_size_def div_greater_zero_iff)

lemma message_size_small: "n \<le> 2 ^ 62 \<Longrightarrow> message_size n < 2 ^ 63"
  unfolding message_size_def by simp

lemma alloc_nz:
  assumes "rb_inv rb" "0 < n" "n < 2 ^ 63" "write_offset rb < data_start rb \<longrightarrow> 0 < write_offset rb"
    "fr_ring_buffer_alloc rb n = (r, rb')"
  shows "write_offset rb' < data_start rb' \<longrightarrow> 0 < write_offset rb'"
  using alloc_eq [OF assms(1,3)] assms(2,4,5) by (auto split: if_splits)

lemma free_nz:
  assumes "rb_inv rb" "write_offset rb < data_start rb \<longrightarrow> 0 < write_offset rb" "fr_ring_buffer_free rb n = (r, Some rb')"
  shows "write_offset rb' < data_start rb' \<longrightarrow> 0 < write_offset rb'"
  using assms by (auto simp: rb_inv_def fr_ring_buffer_free_def free_block_def empty_buffer_def Let_def split: if_splits)

lemma start_first:
  assumes "rb_ok rb mem es"
  shows "case es of [] \<Rightarrow> snd (fr_ring_buffer_start rb) = 0
    | e # es' \<Rightarrow> fst (fr_ring_buffer_start rb) = fst e \<and> snd (fr_ring_buffer_start rb) \<noteq> 0"
proof (cases es)
  case Nil
  with assms show ?thesis by (auto simp: rb_ok_def live_def rb_inv_def fr_ring_buffer_start_def split: if_splits)
next
  case (Cons e es')
  show ?thesis
  proof (cases "write_offset rb < data_start rb")
    case True
    then obtain xs ys where "map block_of es = xs @ ys" "contig (data_start rb) xs (data_end rb)" "data_start rb < data_end rb"
      using assms by (auto simp: rb_ok_def live_def rb_inv_def)
    with Cons True assms show ?thesis by (cases xs) (auto simp: rb_ok_def block_of_def fr_ring_buffer_start_def)
  next
    case False
    then have c: "contig (data_start rb) (map block_of es) (data_end rb)" using assms by (simp add: rb_ok_def live_def)
    with Cons have "data_start rb < data_end rb" by (intro contig_less) auto
    with c Cons False show ?thesis by (auto simp: block_of_def fr_ring_buffer_start_def)
  qed
qed

lemma block_starts_distinct:
  assumes "rb_inv rb" "live rb (map block_of es)"
  shows "distinct (map fst es)"
proof -
  have "sorted_wrt apart (map block_of es)" "\<forall>(p, n) \<in> set (map block_of es). 0 < n" using live_apart [OF assms] by auto
  then show ?thesis
  proof (induction es)
    case (Cons e es)
    have "fst e \<noteq> fst e'" if "e' \<in> set es" for e'
      using Cons.prems that message_size_pos by (fastforce simp: apart_def block_of_def)
    with Cons show ?case by auto
  qed simp
qed

subsection \<open>Garbage collection\<close>

abbreviation msg_done :: "entry \<Rightarrow> bool" where
  "msg_done e \<equiv> m_status (msg e) = FR_CONTROL_MESSAGE_DONE"

lemma gc_loop:
  assumes "rb_ok rb mem es"
  shows "\<exists>rb' mem'. fr_control_gc_loop rb mem = Some (rb', mem') \<and> rb_ok rb' mem' (dropWhile msg_done es)"
  using assms
proof (induction es arbitrary: rb mem)
  case Nil
  then have "snd (fr_ring_buffer_start rb) = 0" using start_first by fastforce
  then have "fr_control_gc_loop rb mem = Some (rb, mem)" by (subst fr_control_gc_loop.simps) (simp add: case_prod_beta)
  with Nil show ?case by simp
next
  case (Cons e es)
  let ?m = "msg e" and ?p = "fst e"
  have st: "fst (fr_ring_buffer_start rb) = ?p" "snd (fr_ring_buffer_start rb) \<noteq> 0" using start_first [OF Cons.prems] by simp_all
  have m: "mem ?p = Some ?m" using Cons.prems by (simp add: rb_ok_def)
  show ?case
  proof (cases "msg_done e")
    case False
    then have "fr_control_gc_loop rb mem = Some (rb, mem)"
      by (subst fr_control_gc_loop.simps) (simp add: case_prod_beta st m)
    with Cons.prems False show ?thesis by simp
  next
    case True
    obtain r rb1 where f: "fr_ring_buffer_free rb (message_size (m_data_size ?m)) = (r, rb1)"
      by (cases "fr_ring_buffer_free rb (message_size (m_data_size ?m))")
    have ok: "rb_inv rb" "\<not> rb_closed rb" "live rb ((?p, message_size (m_data_size ?m)) # map block_of es)"
      using Cons.prems by (auto simp: rb_ok_def block_of_def)
    obtain rb2 where rb2: "rb1 = Some rb2" "rb_inv rb2" "live rb2 (map block_of es)" "\<not> rb_closed rb2" "rb_size rb2 = rb_size rb"
      using free_live [OF ok(1,3) f] ok(2) by (auto split: if_splits)
    let ?mem = "mem(?p := Some (?m\<lparr>m_status := FR_CONTROL_MESSAGE_FREE\<rparr>))"
    have "distinct (map fst (e # es))" by (rule block_starts_distinct [of rb]) (use Cons.prems in \<open>auto simp: rb_ok_def\<close>)
    then have "fst e \<notin> fst ` set es" by simp
    then have "fst e' \<noteq> fst e" if "e' \<in> set es" for e' using that by (metis imageI)
    moreover have "mem (fst e') = Some (msg e')" if "e' \<in> set es" for e' using Cons.prems that by (simp add: rb_ok_def)
    ultimately have "\<forall>e' \<in> set es. ?mem (fst e') = Some (msg e')" by simp
    moreover have "write_offset rb2 < data_start rb2 \<longrightarrow> 0 < write_offset rb2"
      by (rule free_nz [OF ok(1)]) (use Cons.prems f rb2(1) in \<open>auto simp: rb_ok_def\<close>)
    moreover have "1024 \<le> rb_size rb" using Cons.prems by (simp add: rb_ok_def)
    ultimately have "rb_ok rb2 ?mem es" using rb2 by (simp add: rb_ok_def)
    moreover have "fr_control_gc_loop rb mem = fr_control_gc_loop rb2 ?mem"
      by (subst fr_control_gc_loop.simps) (simp add: case_prod_beta st m True f rb2(1))
    ultimately show ?thesis using Cons.IH True by simp
  qed
qed

lemma gc:
  assumes "rb_ok rb mem es"
  shows "\<exists>r rb' mem'. fr_control_gc rb mem = Some (r, rb', mem') \<and> rb_ok rb' mem' (dropWhile msg_done es)"
  using gc_loop [OF assms] by (auto simp: fr_control_gc_def)

subsection \<open>Sending\<close>

lemma fill_message:
  assumes "rb_ok rb mem es" "fr_ring_buffer_alloc rb (message_size (length data)) = (Some p, rb')" "length data \<le> 2 ^ 62"
    "m = \<lparr>m_status = FR_CONTROL_MESSAGE_USED, m_id = ident, m_data_size = length data, m_data = data\<rparr>"
  shows "rb_ok rb' (fill_message mem p ident data) (es @ [(p, m, b)])"
proof -
  have ok: "rb_inv rb" "live rb (map block_of es)" using assms(1) by (simp_all add: rb_ok_def)
  have al: "rb_inv rb'" "live rb' (map block_of es @ [(p, message_size (length data))])" "rb_closed rb' = rb_closed rb"
      "rb_size rb' = rb_size rb"
    using alloc_live [OF ok message_size_pos message_size_small [OF assms(3)] assms(2)] by simp_all
  have "write_offset rb' < data_start rb' \<longrightarrow> 0 < write_offset rb'"
    by (rule alloc_nz [OF ok(1) message_size_pos message_size_small [OF assms(3)] _ assms(2)])
      (use assms(1) in \<open>simp add: rb_ok_def\<close>)
  moreover have "fill_message mem p ident data (fst e) = Some (msg e)" if "e \<in> set es" for e
  proof -
    have "apart (block_of e) (p, message_size (length data))" "0 < snd (block_of e)"
      using live_apart [OF al(1,2)] that by (auto simp: sorted_wrt_append block_of_def)
    then have "fst e \<noteq> p" "apart (p, message_size (length data)) (fst e, message_size (m_data_size (msg e)))"
      using message_size_pos [of "length data"] by (auto simp: apart_def block_of_def)
    moreover have "mem (fst e) = Some (msg e)" using assms(1) that by (simp add: rb_ok_def)
    ultimately show ?thesis by (simp add: fill_message_def mem_put_def)
  qed
  moreover have "fill_message mem p ident data p = Some m" by (simp add: fill_message_def mem_put_def assms(4))
  ultimately show ?thesis using al assms(1,4) by (auto simp: rb_ok_def block_of_def)
qed

lemma rb_ok_alloc_none:
  assumes "rb_ok rb mem es" "n < 2 ^ 63" "0 < n" "fr_ring_buffer_alloc rb n = (None, rb')"
  shows "rb_ok rb' mem es"
  using alloc_live [of rb "map block_of es" n None rb'] alloc_nz [of rb n None rb'] assms by (auto simp: rb_ok_def)

text \<open>Messages that are done may be gone afterwards; the others are kept.\<close>

lemma message_alloc:
  assumes "rb_ok rb mem es" "length data \<le> 2 ^ 62"
    "m = \<lparr>m_status = FR_CONTROL_MESSAGE_USED, m_id = ident, m_data_size = length data, m_data = data\<rparr>"
  shows "\<exists>r rb' mem' es'. fr_control_message_alloc rb mem ident data = Some (r, rb', mem') \<and>
    (es' = es \<or> es' = dropWhile msg_done es) \<and>
    (case r of None \<Rightarrow> rb_ok rb' mem' es' | Some p \<Rightarrow> \<forall>b. rb_ok rb' mem' (es' @ [(p, m, b)]))"
proof -
  let ?n = "message_size (length data)"
  have n: "0 < ?n" "?n < 2 ^ 63" using message_size_pos message_size_small [OF assms(2)] by simp_all
  obtain r rb1 where a: "fr_ring_buffer_alloc rb ?n = (r, rb1)" by (cases "fr_ring_buffer_alloc rb ?n")
  show ?thesis
  proof (cases r)
    case (Some p)
    then have "fr_control_message_alloc rb mem ident data = Some (Some p, rb1, fill_message mem p ident data)"
      using a by (simp add: fr_control_message_alloc_def)
    then show ?thesis using fill_message [OF assms(1) a [unfolded Some] assms(2,3)]
      by (intro exI [of _ "Some p"] exI [of _ rb1] exI [of _ "fill_message mem p ident data"] exI [of _ es]) simp
  next
    case None
    have ok1: "rb_ok rb1 mem es" using rb_ok_alloc_none [OF assms(1) n(2,1)] a None by simp
    obtain x rb2 mem2 where g: "fr_control_gc rb1 mem = Some (x, rb2, mem2)" "rb_ok rb2 mem2 (dropWhile msg_done es)"
      using gc [OF ok1] by blast
    obtain r2 rb3 where a2: "fr_ring_buffer_alloc rb2 ?n = (r2, rb3)" by (cases "fr_ring_buffer_alloc rb2 ?n")
    show ?thesis
    proof (cases r2)
      case (Some p)
      then have "fr_control_message_alloc rb mem ident data = Some (Some p, rb3, fill_message mem2 p ident data)"
        using a a2 None g by (simp add: fr_control_message_alloc_def)
      then show ?thesis using fill_message [OF g(2) a2 [unfolded Some] assms(2,3)]
        by (intro exI [of _ "Some p"] exI [of _ rb3] exI [of _ "fill_message mem2 p ident data"] exI [of _ "dropWhile msg_done es"]) simp
    next
      case none2: None
      then have "fr_control_message_alloc rb mem ident data = Some (None, rb3, mem2)"
        using a a2 None g by (simp add: fr_control_message_alloc_def)
      then show ?thesis using rb_ok_alloc_none [OF g(2) n(2,1)] a2 none2
        by (intro exI [of _ None] exI [of _ rb3] exI [of _ mem2] exI [of _ "dropWhile msg_done es"]) simp
    qed
  qed
qed

lemma queued_dropWhile:
  assumes "\<forall>e \<in> set es. queued e \<longrightarrow> m_status (msg e) = FR_CONTROL_MESSAGE_USED"
  shows "filter queued (dropWhile msg_done es) = filter queued es"
  using assms by (induction es) auto

definition content :: "entry list \<Rightarrow> (nat \<times> bytes) list" where
  "content es = map (\<lambda>e. (m_id (msg e), m_data (msg e))) (filter queued es)"

definition entries_ok :: "entry list \<Rightarrow> bool" where
  "entries_ok es \<longleftrightarrow> (\<forall>e \<in> set es. m_data_size (msg e) = length (m_data (msg e)) \<and>
     m_status (msg e) = (if queued e then FR_CONTROL_MESSAGE_USED else FR_CONTROL_MESSAGE_DONE))"

lemma ctl_ok_eq:
  "ctl_ok q rb mem es \<longleftrightarrow> aq_inv q \<and> rb_ok rb mem es \<and> aq_items q = map (\<lambda>e. Suc (fst e)) (filter queued es) \<and> entries_ok es"
  by (simp add: ctl_ok_def entries_ok_def)

text \<open>Changing the status of one message leaves the rest as it is.\<close>

lemma rb_ok_status:
  assumes "rb_ok rb mem (xs @ (p, m, b) # ys)"
  shows "rb_ok rb (mem(p := Some (m\<lparr>m_status := st\<rparr>))) (xs @ (p, m\<lparr>m_status := st\<rparr>, b') # ys)"
proof -
  have "distinct (map fst (xs @ (p, m, b) # ys))" by (rule block_starts_distinct [of rb]) (use assms in \<open>auto simp: rb_ok_def\<close>)
  then have "p \<notin> fst ` (set xs \<union> set ys)" by auto
  then have "fst e \<noteq> p" if "e \<in> set xs \<union> set ys" for e using that by (metis imageI)
  with assms show ?thesis by (auto simp: rb_ok_def block_of_def)
qed

lemma push_message_ok:
  assumes "aq_inv q" "aq_items q = map (\<lambda>e. Suc (fst e)) (filter queued es)" "entries_ok es"
    "\<forall>b. rb_ok rb mem (es @ [(p, m, b)])" "m_status m = FR_CONTROL_MESSAGE_USED" "m_data_size m = length (m_data m)"
  shows "\<exists>r q' mem' es'. push_message q rb mem p = Some (r, q', rb, mem') \<and> ctl_ok q' rb mem' es' \<and>
    content es' = (if r = 0 then content es @ [(m_id m, m_data m)] else content es)"
proof (cases "length (aq_items q) < aq_size q")
  case True
  then obtain q' where "fr_atomic_queue_push q (Suc p) = Some (True, q')" "aq_inv q'" "aq_items q' = aq_items q @ [Suc p]"
    using aq_push_ok [OF assms(1), of "Suc p"] by auto
  then show ?thesis using assms
    by (intro exI [of _ 0] exI [of _ q'] exI [of _ mem] exI [of _ "es @ [(p, m, True)]"])
      (simp add: push_message_def ctl_ok_eq entries_ok_def content_def)
next
  case False
  then have full: "fr_atomic_queue_push q (Suc p) = Some (False, q)" using aq_push_full [OF assms(1)] by simp
  let ?m = "m\<lparr>m_status := FR_CONTROL_MESSAGE_DONE\<rparr>"
  have "mem p = Some m" using assms(4) by (simp add: rb_ok_def)
  moreover have "rb_ok rb (mem(p := Some ?m)) (es @ [(p, ?m, False)])" using assms(4) rb_ok_status [of rb mem es p m _ "[]"] by simp
  ultimately show ?thesis using assms full
    by (intro exI [of _ "-1"] exI [of _ q] exI [of _ "mem(p := Some ?m)"] exI [of _ "es @ [(p, ?m, False)]"])
      (simp add: push_message_def ctl_ok_eq entries_ok_def content_def)
qed

lemma entries_ok_dropWhile:
  assumes "entries_ok es" "es' = es \<or> es' = dropWhile msg_done es"
  shows "entries_ok es'" "filter queued es' = filter queued es" "content es' = content es"
proof -
  have "set es' \<subseteq> set es" using assms(2) set_dropWhileD [of _ msg_done es] by blast
  then show "entries_ok es'" using assms(1) unfolding entries_ok_def by blast
  show f: "filter queued es' = filter queued es" using assms queued_dropWhile [of es] by (auto simp: entries_ok_def)
  then show "content es' = content es" by (simp add: content_def)
qed

lemma message_push:
  assumes "ctl_ok q rb mem es" "length data \<le> 2 ^ 62"
  shows "\<exists>r q' rb' mem' es'. fr_control_message_push q rb mem ident data = Some (r, q', rb', mem') \<and> ctl_ok q' rb' mem' es' \<and>
    content es' = (if r = 0 then content es @ [(ident, data)] else content es)"
proof -
  let ?m = "\<lparr>m_status = FR_CONTROL_MESSAGE_USED, m_id = ident, m_data_size = length data, m_data = data\<rparr>"
  have ok: "aq_inv q" "rb_ok rb mem es" "aq_items q = map (\<lambda>e. Suc (fst e)) (filter queued es)" "entries_ok es"
    using assms(1) by (simp_all add: ctl_ok_eq)
  obtain r1 rb1 mem1 es1 where a: "fr_control_message_alloc rb mem ident data = Some (r1, rb1, mem1)"
    "es1 = es \<or> es1 = dropWhile msg_done es"
    "case r1 of None \<Rightarrow> rb_ok rb1 mem1 es1 | Some p \<Rightarrow> \<forall>b. rb_ok rb1 mem1 (es1 @ [(p, ?m, b)])"
    using message_alloc [OF ok(2) assms(2) refl, of ident] by blast
  note e1 = entries_ok_dropWhile [OF ok(4) a(2)]
  show ?thesis
  proof (cases r1)
    case (Some p)
    then show ?thesis using push_message_ok [OF ok(1) _ e1(1), of rb1 mem1 p ?m] a e1 ok(3)
      by (fastforce simp: fr_control_message_push_def)
  next
    case None
    obtain x rb2 mem2 where g: "fr_control_gc rb1 mem1 = Some (x, rb2, mem2)" "rb_ok rb2 mem2 (dropWhile msg_done es1)"
      using gc [of rb1 mem1 es1] a(3) None by auto
    note e2 = entries_ok_dropWhile [OF e1(1) disjI2 [OF refl]]
    obtain r3 rb3 mem3 es3 where b: "fr_control_message_alloc rb2 mem2 ident data = Some (r3, rb3, mem3)"
      "es3 = dropWhile msg_done es1 \<or> es3 = dropWhile msg_done (dropWhile msg_done es1)"
      "case r3 of None \<Rightarrow> rb_ok rb3 mem3 es3 | Some p \<Rightarrow> \<forall>b. rb_ok rb3 mem3 (es3 @ [(p, ?m, b)])"
      using message_alloc [OF g(2) assms(2) refl, of ident] by blast
    note e3 = entries_ok_dropWhile [OF e2(1) b(2)]
    show ?thesis
    proof (cases r3)
      case (Some p)
      then show ?thesis using push_message_ok [OF ok(1) _ e3(1), of rb3 mem3 p ?m] a b g e1 e2 e3 ok(3) None
        by (fastforce simp: fr_control_message_push_def)
    next
      case none3: None
      then have "fr_control_message_push q rb mem ident data = Some (-2, q, rb3, mem3)"
        using a b g None by (simp add: fr_control_message_push_def)
      moreover have "ctl_ok q rb3 mem3 es3" using b(3) none3 ok(1,3) e1(2) e2(2) e3(1,2) by (simp add: ctl_ok_eq)
      ultimately show ?thesis using e1(3) e2(3) e3(3) by (intro exI [of _ "-2"] exI) auto
    qed
  qed
qed

text \<open>Once every message has been received, the next one is accepted.\<close>

lemma message_alloc_done:
  assumes "rb_ok rb mem es" "\<forall>e \<in> set es. msg_done e" "length data \<le> 256"
  shows "\<exists>p rb' mem'. fr_control_message_alloc rb mem ident data = Some (Some p, rb', mem')"
proof -
  let ?n = "message_size (length data)"
  have n: "0 < ?n" "?n < 2 ^ 63" "?n \<le> 1024" using message_size_pos assms(3) by (simp_all add: message_size_def)
  obtain r rb1 where a: "fr_ring_buffer_alloc rb ?n = (r, rb1)" by (cases "fr_ring_buffer_alloc rb ?n")
  show ?thesis
  proof (cases r)
    case (Some p)
    with a show ?thesis by (simp add: fr_control_message_alloc_def)
  next
    case None
    have "rb_ok rb1 mem es" using rb_ok_alloc_none [OF assms(1) n(2,1)] a None by simp
    moreover have "dropWhile msg_done es = []" using assms(2) by (simp add: dropWhile_eq_Nil_conv)
    ultimately obtain x rb2 mem2 where g: "fr_control_gc rb1 mem = Some (x, rb2, mem2)" "rb_ok rb2 mem2 []" using gc by metis
    have "fst (fr_ring_buffer_alloc rb2 ?n) = Some 0" using g(2) n(3) by (intro alloc_empty) (auto simp: rb_ok_def)
    then obtain rb3 where "fr_ring_buffer_alloc rb2 ?n = (Some 0, rb3)" by (cases "fr_ring_buffer_alloc rb2 ?n") simp
    with a None g(1) show ?thesis by (simp add: fr_control_message_alloc_def)
  qed
qed

lemma message_push_accepted:
  assumes "ctl_ok q rb mem es" "content es = []" "length data \<le> 256"
  shows "\<exists>q' rb' mem'. fr_control_message_push q rb mem ident data = Some (0, q', rb', mem')"
proof -
  have nq: "filter queued es = []" using assms(2) by (simp add: content_def)
  have ok: "aq_inv q" "rb_ok rb mem es" "aq_items q = []" "entries_ok es" using assms(1) nq by (simp_all add: ctl_ok_eq)
  have "\<forall>e \<in> set es. msg_done e" using ok(4) nq by (simp add: entries_ok_def filter_empty_conv)
  then obtain p rb1 mem1 where a: "fr_control_message_alloc rb mem ident data = Some (Some p, rb1, mem1)"
    using message_alloc_done [OF ok(2) _ assms(3)] by blast
  obtain q' where "fr_atomic_queue_push q (Suc p) = Some (True, q')"
    using aq_push_ok [OF ok(1), of "Suc p"] ok(1,3) by (auto simp: aq_inv_def)
  with a show ?thesis by (simp add: fr_control_message_push_def push_message_def)
qed

subsection \<open>Receiving\<close>

lemma message_pop_empty:
  assumes "ctl_ok q rb mem es" "content es = []"
  shows "fr_control_message_pop q mem n = Some (0, None, q, mem)"
proof -
  have "filter queued es = []" using assms(2) by (simp add: content_def)
  then have "fr_atomic_queue_pop q = Some (None, q)" using assms(1) by (intro aq_pop_empty) (simp_all add: ctl_ok_eq)
  then show ?thesis by (simp add: fr_control_message_pop_def)
qed

lemma first_queued:
  assumes "ctl_ok q rb mem es" "content es = (i, d) # c"
  obtains xs p m ys q' where "es = xs @ (p, m, True) # ys" "\<forall>e \<in> set xs. \<not> queued e" "m_id m = i" "m_data m = d"
    "m_data_size m = length d" "c = content ys" "mem p = Some m"
    "fr_atomic_queue_pop q = Some (Some (Suc p), q')" "aq_inv q'" "aq_items q' = map (\<lambda>e. Suc (fst e)) (filter queued ys)"
proof -
  obtain e es2 where f: "filter queued es = e # es2" "m_id (msg e) = i" "m_data (msg e) = d"
      "c = map (\<lambda>e. (m_id (msg e), m_data (msg e))) es2"
    using assms(2) by (auto simp: content_def)
  obtain xs ys where es: "es = xs @ e # ys" "\<forall>e \<in> set xs. \<not> queued e" "queued e" "es2 = filter queued ys"
    using f(1) by (auto simp: filter_eq_Cons_iff)
  obtain p m where e: "e = (p, m, True)" using es(3) by (cases e) auto
  have "aq_items q = map (\<lambda>e. Suc (fst e)) (filter queued es)" using assms(1) by (simp add: ctl_ok_eq)
  then have ok: "aq_items q = Suc p # map (\<lambda>e. Suc (fst e)) es2" by (simp only: f(1) e list.map fst_conv)
  have ok': "aq_inv q" "mem p = Some m" "m_data_size m = length d"
    using assms(1) f(3) e es(1) by (simp_all add: ctl_ok_eq rb_ok_def entries_ok_def)
  obtain q' where "fr_atomic_queue_pop q = Some (Some (Suc p), q')" "aq_inv q'" "aq_items q' = map (\<lambda>e. Suc (fst e)) es2"
    using aq_pop_ok [OF ok'(1) ok] by blast
  with ok' f(2-4) e es show ?thesis by (intro that [of xs p m ys q']) (simp_all add: content_def)
qed

lemma message_pop:
  assumes "ctl_ok q rb mem es" "content es = (i, d) # c" "length d \<le> n"
  shows "\<exists>q' mem' es'. fr_control_message_pop q mem n = Some (int (length d), Some (i, d), q', mem') \<and>
    ctl_ok q' rb mem' es' \<and> content es' = c"
proof -
  obtain xs p m ys q' where f: "es = xs @ (p, m, True) # ys" "\<forall>e \<in> set xs. \<not> queued e" "m_id m = i" "m_data m = d"
    "m_data_size m = length d" "c = content ys" "mem p = Some m"
    "fr_atomic_queue_pop q = Some (Some (Suc p), q')" "aq_inv q'" "aq_items q' = map (\<lambda>e. Suc (fst e)) (filter queued ys)"
    using first_queued [OF assms(1,2)] by metis
  let ?m = "m\<lparr>m_status := FR_CONTROL_MESSAGE_DONE\<rparr>"
  let ?es = "xs @ (p, ?m, False) # ys"
  have none: "filter queued xs = []" using f(2) by (simp add: filter_empty_conv)
  have "rb_ok rb (mem(p := Some ?m)) ?es"
    by (rule rb_ok_status [where b = True]) (use assms(1) f(1) in \<open>simp add: ctl_ok_eq\<close>)
  moreover have "entries_ok ?es" using assms(1) f(1) by (auto simp: ctl_ok_eq entries_ok_def)
  ultimately have "ctl_ok q' rb (mem(p := Some ?m)) ?es" using f(9,10) none by (simp add: ctl_ok_eq)
  moreover have "content ?es = c" using none f(6) by (simp add: content_def)
  moreover have "fr_control_message_pop q mem n = Some (int (length d), Some (i, d), q', mem(p := Some ?m))"
    using f assms(3) by (simp add: fr_control_message_pop_def)
  ultimately show ?thesis by blast
qed

definition deliveries :: "(nat \<Rightarrow> bool) \<Rightarrow> (nat \<times> bytes) list \<Rightarrow> (nat \<times> nat \<times> bytes) list" where
  "deliveries registered ms = map (\<lambda>(i, d). (i, length d, d)) (filter (\<lambda>(i, d). i < 32 \<and> registered i) ms)"

lemma pipe_read_delivers:
  assumes "ctl_ok q rb mem es" "\<forall>(i, d) \<in> set (content es). d \<noteq> [] \<and> length d \<le> 256"
  shows "\<exists>q' mem' es'. pipe_read registered num buf q mem = Some (deliveries registered (take num (content es)), q', mem') \<and>
    ctl_ok q' rb mem' es' \<and> content es' = drop num (content es)"
  using assms
proof (induction num arbitrary: buf q mem es)
  case 0
  then show ?case by (auto simp: deliveries_def)
next
  case (Suc num)
  show ?case
  proof (cases "content es")
    case Nil
    then show ?thesis using Suc.prems message_pop_empty [OF Suc.prems(1), of 256] by (auto simp: deliveries_def)
  next
    case (Cons x c)
    obtain i d where x: "x = (i, d)" by (cases x)
    have d: "d \<noteq> []" "length d \<le> 256" using Suc.prems(2) Cons x by auto
    obtain q1 mem1 es1 where p: "fr_control_message_pop q mem 256 = Some (int (length d), Some (i, d), q1, mem1)"
      "ctl_ok q1 rb mem1 es1" "content es1 = c"
      using message_pop [OF Suc.prems(1) Cons [unfolded x] d(2)] by blast
    let ?buf = "d @ drop (length d) buf"
    obtain q2 mem2 es2 where r: "pipe_read registered num ?buf q1 mem1 = Some (deliveries registered (take num c), q2, mem2)"
      "ctl_ok q2 rb mem2 es2" "content es2 = drop num c"
      using Suc.IH [OF p(2), of ?buf] Suc.prems(2) Cons p(3) by auto
    have sz: "int (length d) mod 18446744073709551616 = int (length d)" using d(2) by simp
    have "pipe_read registered (Suc num) buf q mem = Some (deliveries registered (take (Suc num) (content es)), q2, mem2)"
      using d(1) by (auto simp: p(1) sz r(1) Cons x deliveries_def Let_def)
    with r Cons show ?thesis by auto
  qed
qed

subsection \<open>Runs\<close>

datatype ctl_op = Send nat bytes | Read nat

type_synonym ctl_state = "fr_atomic_queue \<times> fr_ring_buffer \<times> ctl_mem \<times> (nat \<times> bytes) list \<times> (nat \<times> nat \<times> bytes) list"

text \<open>
  The sender sends, the receiver reads some bytes from the pipe; the last two parts of the state are the messages for
  which \<open>fr_control_message_push\<close> has returned 0, and the calls of the callbacks.
\<close>

fun ctl_step :: "(nat \<Rightarrow> bool) \<Rightarrow> bytes \<Rightarrow> ctl_op \<Rightarrow> ctl_state \<Rightarrow> ctl_state option" where
  "ctl_step registered buf (Send ident data) (q, rb, mem, sent, calls) =
     (case fr_control_message_push q rb mem ident data of
        None \<Rightarrow> None
      | Some (r, q', rb', mem') \<Rightarrow> Some (q', rb', mem', if r = 0 then sent @ [(ident, data)] else sent, calls))"
| "ctl_step registered buf (Read num) (q, rb, mem, sent, calls) =
     (case pipe_read registered num buf q mem of
        None \<Rightarrow> None
      | Some (cs, q', mem') \<Rightarrow> Some (q', rb, mem', sent, calls @ cs))"

fun ctl_run :: "(nat \<Rightarrow> bool) \<Rightarrow> bytes \<Rightarrow> ctl_op list \<Rightarrow> ctl_state \<Rightarrow> ctl_state option" where
  "ctl_run registered buf [] st = Some st"
| "ctl_run registered buf (op # ops) st =
     (case ctl_step registered buf op st of None \<Rightarrow> None | Some st' \<Rightarrow> ctl_run registered buf ops st')"

fun ctl_op_ok :: "ctl_op \<Rightarrow> bool" where
  "ctl_op_ok (Send ident data) \<longleftrightarrow> data \<noteq> [] \<and> length data \<le> 256"
| "ctl_op_ok (Read num) \<longleftrightarrow> True"

definition ctl_inv :: "(nat \<Rightarrow> bool) \<Rightarrow> ctl_state \<Rightarrow> bool" where
  "ctl_inv registered st \<longleftrightarrow> (case st of (q, rb, mem, sent, calls) \<Rightarrow>
     (\<forall>(i, d) \<in> set sent. d \<noteq> [] \<and> length d \<le> 256) \<and>
     (\<exists>es k. ctl_ok q rb mem es \<and> k \<le> length sent \<and> content es = drop k sent \<and> calls = deliveries registered (take k sent)))"

lemma deliveries_append: "deliveries registered (xs @ ys) = deliveries registered xs @ deliveries registered ys"
  by (simp add: deliveries_def)

lemma read_inv:
  assumes "ctl_inv registered (q, rb, mem, sent, calls)"
  shows "\<exists>q' mem' calls'. ctl_step registered buf (Read num) (q, rb, mem, sent, calls) = Some (q', rb, mem', sent, calls') \<and>
    ctl_inv registered (q', rb, mem', sent, calls')"
proof -
  obtain es k where ok: "ctl_ok q rb mem es" "k \<le> length sent" "content es = drop k sent" "calls = deliveries registered (take k sent)"
    and small: "\<forall>(i, d) \<in> set sent. d \<noteq> [] \<and> length d \<le> 256" using assms by (auto simp: ctl_inv_def)
  have "\<forall>(i, d) \<in> set (content es). d \<noteq> [] \<and> length d \<le> 256" using small ok(3) by (auto dest: in_set_dropD)
  then obtain q' mem' es' where r: "pipe_read registered num buf q mem = Some (deliveries registered (take num (drop k sent)), q', mem')"
    "ctl_ok q' rb mem' es'" "content es' = drop num (drop k sent)"
    using pipe_read_delivers [OF ok(1), of registered num buf] ok(3) by auto
  let ?calls = "calls @ deliveries registered (take num (drop k sent))"
  have c: "?calls = deliveries registered (take (k + num) sent)" unfolding ok(4) by (simp add: take_add deliveries_append)
  have "take (min (k + num) (length sent)) sent = take (k + num) sent" "drop (min (k + num) (length sent)) sent = drop (k + num) sent"
    by (simp_all add: min_def)
  then have "ctl_inv registered (q', rb, mem', sent, ?calls)"
    using small r c unfolding ctl_inv_def prod.case
    by (intro conjI exI [of _ es'] exI [of _ "min (k + num) (length sent)"]) (simp_all add: add.commute)
  then show ?thesis using r(1) by (intro exI [of _ q'] exI [of _ mem'] exI [of _ ?calls]) simp
qed

lemma send_inv:
  assumes "ctl_inv registered (q, rb, mem, sent, calls)" "data \<noteq> []" "length data \<le> 256"
  shows "\<exists>st'. ctl_step registered buf (Send ident data) (q, rb, mem, sent, calls) = Some st' \<and> ctl_inv registered st'"
proof -
  obtain es k where ok: "ctl_ok q rb mem es" "k \<le> length sent" "content es = drop k sent" "calls = deliveries registered (take k sent)"
    and small: "\<forall>(i, d) \<in> set sent. d \<noteq> [] \<and> length d \<le> 256" using assms(1) by (auto simp: ctl_inv_def)
  have "length data \<le> 2 ^ 62" using assms(3) by simp
  then obtain r q' rb' mem' es' where p: "fr_control_message_push q rb mem ident data = Some (r, q', rb', mem')"
    "ctl_ok q' rb' mem' es'" "content es' = (if r = 0 then content es @ [(ident, data)] else content es)"
    using message_push [OF ok(1), of data ident] by blast
  let ?sent = "if r = 0 then sent @ [(ident, data)] else sent"
  have "ctl_inv registered (q', rb', mem', ?sent, calls)"
    using small p assms(2,3) ok(2-4) unfolding ctl_inv_def prod.case
    by (intro conjI exI [of _ es'] exI [of _ k]) auto
  then show ?thesis using p(1) by simp
qed

lemma ctl_run_inv:
  assumes "ctl_inv registered st" "list_all ctl_op_ok ops"
  shows "\<exists>st'. ctl_run registered buf ops st = Some st' \<and> ctl_inv registered st'"
  using assms
proof (induction ops arbitrary: st)
  case (Cons op ops)
  obtain q rb mem sent calls where st: "st = (q, rb, mem, sent, calls)" by (cases st)
  have "\<exists>st1. ctl_step registered buf op st = Some st1 \<and> ctl_inv registered st1"
  proof (cases op)
    case (Send ident data)
    then show ?thesis using send_inv [of registered q rb mem sent calls data buf ident] Cons.prems st by simp
  next
    case (Read num)
    then show ?thesis using read_inv [of registered q rb mem sent calls buf num] Cons.prems st by auto
  qed
  then obtain st1 where "ctl_step registered buf op st = Some st1" "ctl_inv registered st1" by blast
  then show ?case using Cons.IH [of st1] Cons.prems(2) by simp
qed simp

lemma ctl_ok_start:
  assumes "fr_ring_buffer_create n = Some rb" "fr_atomic_queue_alloc k = Some q" "2 \<le> k"
  shows "ctl_ok q rb (\<lambda>p. None) []"
proof -
  have "write_offset rb = 0 \<and> data_start rb = 0" using assms(1) by (auto simp: fr_ring_buffer_create_def Let_def split: if_splits)
  moreover obtain j where "rb_size rb = 2 ^ j" "10 \<le> j" using create_size [OF assms(1)] by blast
  then have "1024 \<le> rb_size rb" using power_increasing [of 10 j "2 :: nat"] by simp
  ultimately show ?thesis
    using create_live [OF assms(1)] aq_alloc [OF assms(2,3)] by (simp add: ctl_ok_eq rb_ok_def entries_ok_def)
qed

lemma ctl_start:
  assumes "fr_ring_buffer_create n = Some rb" "fr_atomic_queue_alloc k = Some q" "2 \<le> k"
  shows "ctl_inv registered (q, rb, \<lambda>p. None, [], [])"
  using ctl_ok_start [OF assms] by (auto simp: ctl_inv_def content_def deliveries_def)

lemma send_accepted:
  assumes "ctl_inv registered (q, rb, mem, sent, calls)" "length (aq_items q) \<le> num" "length data \<le> 256"
  shows "\<exists>q' rb' mem'. ctl_run registered buf [Read num, Send ident data] (q, rb, mem, sent, calls) =
    Some (q', rb', mem', sent @ [(ident, data)], deliveries registered sent)"
proof -
  obtain es k where ok: "ctl_ok q rb mem es" "content es = drop k sent" "calls = deliveries registered (take k sent)"
    and small: "\<forall>(i, d) \<in> set sent. d \<noteq> [] \<and> length d \<le> 256" using assms(1) by (auto simp: ctl_inv_def)
  have "\<forall>(i, d) \<in> set (content es). d \<noteq> [] \<and> length d \<le> 256" using small ok(2) by (auto dest: in_set_dropD)
  moreover have "length (content es) \<le> num" using ok(1) assms(2) by (simp add: ctl_ok_eq content_def)
  then have n: "take num (drop k sent) = drop k sent" "drop num (drop k sent) = []" using ok(2) by simp_all
  ultimately obtain q1 mem1 es1 where r: "pipe_read registered num buf q mem = Some (deliveries registered (drop k sent), q1, mem1)"
    "ctl_ok q1 rb mem1 es1" "content es1 = []"
    using pipe_read_delivers [OF ok(1), of registered num buf] ok(2) n by auto
  obtain q2 rb2 mem2 where "fr_control_message_push q1 rb mem1 ident data = Some (0, q2, rb2, mem2)"
    using message_push_accepted [OF r(2,3) assms(3)] by blast
  with r(1) show ?thesis using ok(3) by (simp flip: deliveries_append)
qed

text \<open>Garbage collection stops at the first message that is still in use.\<close>

lemma gc_stuck:
  assumes "rb_ok rb mem es" "e \<in> set es" "m_status (msg e) = FR_CONTROL_MESSAGE_USED"
  shows "\<exists>rb' mem'. fr_control_gc rb mem = Some (-1, rb', mem') \<and> fr_control_gc rb' mem' = Some (-1, rb', mem')"
proof -
  obtain rb' mem' where l: "fr_control_gc_loop rb mem = Some (rb', mem')" "rb_ok rb' mem' (dropWhile msg_done es)"
    using gc_loop [OF assms(1)] by blast
  have "dropWhile msg_done es \<noteq> []"
  proof
    assume "dropWhile msg_done es = []"
    then have "msg_done e" using assms(2) by (simp only: dropWhile_eq_Nil_conv)
    with assms(3) show False by simp
  qed
  then obtain f fs where f: "dropWhile msg_done es = f # fs" "\<not> msg_done f" 
    using hd_dropWhile [of msg_done es] by (cases "dropWhile msg_done es") auto
  have "fr_ring_buffer_used rb' = sum_list (map snd (map block_of (f # fs)))"
    by (rule live_used) (use l(2) f(1) in \<open>simp_all add: rb_ok_def\<close>)
  then have used: "0 < fr_ring_buffer_used rb'" using message_size_pos by (simp add: block_of_def)
  have st: "fst (fr_ring_buffer_start rb') = fst f" "snd (fr_ring_buffer_start rb') \<noteq> 0" "mem' (fst f) = Some (msg f)"
    using start_first [OF l(2)] l(2) f(1) by (simp_all add: rb_ok_def)
  have "fr_control_gc_loop rb' mem' = Some (rb', mem')"
    by (subst fr_control_gc_loop.simps) (simp add: case_prod_beta st f(2))
  with l(1) used show ?thesis by (simp add: fr_control_gc_def)
qed

text \<open>A first message, for the examples.\<close>

lemma example_send:
  assumes "length data \<le> 256"
  shows "\<exists>rb q q1 rb1 mem1. fr_ring_buffer_create 1000 = Some rb \<and> fr_atomic_queue_alloc 2 = Some q \<and>
    fr_control_message_push q rb (\<lambda>p. None) ident data = Some (0, q1, rb1, mem1) \<and> length (aq_items q1) = 1"
proof -
  obtain rb where rb: "fr_ring_buffer_create 1000 = Some rb" by (simp add: fr_ring_buffer_create_def)
  obtain q where q: "fr_atomic_queue_alloc 2 = Some q" by (simp add: fr_atomic_queue_alloc_def)
  have ok: "ctl_ok q rb (\<lambda>p. None) []" by (rule ctl_ok_start [OF rb q]) simp
  then obtain q1 rb1 mem1 where p: "fr_control_message_push q rb (\<lambda>p. None) ident data = Some (0, q1, rb1, mem1)"
    using message_push_accepted [of q rb "\<lambda>p. None" "[]" data ident] assms by (auto simp: content_def)
  have "length data \<le> 2 ^ 62" using assms by simp
  from message_push [OF ok this, of ident] p obtain es where es: "ctl_ok q1 rb1 mem1 es" "content es = [(ident, data)]"
    by (auto simp: content_def)
  have "length (aq_items q1) = length (content es)" using es(1) by (simp add: ctl_ok_eq content_def)
  with es(2) rb q p show ?thesis by auto
qed

subsection \<open>Properties\<close>



text \<open>
  C21: Whatever sends and reads came before, a read that finds a byte in the pipe for every message in the queue delivers
  everything that was sent, and the next message is accepted, however full the ring buffer and the queue have been.
\<close>

theorem control_recovers:
  assumes "fr_ring_buffer_create n = Some rb" "fr_atomic_queue_alloc k = Some q" "2 \<le> k" "list_all ctl_op_ok ops"
    "ctl_run registered buf ops (q, rb, \<lambda>p. None, [], []) = Some (q1, rb1, mem1, sent, calls)"
    "length (aq_items q1) \<le> num" "length data \<le> 256"
  shows "\<exists>q2 rb2 mem2. ctl_run registered buf [Read num, Send ident data] (q1, rb1, mem1, sent, calls) =
    Some (q2, rb2, mem2, sent @ [(ident, data)], deliveries registered sent)"
proof -
  have "ctl_inv registered (q1, rb1, mem1, sent, calls)"
    using ctl_run_inv [OF ctl_start [OF assms(1-3), of registered] assms(4), of buf] assms(5) by auto
  then show ?thesis by (rule send_accepted [OF _ assms(6,7)])
qed

theorem control_recovers_witness:
  "\<exists>rb q q2 rb2 mem2. fr_ring_buffer_create 1000 = Some rb \<and> fr_atomic_queue_alloc 2 = Some q \<and>
    ctl_run (\<lambda>i. i = 3) [] [Send 3 [1, 2], Read 1, Send 4 [5]] (q, rb, \<lambda>p. None, [], []) =
      Some (q2, rb2, mem2, [(3, [1, 2]), (4, [5])], [(3, 2, [1, 2])])"
proof -
  obtain rb q q1 rb1 mem1 where e: "fr_ring_buffer_create 1000 = Some rb" "fr_atomic_queue_alloc 2 = Some q"
    "fr_control_message_push q rb (\<lambda>p. None) 3 [1, 2] = Some (0, q1, rb1, mem1)"
    "length (aq_items q1) = 1"
    using example_send [of "[1, 2]" 3] by auto
  have run: "ctl_run (\<lambda>i. i = 3) [] (Send 3 [1, 2] # ops) (q, rb, \<lambda>p. None, [], []) =
      ctl_run (\<lambda>i. i = 3) [] ops (q1, rb1, mem1, [(3, [1, 2])], [])" for ops
    using e(3) by simp
  have "deliveries (\<lambda>i. i = 3) [(3, [1, 2])] = [(3, 2, [1, 2])]" by (simp add: deliveries_def)
  with control_recovers [OF e(1,2) _ _ trans [OF run ctl_run.simps(1)], of 1 "[5]" 4] e(4)
  have "\<exists>q2 rb2 mem2. ctl_run (\<lambda>i. i = 3) [] [Send 3 [1, 2], Read 1, Send 4 [5]] (q, rb, \<lambda>p. None, [], []) =
      Some (q2, rb2, mem2, [(3, [1, 2]), (4, [5])], [(3, 2, [1, 2])])"
    unfolding run by (simp del: ctl_run.simps)
  with e(1,2) show ?thesis by blast
qed

text \<open>
  C38: A message that is longer than the receiver's buffer is sent successfully; the receiver then takes it off the queue
  without marking it as done, and from then on garbage collection stops at it.
\<close>

theorem control_oversize_leaks:
  assumes "fr_ring_buffer_create n = Some rb" "fr_atomic_queue_alloc k = Some q" "2 \<le> k" "length data \<le> 2 ^ 62"
    "fr_control_message_push q rb (\<lambda>p. None) ident data = Some (0, q1, rb1, mem1)" "buf_size < length data"
  shows "\<exists>q2 rb2 mem2. fr_control_message_pop q1 mem1 buf_size = Some (- int (length data), None, q2, mem1) \<and>
    fr_atomic_queue_pop q2 = Some (None, q2) \<and>
    fr_control_gc rb1 mem1 = Some (-1, rb2, mem2) \<and> fr_control_gc rb2 mem2 = Some (-1, rb2, mem2)"
proof -
  obtain es where es: "ctl_ok q1 rb1 mem1 es" "content es = [(ident, data)]"
    using message_push [OF ctl_ok_start [OF assms(1-3)] assms(4), of ident] assms(5) by (auto simp: content_def)
  obtain xs p m ys q2 where f: "es = xs @ (p, m, True) # ys" "m_data_size m = length data" "[] = content ys" "mem1 p = Some m"
    "fr_atomic_queue_pop q1 = Some (Some (Suc p), q2)" "aq_inv q2" "aq_items q2 = map (\<lambda>e. Suc (fst e)) (filter queued ys)"
    using first_queued [OF es] by metis
  have "fr_atomic_queue_pop q2 = Some (None, q2)" using f(3,6,7) by (intro aq_pop_empty) (simp_all add: content_def)
  moreover have "fr_control_message_pop q1 mem1 buf_size = Some (- int (length data), None, q2, mem1)"
    using f(2,4,5) assms(6) by (simp add: fr_control_message_pop_def)
  moreover have "rb_ok rb1 mem1 es" "m_status m = FR_CONTROL_MESSAGE_USED" using es(1) f(1) by (simp_all add: ctl_ok_eq entries_ok_def)
  then have "\<exists>rb2 mem2. fr_control_gc rb1 mem1 = Some (-1, rb2, mem2) \<and> fr_control_gc rb2 mem2 = Some (-1, rb2, mem2)"
    using gc_stuck [of rb1 mem1 es "(p, m, True)"] f(1) by simp
  ultimately show ?thesis by blast
qed

theorem control_oversize_leaks_witness:
  "\<exists>rb q q1 rb1 mem1 q2. fr_ring_buffer_create 1000 = Some rb \<and> fr_atomic_queue_alloc 2 = Some q \<and>
    fr_control_message_push q rb (\<lambda>p. None) 3 [1, 2] = Some (0, q1, rb1, mem1) \<and>
    fr_control_message_pop q1 mem1 1 = Some (-2, None, q2, mem1)"
proof -
  obtain rb q q1 rb1 mem1 where e: "fr_ring_buffer_create 1000 = Some rb" "fr_atomic_queue_alloc 2 = Some q"
    "fr_control_message_push q rb (\<lambda>p. None) 3 [1, 2] = Some (0, q1, rb1, mem1)"
    using example_send [of "[1, 2]" 3] by auto
  from control_oversize_leaks [OF e(1,2) _ _ e(3), of 1] e show ?thesis by auto
qed

end
