(* ===== verification/Uint128.thy ===== *)
theory Uint128
  imports Prelude
begin

text \<open>
  Unsigned integers of 128 bits for compilers that have none: the first half of \<open>src/lib/util/uint128.h\<close>, on pairs of
  words, and its second half, on the type of the compiler.  A shift by the width of the operand or more is undefined
  in C and is \<open>None\<close> here.
\<close>

unbundle bit_operations_syntax

type_synonym u128 = "128 word"

record uint128_t =
  u128_l :: u64
  u128_h :: u64

subsection \<open>The functions on pairs of words\<close>

definition shl64 :: "u64 \<Rightarrow> nat \<Rightarrow> u64 option" where
  "shl64 x n = (if n < 64 then Some (push_bit n x) else None)"

definition shr64 :: "u64 \<Rightarrow> nat \<Rightarrow> u64 option" where
  "shr64 x n = (if n < 64 then Some (drop_bit n x) else None)"

definition uint128_gen_mask :: "nat \<Rightarrow> uint128_t option" where
  "uint128_gen_mask bits =
     (if bits > 64 then
        map_option (\<lambda>h. \<lparr>u128_l = 0xffffffffffffffff, u128_h = h XOR (h - 1)\<rparr>) (shl64 1 (bits - 64))
      else map_option (\<lambda>l. \<lparr>u128_l = l XOR (l - 1), u128_h = 0\<rparr>) (shl64 1 bits))"

definition uint128_increment :: "uint128_t \<Rightarrow> uint128_t" where
  "uint128_increment n =
     (let t = u128_l n + 1
      in n\<lparr>u128_h := u128_h n + drop_bit 63 ((u128_l n XOR t) AND u128_l n), u128_l := t\<rparr>)"

definition uint128_decrement :: "uint128_t \<Rightarrow> uint128_t" where
  "uint128_decrement n =
     (let t = u128_l n - 1
      in n\<lparr>u128_h := u128_h n - drop_bit 63 ((t XOR u128_l n) AND t), u128_l := t\<rparr>)"

definition uint128_add :: "uint128_t \<Rightarrow> uint128_t \<Rightarrow> uint128_t" where
  "uint128_add a b =
     (let tmp = drop_bit 63 (((u128_l a AND u128_l b) AND 1) + drop_bit 1 (u128_l a) + drop_bit 1 (u128_l b))
      in \<lparr>u128_l = u128_l a + u128_l b, u128_h = u128_h a + u128_h b + tmp\<rparr>)"

definition uint128_sub :: "uint128_t \<Rightarrow> uint128_t \<Rightarrow> uint128_t" where
  "uint128_sub a b =
     (let l = u128_l a - u128_l b;
          c = drop_bit 63 (((l AND u128_l b) AND 1) + drop_bit 1 (u128_l b) + drop_bit 1 l)
      in \<lparr>u128_l = l, u128_h = u128_h a - (u128_h b + c)\<rparr>)"

definition uint128_mul64 :: "u64 \<Rightarrow> u64 \<Rightarrow> uint128_t" where
  "uint128_mul64 u v =
     (let u1 = u AND 0xffffffff;
          v1 = v AND 0xffffffff;
          t = u1 * v1;
          w3 = t AND 0xffffffff;
          k = drop_bit 32 t;
          u = drop_bit 32 u;
          t = u * v1 + k;
          k = t AND 0xffffffff;
          w1 = drop_bit 32 t;
          v = drop_bit 32 v;
          t = u1 * v + k;
          k = drop_bit 32 t
      in \<lparr>u128_l = push_bit 32 t + w3, u128_h = u * v + w1 + k\<rparr>)"

definition uint128_mul :: "uint128_t \<Rightarrow> uint128_t \<Rightarrow> uint128_t" where
  "uint128_mul n m =
     (let ret = uint128_mul64 (u128_l n) (u128_l m)
      in ret\<lparr>u128_h := u128_h ret + (u128_h n * u128_l m + u128_l n * u128_h m)\<rparr>)"

text \<open>From 64 on, the assignment to the one word comes before the one that should read it.\<close>

definition uint128_lshift :: "uint128_t \<Rightarrow> nat \<Rightarrow> uint128_t option" where
  "uint128_lshift num bits =
     (if bits \<ge> 64 then
        (let num = num\<lparr>u128_l := 0\<rparr>
         in map_option (\<lambda>h. num\<lparr>u128_h := h\<rparr>) (shl64 (u128_l num) (bits - 64)))
      else
        (case (shl64 (u128_h num) bits, shr64 (u128_l num) (64 - bits), shl64 (u128_l num) bits) of
           (Some h, Some c, Some l) \<Rightarrow> Some (num\<lparr>u128_h := h OR c, u128_l := l\<rparr>)
         | _ \<Rightarrow> None))"

definition uint128_rshift :: "uint128_t \<Rightarrow> nat \<Rightarrow> uint128_t option" where
  "uint128_rshift num bits =
     (if bits \<ge> 64 then
        (let num = num\<lparr>u128_h := 0\<rparr>
         in map_option (\<lambda>l. num\<lparr>u128_l := l\<rparr>) (shr64 (u128_h num) (bits - 64)))
      else
        (case (shr64 (u128_l num) bits, shl64 (u128_h num) (64 - bits), shr64 (u128_h num) bits) of
           (Some l, Some c, Some h) \<Rightarrow> Some (num\<lparr>u128_l := l OR c, u128_h := h\<rparr>)
         | _ \<Rightarrow> None))"

definition uint128_band :: "uint128_t \<Rightarrow> uint128_t \<Rightarrow> uint128_t" where
  "uint128_band a b = \<lparr>u128_l = u128_l a AND u128_l b, u128_h = u128_h a AND u128_h b\<rparr>"

definition uint128_bor :: "uint128_t \<Rightarrow> uint128_t \<Rightarrow> uint128_t" where
  "uint128_bor a b = \<lparr>u128_l = u128_l a OR u128_l b, u128_h = u128_h a OR u128_h b\<rparr>"

definition uint128_eq :: "uint128_t \<Rightarrow> uint128_t \<Rightarrow> bool" where
  "uint128_eq a b \<longleftrightarrow> u128_h a = u128_h b \<and> u128_l a = u128_l b"

definition uint128_gt :: "uint128_t \<Rightarrow> uint128_t \<Rightarrow> bool" where
  "uint128_gt a b \<longleftrightarrow> (if u128_h a < u128_h b then False else if u128_h a > u128_h b then True else u128_l a > u128_l b)"

definition uint128_new :: "u64 \<Rightarrow> u64 \<Rightarrow> uint128_t" where
  "uint128_new h l = \<lparr>u128_l = l, u128_h = h\<rparr>"

definition uint128_to_64 :: "uint128_t \<Rightarrow> u64" where
  "uint128_to_64 a = u128_l a"

subsection \<open>The value of a pair\<close>

definition u128 :: "uint128_t \<Rightarrow> u128" where
  "u128 n = push_bit 64 (ucast (u128_h n)) OR ucast (u128_l n)"

lemma bit_u128: "bit (u128 n) i \<longleftrightarrow> (if i < 64 then bit (u128_l n) i else bit (u128_h n) (i - 64))"
proof -
  have "bit (ucast (u128_h n) :: u128) (i - 64) \<Longrightarrow> i < 128"
    using bit_imp_le_length [of "u128_h n" "i - 64"] by (auto simp: bit_simps)
  then show ?thesis by (auto simp: u128_def bit_simps dest: bit_imp_le_length)
qed

lemma u128_eq: "u128 n = word_of_int (uint (u128_h n) * 2 ^ 64 + uint (u128_l n))"
proof -
  have "u128 n = push_bit 64 (ucast (u128_h n)) + ucast (u128_l n)"
    unfolding u128_def by (rule disjunctive_add [symmetric]) (auto simp: bit_simps dest: bit_imp_le_length)
  also have "\<dots> = word_of_int (uint (u128_h n) * 2 ^ 64 + uint (u128_l n))"
    by (simp add: push_bit_eq_mult unsigned_ucast_eq)
  finally show ?thesis .
qed

lemma mod_mult_join: "(x mod M * M + y) mod (M * M) = (x * M + y) mod (M * M :: int)"
proof -
  have "x * M + y = (x mod M * M + y) + (x div M) * (M * M)"
    by (metis (no_types, lifting) add.assoc add.commute distrib_right mod_mult_div_eq mult.assoc mult.commute)
  then show ?thesis by (simp only: mod_mult_self1)
qed

text \<open>A sum of words is the low word and a carry, which may be negative.\<close>

lemma u128_carry:
  assumes "u128_l n = word_of_int L" "u128_h n = word_of_int (H + L div 2 ^ 64)"
  shows "u128 n = word_of_int (H * 2 ^ 64 + L)"
proof -
  have "uint (u128_l n) = L mod 2 ^ 64" "uint (u128_h n) = (H + L div 2 ^ 64) mod 2 ^ 64"
    unfolding assms by (simp_all add: uint_word_of_int del: of_int_add)
  then have "u128 n = word_of_int ((H + L div 2 ^ 64) mod 2 ^ 64 * 2 ^ 64 + L mod 2 ^ 64)" by (simp only: u128_eq)
  also have "\<dots> = word_of_int (H * 2 ^ 64 + L)"
  proof -
    have "((H + L div 2 ^ 64) mod 2 ^ 64 * 2 ^ 64 + L mod 2 ^ 64) mod 2 ^ 128 = ((H + L div 2 ^ 64) * 2 ^ 64 + L mod 2 ^ 64) mod 2 ^ 128"
      using mod_mult_join [of "H + L div 2 ^ 64" "2 ^ 64" "L mod 2 ^ 64"] by (simp flip: power_add)
    also have "(H + L div 2 ^ 64) * 2 ^ 64 + L mod 2 ^ 64 = H * 2 ^ 64 + L" by (simp only: distrib_right add.assoc div_mult_mod_eq)
    finally show ?thesis by (simp only: word_of_int_eq_iff take_bit_eq_mod len_of_numeral_defs) simp
  qed
  finally show ?thesis .
qed

lemma uint_drop_bit: "uint (drop_bit n (x :: u64)) = uint x div 2 ^ n"
  using uint_bounded [of x] by (subst unsigned_drop_bit_eq) (simp add: drop_bit_eq_div take_bit_eq_mod)

lemma word_of_int_uint_eqI: "uint (x :: u64) = k \<Longrightarrow> x = word_of_int k"
  by auto

lemma add_carry:
  "drop_bit 63 (((a AND b) AND 1) + drop_bit 1 a + drop_bit 1 (b :: u64)) = word_of_int ((uint a + uint b) div 2 ^ 64)"
proof (rule word_of_int_uint_eqI)
  let ?A = "uint a" and ?B = "uint b"
  have lt: "?A < 2 ^ 64" "?B < 2 ^ 64" "0 \<le> ?A" "0 \<le> ?B" using uint_bounded [of a] uint_bounded [of b] by simp_all
  have o: "uint ((a AND b) AND 1) = of_bool (odd ?A \<and> odd ?B)" 
    unfolding unsigned_and_eq unsigned_1 by (simp add: and_one_eq mod_2_eq_odd even_and_iff)
  have d: "uint (drop_bit 1 a) = ?A div 2" "uint (drop_bit 1 b) = ?B div 2" by (simp_all only: uint_drop_bit power_one_right)
  have sum: "of_bool (odd ?A \<and> odd ?B) + ?A div 2 + ?B div 2 = (?A + ?B) div 2" by (cases "even ?A"; cases "even ?B") (auto elim!: oddE evenE)
  have "uint (((a AND b) AND 1) + drop_bit 1 a + drop_bit 1 b) = (uint ((a AND b) AND 1) + uint (drop_bit 1 a) + uint (drop_bit 1 b)) mod 2 ^ 64"
    by (simp only: uint_word_ariths len_of_numeral_defs mod_add_left_eq) simp
  also have "\<dots> = (?A + ?B) div 2" unfolding o d sum using lt by (intro mod_pos_pos_trivial) simp_all
  finally have "uint (((a AND b) AND 1) + drop_bit 1 a + drop_bit 1 b) = (?A + ?B) div 2" .
  then show "uint (drop_bit 63 (((a AND b) AND 1) + drop_bit 1 a + drop_bit 1 b)) = (?A + ?B) div 2 ^ 64"
    by (simp only: uint_drop_bit) (simp flip: zdiv_zmult2_eq)
qed

subsection \<open>The operations\<close>

lemma u128_add: "u128 (uint128_add a b) = u128 a + u128 b"
proof -
  have "u128 (uint128_add a b) = word_of_int ((uint (u128_h a) + uint (u128_h b)) * 2 ^ 64 + (uint (u128_l a) + uint (u128_l b)))"
    by (rule u128_carry) (simp_all add: uint128_add_def Let_def add_carry [simplified])
  then show ?thesis by (simp add: u128_eq algebra_simps)
qed

lemma u128_sub: "u128 (uint128_sub a b) = u128 a - u128 b"
proof -
  let ?A = "uint (u128_l a)" and ?B = "uint (u128_l b)"
  have lt: "?A < 2 ^ 64" "?B < 2 ^ 64" "0 \<le> ?A" "0 \<le> ?B" using uint_bounded [of "u128_l a"] uint_bounded [of "u128_l b"] by simp_all
  have r: "uint (u128_l a - u128_l b) = (?A - ?B) mod 2 ^ 64" by (simp add: uint_word_ariths)
  have c: "(?B + (?A - ?B) mod 2 ^ 64) div 2 ^ 64 = - ((?A - ?B) div 2 ^ 64)"
  proof -
    have "?B + (?A - ?B) mod 2 ^ 64 = ?A + (- ((?A - ?B) div 2 ^ 64)) * 2 ^ 64" by (simp only: minus_mult_left [symmetric] minus_div_mult_eq_mod [symmetric])
    then show ?thesis using lt by (simp only: div_mult_self1) simp
  qed
  have h: "u128_h (uint128_sub a b) = u128_h a - (u128_h b + word_of_int (- ((?A - ?B) div 2 ^ 64)))"
    unfolding c [symmetric] r [symmetric] add_carry [symmetric] by (simp add: uint128_sub_def Let_def and.commute)
  have "u128 (uint128_sub a b) = word_of_int ((uint (u128_h a) - uint (u128_h b)) * 2 ^ 64 + (?A - ?B))"
    by (rule u128_carry) (simp_all add: h, simp add: uint128_sub_def Let_def)
  then show ?thesis by (simp add: u128_eq algebra_simps)
qed

lemma top_bit: "drop_bit 63 (x :: u64) = of_bool (2 ^ 63 \<le> uint x)"
proof -
  have "uint x div 2 ^ 63 = of_bool (2 ^ 63 \<le> uint x)"
  proof (cases "2 ^ 63 \<le> uint x")
    case True
    moreover have "uint x < 2 ^ 63 * 2" using uint_bounded [of x] by simp
    ultimately show ?thesis using int_div_pos_eq [of "uint x" "2 ^ 63" 1 "uint x - 2 ^ 63"] by simp
  qed (simp add: div_pos_pos_trivial)
  then have "uint (drop_bit 63 x) = uint (of_bool (2 ^ 63 \<le> uint x) :: u64)" by (simp only: uint_drop_bit) simp
  then show ?thesis by (simp only: word_uint_eq_iff)
qed

lemma u128_increment: "u128 (uint128_increment n) = u128 n + 1"
proof -
  let ?L = "uint (u128_l n)"
  have lt: "?L < 2 ^ 64" "0 \<le> ?L" using uint_bounded [of "u128_l n"] by simp_all
  have "drop_bit 63 ((u128_l n XOR (u128_l n + 1)) AND u128_l n) = word_of_int ((?L + 1) div 2 ^ 64)"
  proof (cases "?L = 2 ^ 64 - 1")
    case True
    moreover from this have "uint (u128_l n + 1) = 0" by (simp add: uint_word_ariths)
    ultimately show ?thesis by (simp add: drop_bit_and drop_bit_xor top_bit)
  next
    case False
    then have "uint (u128_l n + 1) = ?L + 1" using lt by (simp add: uint_word_ariths)
    with False show ?thesis using lt by (simp add: drop_bit_and drop_bit_xor top_bit)
  qed
  then have "u128 (uint128_increment n) = word_of_int (uint (u128_h n) * 2 ^ 64 + (?L + 1))"
    by (intro u128_carry) (simp_all add: uint128_increment_def Let_def)
  then show ?thesis by (simp add: u128_eq algebra_simps)
qed

lemma u128_decrement: "u128 (uint128_decrement n) = u128 n - 1"
proof -
  let ?L = "uint (u128_l n)"
  have lt: "?L < 2 ^ 64" "0 \<le> ?L" using uint_bounded [of "u128_l n"] by simp_all
  have "drop_bit 63 (((u128_l n - 1) XOR u128_l n) AND (u128_l n - 1)) = - word_of_int ((?L - 1) div 2 ^ 64)"
  proof (cases "?L = 0")
    case True
    moreover from this have "uint (u128_l n - 1) = 2 ^ 64 - 1" by (simp add: uint_word_ariths)
    ultimately show ?thesis by (simp add: drop_bit_and drop_bit_xor top_bit)
  next
    case False
    then have pos: "1 \<le> ?L" using lt(2) by linarith
    then have "uint (u128_l n - 1) = ?L - 1" using lt by (simp add: uint_word_ariths)
    with pos show ?thesis using lt by (simp add: drop_bit_and drop_bit_xor top_bit)
  qed
  then have "u128 (uint128_decrement n) = word_of_int (uint (u128_h n) * 2 ^ 64 + (?L - 1))"
    by (intro u128_carry) (simp_all add: uint128_decrement_def Let_def)
  then show ?thesis by (simp add: u128_eq algebra_simps)
qed

text \<open>Schoolbook multiplication with digits of 32 bits: no intermediate sum overflows.\<close>

lemma lo32: "(word_of_int t :: u64) AND 0xffffffff = word_of_int (t mod 2 ^ 32)"
proof -
  have "(0xffffffff :: u64) = mask 32" by (simp add: mask_eq_exp_minus_1)
  then have "(word_of_int t :: u64) AND 0xffffffff = take_bit 32 (word_of_int t)" by (simp only: take_bit_eq_mask)
  also have "\<dots> = word_of_int (take_bit 32 t)" by (simp add: take_bit_word_eq_self flip: of_int_take_bit)
  finally show ?thesis by (simp only: take_bit_eq_mod)
qed

lemma hi32: "0 \<le> t \<Longrightarrow> t < 2 ^ 64 \<Longrightarrow> drop_bit 32 (word_of_int t :: u64) = word_of_int (t div 2 ^ 32)"
  by (rule word_of_int_uint_eqI) (simp only: uint_drop_bit, simp add: uint_word_of_int)

lemma digits_less:
  fixes x y z :: int
  assumes "0 \<le> x" "x < 2 ^ 32" "0 \<le> y" "y < 2 ^ 32" "0 \<le> z" "z < 2 ^ 32"
  shows "0 \<le> x * y + z" "x * y + z < 2 ^ 64"
proof -
  have "x * y \<le> (2 ^ 32 - 1) * (2 ^ 32 - 1)" using assms by (intro mult_mono) simp_all
  then show "x * y + z < 2 ^ 64" using assms(6) by simp
  show "0 \<le> x * y + z" using assms by simp
qed

lemma schoolbook:
  fixes u0 u2 v0 v2 M :: int
  defines "t1 \<equiv> u0 * v0"
  defines "t2 \<equiv> u2 * v0 + t1 div M"
  defines "t3 \<equiv> u0 * v2 + t2 mod M"
  shows "(u2 * v2 + t2 div M) * (M * M) + (t3 * M + t1 mod M) = (u2 * M + u0) * (v2 * M + v0)"
proof -
  have "r1 + q1 * M = u0 * v0 \<Longrightarrow> r2 + q2 * M = u2 * v0 + q1 \<Longrightarrow>
      (u2 * v2 + q2) * (M * M) + ((u0 * v2 + r2) * M + r1) = (u2 * M + u0) * (v2 * M + v0)" for q1 q2 r1 r2 :: int
    by algebra
  from this [of "t1 mod M" "t1 div M" "t2 mod M" "t2 div M"] show ?thesis by (simp add: t1_def t2_def t3_def)
qed

lemma u128_mul64: "u128 (uint128_mul64 u v) = ucast u * ucast v"
proof -
  let ?M = "2 ^ 32 :: int"
  define u0 u2 v0 v2 where "u0 = uint u mod ?M" and "u2 = uint u div ?M" and "v0 = uint v mod ?M" and "v2 = uint v div ?M"
  have b: "0 \<le> u0" "u0 < ?M" "0 \<le> u2" "u2 < ?M" "0 \<le> v0" "v0 < ?M" "0 \<le> v2" "v2 < ?M"
    using uint_bounded [of u] uint_bounded [of v] by (auto simp: u0_def u2_def v0_def v2_def pos_imp_zdiv_nonneg_iff)
  have d: "u AND 0xffffffff = word_of_int u0" "drop_bit 32 u = word_of_int u2"
      "v AND 0xffffffff = word_of_int v0" "drop_bit 32 v = word_of_int v2"
    using lo32 [of "uint u"] lo32 [of "uint v"] hi32 [of "uint u"] hi32 [of "uint v"] uint_bounded [of u] uint_bounded [of v]
    by (simp_all add: u0_def u2_def v0_def v2_def)
  define t1 where "t1 = u0 * v0"
  define t2 where "t2 = u2 * v0 + t1 div ?M"
  define t3 where "t3 = u0 * v2 + t2 mod ?M"
  have t1: "0 \<le> t1" "t1 < 2 ^ 64" "0 \<le> t1 div ?M" "t1 div ?M < ?M"
    using digits_less [of u0 v0 0] b by (simp_all add: t1_def pos_imp_zdiv_nonneg_iff)
  have t2: "0 \<le> t2" "t2 < 2 ^ 64" using digits_less [of u2 v0 "t1 div ?M"] b t1 by (simp_all add: t2_def)
  have t3: "0 \<le> t3" "t3 < 2 ^ 64" using digits_less [of u0 v2 "t2 mod ?M"] b by (simp_all add: t3_def)
  have w: "word_of_int u0 * word_of_int v0 = (word_of_int t1 :: u64)"
    "word_of_int u2 * word_of_int v0 + word_of_int (t1 div ?M) = (word_of_int t2 :: u64)"
    "word_of_int u0 * word_of_int v2 + word_of_int (t2 mod ?M) = (word_of_int t3 :: u64)"
    by (simp_all add: t1_def t2_def t3_def)
  have "uint128_mul64 u v = \<lparr>u128_l = push_bit 32 (word_of_int t3) + word_of_int (t1 mod ?M),
      u128_h = word_of_int u2 * word_of_int v2 + word_of_int (t2 div ?M) + word_of_int (t3 div ?M)\<rparr>"
    unfolding uint128_mul64_def Let_def d w lo32 hi32 [OF t1(1,2)] hi32 [OF t2] hi32 [OF t3] by (rule refl)
  moreover have "(t3 * ?M + t1 mod ?M) div 2 ^ 64 = t3 div ?M"
  proof -
    have "(t3 * ?M + t1 mod ?M) div (?M * ?M) = (t3 * ?M + t1 mod ?M) div ?M div ?M" by (rule zdiv_zmult2_eq) simp
    then show ?thesis by simp
  qed
  ultimately have "u128 (uint128_mul64 u v) = word_of_int ((u2 * v2 + t2 div ?M) * 2 ^ 64 + (t3 * ?M + t1 mod ?M))"
    by (intro u128_carry) (simp_all add: push_bit_eq_mult)
  also have "(u2 * v2 + t2 div ?M) * 2 ^ 64 + (t3 * ?M + t1 mod ?M) = uint u * uint v"

  proof -
    have "uint u = u2 * ?M + u0" "uint v = v2 * ?M + v0" by (simp_all add: u0_def u2_def v0_def v2_def)
    with schoolbook [of u2 v2 v0 u0 ?M] show ?thesis by (simp add: t1_def t2_def t3_def)
  qed
  finally show ?thesis by simp
qed

lemma u128_mul: "u128 (uint128_mul n m) = u128 n * u128 m"
proof -
  let ?p = "uint128_mul64 (u128_l n) (u128_l m)"
  let ?x = "u128_h n * u128_l m + u128_l n * u128_h m"
  let ?hn = "uint (u128_h n)" and ?ln = "uint (u128_l n)" and ?hm = "uint (u128_h m)" and ?lm = "uint (u128_l m)"
  have z: "word_of_int (k * 2 ^ 128) = (0 :: u128)" for k
    using word_of_int_eq_iff [of "k * 2 ^ 128" 0, where 'a = 128] by (simp add: take_bit_eq_mod del: of_int_mult)
  have "uint ?x = (?hn * ?lm + ?ln * ?hm) mod 2 ^ 64" by (simp add: uint_word_ariths mod_simps)
  then have x: "word_of_int (uint ?x * 2 ^ 64) = (word_of_int ((?hn * ?lm + ?ln * ?hm) * 2 ^ 64) :: u128)"
    using mod_mult_join [of "?hn * ?lm + ?ln * ?hm" "2 ^ 64" 0]
    by (simp add: word_of_int_eq_iff take_bit_eq_mod del: of_int_mult of_int_add)
  have "u128 (uint128_mul n m) = word_of_int ((uint (u128_h ?p) + uint ?x) * 2 ^ 64 + uint (u128_l ?p))"
    using uint_bounded [of "u128_l ?p"] by (intro u128_carry) (simp_all add: uint128_mul_def Let_def)
  also have "\<dots> = u128 ?p + word_of_int (uint ?x * 2 ^ 64)"
    by (simp only: u128_eq distrib_right of_int_add add.assoc add.commute [of "word_of_int (uint (u128_l ?p))"])
  also have "\<dots> = word_of_int (?ln * ?lm) + word_of_int ((?hn * ?lm + ?ln * ?hm) * 2 ^ 64)" unfolding x u128_mul64 by simp
  also have "\<dots> = word_of_int (?ln * ?lm + (?hn * ?lm + ?ln * ?hm) * 2 ^ 64 + ?hn * ?hm * 2 ^ 128)"
    using z [of "?hn * ?hm"] by (simp only: of_int_add) simp
  also have "?ln * ?lm + (?hn * ?lm + ?ln * ?hm) * 2 ^ 64 + ?hn * ?hm * 2 ^ 128 = (?hn * 2 ^ 64 + ?ln) * (?hm * 2 ^ 64 + ?lm)"
    by (simp add: algebra_simps)
  finally show ?thesis by (simp only: u128_eq of_int_mult)
qed

lemma u128_band: "u128 (uint128_band a b) = u128 a AND u128 b"
  by (rule bit_word_eqI) (simp add: bit_u128 bit_and_iff uint128_band_def)

lemma u128_bor: "u128 (uint128_bor a b) = u128 a OR u128 b"
  by (rule bit_word_eqI) (simp add: bit_u128 bit_or_iff uint128_bor_def)

lemma uint_u128: "uint (u128 n) = uint (u128_h n) * 2 ^ 64 + uint (u128_l n)"
proof -
  have "uint (u128_h n) * 2 ^ 64 + uint (u128_l n) < 2 ^ 128" "0 \<le> uint (u128_h n) * 2 ^ 64 + uint (u128_l n)"
    using uint_bounded [of "u128_l n"] uint_bounded [of "u128_h n"] by simp_all
  then show ?thesis unfolding u128_eq by (simp add: uint_word_of_int del: of_int_add of_int_mult)
qed

lemma u128_inject: "uint128_eq a b \<longleftrightarrow> u128 a = u128 b"
proof
  assume "u128 a = u128 b"
  then have "bit (u128_l a) i = bit (u128_l b) i" "bit (u128_h a) i = bit (u128_h b) i" if "i < 64" for i
    using that bit_u128 [of a i] bit_u128 [of b i] bit_u128 [of a "i + 64"] bit_u128 [of b "i + 64"] by simp_all
  then show "uint128_eq a b" unfolding uint128_eq_def by (auto intro!: bit_word_eqI)
qed (simp add: uint128_eq_def u128_def)

lemma hi_less: "u128_h a < u128_h b \<Longrightarrow> u128 a < u128 b"
proof -
  assume "u128_h a < u128_h b"
  then have "uint (u128_h a) + 1 \<le> uint (u128_h b)" by (simp add: word_less_def)
  then have "(uint (u128_h a) + 1) * 2 ^ 64 \<le> uint (u128_h b) * 2 ^ 64" by (rule mult_right_mono) simp
  moreover have "uint (u128_l a) < 2 ^ 64" "0 \<le> uint (u128_l b)" using uint_bounded [of "u128_l a"] by simp_all
  ultimately show ?thesis unfolding word_less_def uint_u128 distrib_right by linarith
qed

lemma u128_gt: "uint128_gt a b \<longleftrightarrow> u128 a > u128 b"
proof (cases "u128_h a = u128_h b")
  case True
  then show ?thesis by (simp add: uint128_gt_def word_less_def uint_u128)
next
  case False
  then consider "u128_h a < u128_h b" | "u128_h b < u128_h a" by (meson linorder_neqE)
  then show ?thesis by cases (use hi_less [of a b] hi_less [of b a] in \<open>auto simp: uint128_gt_def\<close>)
qed

lemma u128_lshift:
  assumes "0 < k" "k < 64"
  shows "map_option u128 (uint128_lshift n k) = Some (push_bit k (u128 n))"
proof -
  let ?r = "n\<lparr>u128_h := push_bit k (u128_h n) OR drop_bit (64 - k) (u128_l n), u128_l := push_bit k (u128_l n)\<rparr>"
  have "bit (u128 ?r) i = bit (push_bit k (u128 n)) i" if "i < 128" for i
  proof (cases "i < 64 \<or> k + 64 \<le> i")
    case True
    then show ?thesis using that assms by (auto simp: bit_u128 bit_simps add.commute dest: bit_imp_le_length)
  next
    case False
    then have "64 - k + (i - 64) = i - k" "\<not> k \<le> i - 64" "i - k < 64" "k \<le> i" using assms by linarith+
    with False show ?thesis using that assms by (simp add: bit_u128 bit_simps)
  qed
  then have "u128 ?r = push_bit k (u128 n)" by (auto intro!: bit_word_eqI)
  with assms show ?thesis by (simp add: uint128_lshift_def shl64_def shr64_def)
qed

lemma u128_rshift:
  assumes "0 < k" "k < 64"
  shows "map_option u128 (uint128_rshift n k) = Some (drop_bit k (u128 n))"
proof -
  let ?r = "n\<lparr>u128_l := drop_bit k (u128_l n) OR push_bit (64 - k) (u128_h n), u128_h := drop_bit k (u128_h n)\<rparr>"
  have "bit (u128 ?r) i = bit (drop_bit k (u128 n)) i" if "i < 128" for i
  proof (cases "i < 64 - k \<or> 64 \<le> i")
    case True
    then show ?thesis using that assms by (auto simp: bit_u128 bit_simps add.commute dest: bit_imp_le_length)
  next
    case False
    then have "i - (64 - k) = k + i - 64" "\<not> bit (u128_l n) (k + i)" "\<not> k + i < 64" "64 \<le> k + i"
      using assms by (auto dest: bit_imp_le_length)
    with False show ?thesis using that assms by (simp add: bit_u128 bit_simps)
  qed
  then have "u128 ?r = drop_bit k (u128 n)" by (auto intro!: bit_word_eqI)
  with assms show ?thesis by (simp add: uint128_rshift_def shl64_def shr64_def)
qed

lemma u128_gen_mask:
  assumes "k < 128" "k \<noteq> 64"
  shows "map_option u128 (uint128_gen_mask k) = Some (mask (Suc k))"
proof -
  have m: "push_bit j 1 XOR (push_bit j 1 - 1) = (mask (Suc j) :: u64)" if "j < 64" for j
  proof -
    have "(push_bit j 1 - 1 :: u64) = mask j" by (simp add: mask_eq_exp_minus_1)
    moreover have "push_bit j 1 XOR mask j = (mask (Suc j) :: u64)"
      by (rule bit_word_eqI) (use that in \<open>auto simp: bit_simps\<close>)
    ultimately show ?thesis by simp
  qed
  have ones: "(0xffffffffffffffff :: u64) = - 1" by simp
  show ?thesis
  proof (cases "64 < k")
    case True
    with assms have "uint128_gen_mask k = Some \<lparr>u128_l = - 1, u128_h = mask (Suc (k - 64))\<rparr>"
      using m [of "k - 64"] ones by (simp add: uint128_gen_mask_def shl64_def)
    moreover have "u128 \<lparr>u128_l = - 1, u128_h = mask (Suc (k - 64))\<rparr> = mask (Suc k)"
      by (rule bit_word_eqI) (use True in \<open>auto simp: bit_u128 bit_simps\<close>)
    ultimately show ?thesis by simp
  next
    case False
    with assms have "uint128_gen_mask k = Some \<lparr>u128_l = mask (Suc k), u128_h = 0\<rparr>"
      using m [of k] by (simp add: uint128_gen_mask_def shl64_def)
    moreover have "u128 \<lparr>u128_l = mask (Suc k), u128_h = 0\<rparr> = mask (Suc k)"
      by (rule bit_word_eqI) (use False assms in \<open>auto simp: bit_u128 bit_simps\<close>)
    ultimately show ?thesis by simp
  qed
qed

lemma u128_to_64: "uint128_to_64 a = ucast (u128 a)"
  by (rule bit_word_eqI) (simp add: uint128_to_64_def bit_u128 bit_simps)

lemma u128_new: "u128 (uint128_new u v) = ucast v OR push_bit 64 (ucast u)"
  by (simp add: uint128_new_def u128_def or.commute)

subsection \<open>Properties\<close>

text \<open>
  C14: On pairs of words the operations compute what the compiler's type of 128 bits computes: addition and subtraction
  with their carries, increment, decrement, both multiplications, the bitwise operations and the comparisons, for all values.
\<close>

theorem uint128_emulation:
  "u128 (uint128_add a b) = u128 a + u128 b \<and> u128 (uint128_sub a b) = u128 a - u128 b \<and>
   u128 (uint128_increment a) = u128 a + 1 \<and> u128 (uint128_decrement a) = u128 a - 1 \<and>
   u128 (uint128_mul64 u v) = ucast u * ucast v \<and> u128 (uint128_mul a b) = u128 a * u128 b \<and>
   u128 (uint128_band a b) = u128 a AND u128 b \<and> u128 (uint128_bor a b) = u128 a OR u128 b \<and>
   uint128_eq a b = (u128 a = u128 b) \<and> uint128_gt a b = (u128 a > u128 b) \<and>
   u128 (uint128_new u v) = ucast v OR push_bit 64 (ucast u) \<and> uint128_to_64 a = ucast (u128 a)"
  by (intro conjI u128_add u128_sub u128_increment u128_decrement u128_mul64 u128_mul u128_band u128_bor u128_inject u128_gt
      u128_new u128_to_64)

text \<open>
  The shifts agree with those of the compiler for distances from 1 to 63 only.  From 64 on, they return 0, because the
  word that should be moved is cleared first; by 0, they shift a word by its width.  The mask of \<open>bits\<close> bits has one bit
  more than the one of the compiler's type, and is undefined for 64.
\<close>

theorem uint128_shifts:
  "map_option u128 (uint128_lshift n bits) =
     (if 0 < bits \<and> bits < 64 then Some (push_bit bits (u128 n)) else if 64 \<le> bits \<and> bits < 128 then Some 0 else None) \<and>
   map_option u128 (uint128_rshift n bits) =
     (if 0 < bits \<and> bits < 64 then Some (drop_bit bits (u128 n)) else if 64 \<le> bits \<and> bits < 128 then Some 0 else None) \<and>
   map_option u128 (uint128_gen_mask bits) = (if bits < 128 \<and> bits \<noteq> 64 then Some (mask (bits + 1)) else None)"
proof (intro conjI)
  show "map_option u128 (uint128_lshift n bits) =
     (if 0 < bits \<and> bits < 64 then Some (push_bit bits (u128 n)) else if 64 \<le> bits \<and> bits < 128 then Some 0 else None)"
    by (cases "0 < bits \<and> bits < 64") (auto simp: u128_lshift, auto simp: uint128_lshift_def shl64_def shr64_def u128_def Let_def)
  show "map_option u128 (uint128_rshift n bits) =
     (if 0 < bits \<and> bits < 64 then Some (drop_bit bits (u128 n)) else if 64 \<le> bits \<and> bits < 128 then Some 0 else None)"
    by (cases "0 < bits \<and> bits < 64") (auto simp: u128_rshift, auto simp: uint128_rshift_def shl64_def shr64_def u128_def Let_def)
  show "map_option u128 (uint128_gen_mask bits) = (if bits < 128 \<and> bits \<noteq> 64 then Some (mask (bits + 1)) else None)"
    by (cases "bits < 128 \<and> bits \<noteq> 64") (auto simp: u128_gen_mask, auto simp: uint128_gen_mask_def shl64_def)
qed

end
