(* ===== verification/Server_Time.thy ===== *)
theory Server_Time
  imports Prelude
begin

text \<open>
  Times and time deltas of \<open>src/lib/util/time.h\<close>: nanoseconds in a signed integer of 64 bits, as an \<open>int\<close> within
  its bounds.  Results that do not fit are replaced by one of the bounds.
\<close>

type_synonym fr_time_t = int
type_synonym fr_time_delta_t = int

definition INT64_MAX :: int where
  "INT64_MAX = 2 ^ 63 - 1"

definition INT64_MIN :: int where
  "INT64_MIN = - (2 ^ 63)"

definition int64 :: "int \<Rightarrow> bool" where
  "int64 x \<longleftrightarrow> INT64_MIN \<le> x \<and> x \<le> INT64_MAX"

text \<open>The checked arithmetic of \<open>math.h\<close>; \<open>None\<close> is an overflow.\<close>

definition fr_add :: "int \<Rightarrow> int \<Rightarrow> int option" where
  "fr_add a b = (if int64 (a + b) then Some (a + b) else None)"

definition fr_sub :: "int \<Rightarrow> int \<Rightarrow> int option" where
  "fr_sub a b = (if int64 (a - b) then Some (a - b) else None)"

definition fr_multiply :: "int \<Rightarrow> int \<Rightarrow> int option" where
  "fr_multiply a b = (if int64 (a * b) then Some (a * b) else None)"

definition fr_time_op_ispos :: "bool \<Rightarrow> bool \<Rightarrow> bool \<Rightarrow> bool" where
  "fr_time_op_ispos a op b \<longleftrightarrow> ((a = op) = b)"

definition fr_time_overflow_ispos :: "int \<Rightarrow> bool \<Rightarrow> int \<Rightarrow> bool" where
  "fr_time_overflow_ispos a op b = fr_time_op_ispos (a \<ge> 0) op (b \<ge> 0)"

definition fr_time_overflow_add :: "int \<Rightarrow> int \<Rightarrow> int" where
  "fr_time_overflow_add a b = (if fr_time_overflow_ispos a True b then INT64_MAX else INT64_MIN)"

definition fr_time_overflow_sub :: "int \<Rightarrow> int \<Rightarrow> int" where
  "fr_time_overflow_sub a b = (if fr_time_overflow_ispos a False b then INT64_MAX else INT64_MIN)"

definition fr_time_add :: "fr_time_t \<Rightarrow> fr_time_delta_t \<Rightarrow> fr_time_t" where
  "fr_time_add a b = (case fr_add a b of None \<Rightarrow> fr_time_overflow_add a b | Some out \<Rightarrow> out)"

definition fr_time_sub :: "fr_time_t \<Rightarrow> fr_time_delta_t \<Rightarrow> fr_time_t" where
  "fr_time_sub a b = (case fr_sub a b of None \<Rightarrow> fr_time_overflow_sub a b | Some out \<Rightarrow> out)"

definition fr_time_delta_div :: "fr_time_delta_t \<Rightarrow> fr_time_delta_t \<Rightarrow> fr_time_delta_t" where
  "fr_time_delta_div a b = (if b = 0 then 0 else sgn (a * b) * (\<bar>a\<bar> div \<bar>b\<bar>))"

definition fr_time_delta_mul :: "fr_time_delta_t \<Rightarrow> int \<Rightarrow> fr_time_delta_t" where
  "fr_time_delta_mul a b = (case fr_multiply a b of None \<Rightarrow> a | Some out \<Rightarrow> out)"

definition fr_time_delta_from_sec :: "int \<Rightarrow> fr_time_delta_t" where
  "fr_time_delta_from_sec sec =
     (case fr_multiply sec 1000000000 of
        None \<Rightarrow> if sec > 0 then INT64_MAX else INT64_MIN
      | Some out \<Rightarrow> out)"

definition fr_time_delta_from_usec :: "int \<Rightarrow> fr_time_delta_t" where
  "fr_time_delta_from_usec usec =
     (case fr_multiply usec 1000 of
        None \<Rightarrow> if usec > 0 then INT64_MAX else INT64_MIN
      | Some out \<Rightarrow> out)"

definition fr_time_delta_to_usec :: "fr_time_delta_t \<Rightarrow> int" where
  "fr_time_delta_to_usec delta = sgn delta * (\<bar>delta\<bar> div 1000)"

lemmas int64_simps = int64_def INT64_MAX_def INT64_MIN_def

lemma fr_time_add_exact: "int64 (a + b) \<Longrightarrow> fr_time_add a b = a + b"
  by (simp add: fr_time_add_def fr_add_def)

lemma fr_time_add_high: "0 \<le> a \<Longrightarrow> 0 \<le> b \<Longrightarrow> INT64_MAX < a + b \<Longrightarrow> fr_time_add a b = INT64_MAX"
  by (simp add: fr_time_add_def fr_add_def fr_time_overflow_add_def fr_time_overflow_ispos_def fr_time_op_ispos_def int64_def)

text \<open>
  C37: Adding and subtracting times is exact where the result fits, and too large results become the largest time.  Too small
  ones become the largest time as well: the direction of an overflow is computed wrongly when the first operand is negative.
\<close>

theorem fr_time_saturates:
  assumes "int64 a" "int64 b"
  shows "fr_time_add a b = (if a + b < INT64_MIN then INT64_MAX else min (a + b) INT64_MAX) \<and>
    fr_time_sub a b = (if a - b < INT64_MIN then INT64_MAX else min (a - b) INT64_MAX)"
  using assms
  by (auto simp: fr_time_add_def fr_add_def fr_time_overflow_add_def fr_time_sub_def fr_sub_def fr_time_overflow_sub_def
      fr_time_overflow_ispos_def fr_time_op_ispos_def int64_simps min_def)

theorem fr_time_saturates_witness:
  "fr_time_add (- (2 ^ 63)) (- 1) = 2 ^ 63 - 1 \<and> fr_time_sub 5 7 = - 2"
  using fr_time_saturates [of "- (2 ^ 63)" "- 1"] fr_time_saturates [of 5 7] by (simp add: int64_simps)

end
