(* ===== verification/Retry.thy ===== *)
theory Retry
  imports Server_Time Uint128
begin

text \<open>
  The retransmission timer of \<open>src/lib/util/retry.c\<close>, with the exponential backoff of RFC 5080.  The random numbers are
  a stream of which each call takes some; nothing is assumed of them.  The loop that skips timers that were missed may run
  forever, which is \<open>None\<close>.
\<close>

record fr_retry_config_t =
  irt :: fr_time_delta_t
  mrt :: fr_time_delta_t
  mrd :: fr_time_delta_t
  mrc :: u32

datatype fr_retry_state_t = FR_RETRY_CONTINUE | FR_RETRY_MRC | FR_RETRY_MRD

record fr_retry_t =
  config :: fr_retry_config_t
  r_start :: fr_time_t
  r_end :: fr_time_t
  r_next :: fr_time_t
  r_updated :: fr_time_t
  r_rt :: fr_time_delta_t
  r_count :: u32
  r_replies :: u32
  r_state :: fr_retry_state_t

subsection \<open>Operations\<close>

text \<open>\<open>scale\<close> is a fixed-point number with 32 bits after the point; the product has 128 bits.\<close>

definition scale_delay :: "u64 \<Rightarrow> fr_time_delta_t \<Rightarrow> fr_time_delta_t" where
  "scale_delay scale d =
     (let delay = ucast scale * word_of_int d :: u128
      in sint (ucast (drop_bit 32 delay) :: u64))"

definition fr_retry_init :: "u32 \<Rightarrow> fr_time_t \<Rightarrow> fr_retry_config_t \<Rightarrow> fr_retry_t" where
  "fr_retry_init rnd now cfg =
     (let end0 = fr_time_add now (mrd cfg);
          end1 = (if now = end0 then
                    if mrc cfg = 0 then fr_time_add now (fr_time_delta_from_sec 86400)
                    else fr_time_add now (fr_time_delta_mul (mrt cfg) (uint (mrc cfg)))
                  else end0);
          r = \<lparr>config = cfg, r_start = now, r_end = end1, r_next = 0, r_updated = now, r_rt = 0, r_count = 1,
               r_replies = 0, r_state = FR_RETRY_CONTINUE\<rparr>
      in if mrc cfg = 1 then r\<lparr>r_next := end1, r_rt := mrd cfg\<rparr>
         else
           let scale = ucast rnd + 2 ^ 32 - 2 ^ 31;
               rt = scale_delay scale (irt cfg);
               next = fr_time_add now rt
           in r\<lparr>r_rt := rt, r_next := if next > end1 then end1 else next\<rparr>)"

text \<open>The next interval, and how many random numbers it has taken.\<close>

definition next_rt :: "(nat \<Rightarrow> u32) \<Rightarrow> nat \<Rightarrow> fr_retry_t \<Rightarrow> fr_time_delta_t \<times> nat" where
  "next_rt rand i r =
     (let scale = ucast (rand i) - 2 ^ 31 + 2 ^ 33;
          rt = scale_delay scale (r_rt r)
      in if mrt (config r) > 0 \<and> rt > mrt (config r)
         then (scale_delay (ucast (rand (i + 1)) - 2 ^ 31 + 2 ^ 32) (mrt (config r)), i + 2)
         else (rt, i + 1))"

partial_function (option) retry_redo ::
  "(nat \<Rightarrow> u32) \<Rightarrow> fr_time_t \<Rightarrow> nat \<Rightarrow> fr_retry_t \<Rightarrow> (fr_retry_state_t \<times> nat \<times> fr_retry_t) option" where
  "retry_redo rand now i r =
     (if now \<ge> r_end r then Some (FR_RETRY_MRD, i, r\<lparr>r_state := FR_RETRY_MRD\<rparr>)
      else
        let rt = fst (next_rt rand i r);
            i' = snd (next_rt rand i r);
            next = fr_time_add (r_next r) rt;
            r' = r\<lparr>r_rt := rt, r_next := next\<rparr>
        in if fr_time_add next (fr_time_delta_div rt 2) < now then retry_redo rand now i' r'
           else Some (FR_RETRY_CONTINUE, i', if next > r_end r then r'\<lparr>r_next := r_end r\<rparr> else r'))"

definition fr_retry_next ::
  "(nat \<Rightarrow> u32) \<Rightarrow> nat \<Rightarrow> fr_retry_t \<Rightarrow> fr_time_t \<Rightarrow> (fr_retry_state_t \<times> nat \<times> fr_retry_t) option" where
  "fr_retry_next rand i r now =
     (let r = r\<lparr>r_count := r_count r + 1, r_updated := now\<rparr>
      in if mrc (config r) \<noteq> 0 \<and> r_count r > mrc (config r) then
           if mrc (config r) = 1 then Some (FR_RETRY_MRD, i, r\<lparr>r_state := FR_RETRY_MRD\<rparr>)
           else Some (FR_RETRY_MRC, i, r\<lparr>r_state := FR_RETRY_MRC\<rparr>)
         else retry_redo rand now i r)"

subsection \<open>Intervals\<close>

lemma scale_delay_eq:
  assumes "0 \<le> d" "d < 2 ^ 61" "uint s < 2 ^ 34"
  shows "scale_delay s d = (uint s * d) div 2 ^ 32"
proof -
  let ?p = "uint s * d"
  have "?p < 2 ^ 34 * 2 ^ 61" using assms by (intro mult_strict_mono) simp_all
  then have p: "0 \<le> ?p" "?p < 2 ^ 95" using assms(1) by simp_all
  have "ucast s * word_of_int d = (word_of_int ?p :: u128)" by simp
  then have "uint (ucast s * word_of_int d :: u128) = ?p" using p by (simp add: uint_word_of_int del: of_int_mult)
  then have "uint (drop_bit 32 (ucast s * word_of_int d :: u128)) = ?p div 2 ^ 32"
    using p by (subst unsigned_drop_bit_eq) (simp add: drop_bit_eq_div take_bit_eq_mod)
  moreover have "0 \<le> ?p div 2 ^ 32" "?p div 2 ^ 32 < 2 ^ 63" using p by (simp_all add: pos_imp_zdiv_nonneg_iff)
  ultimately show ?thesis
    by (simp add: scale_delay_def Let_def signed_ucast_eq signed_take_bit_int_eq_self take_bit_eq_mod)
qed

text \<open>Without integers of 128 bits in the compiler, the delay is the same.\<close>

lemma scale_delay_emulated:
  assumes "0 \<le> d" "d < 2 ^ 63"
  shows "map_option (\<lambda>x. sint (uint128_to_64 x)) (uint128_rshift (uint128_mul64 s (word_of_int d)) 32) = Some (scale_delay s d)"
proof -
  obtain x where x: "uint128_rshift (uint128_mul64 s (word_of_int d)) 32 = Some x"
      "u128 x = drop_bit 32 (u128 (uint128_mul64 s (word_of_int d)))"
    using u128_rshift [of 32 "uint128_mul64 s (word_of_int d)"] by auto
  have "ucast (word_of_int d :: u64) = (word_of_int d :: u128)"
    using assms by (simp add: unsigned_of_int take_bit_int_eq_self ucast_eq)
  then have "u128 x = drop_bit 32 (ucast s * word_of_int d)" using x(2) by (simp only: u128_mul64)
  with x(1) show ?thesis by (simp add: u128_to_64 scale_delay_def Let_def)
qed

lemma uint_scale:
  "uint (ucast (rnd :: u32) - 2 ^ 31 + 2 ^ 33 :: u64) = uint rnd + 3 * 2 ^ 31"
  "uint (ucast rnd - 2 ^ 31 + 2 ^ 32 :: u64) = uint rnd + 1 * 2 ^ 31"
  "ucast rnd + 2 ^ 32 - 2 ^ 31 = (ucast rnd - 2 ^ 31 + 2 ^ 32 :: u64)"
proof -
  have lt: "0 \<le> uint rnd" "uint rnd < 2 ^ 32" using uint_bounded [of rnd] by simp_all
  then have u: "uint (ucast rnd :: u64) = uint rnd" by (simp add: unsigned_ucast_eq take_bit_int_eq_self)
  have "ucast rnd - 2 ^ 31 + 2 ^ 33 = (ucast rnd + 3 * 2 ^ 31 :: u64)" "ucast rnd - 2 ^ 31 + 2 ^ 32 = (ucast rnd + 2 ^ 31 :: u64)" by simp_all
  then show "uint (ucast rnd - 2 ^ 31 + 2 ^ 33 :: u64) = uint rnd + 3 * 2 ^ 31"
    "uint (ucast rnd - 2 ^ 31 + 2 ^ 32 :: u64) = uint rnd + 1 * 2 ^ 31"
    using lt by (simp_all add: uint_word_ariths u)
qed simp

lemma fixed_point:
  fixes k R d :: int
  assumes "0 \<le> R" "R < 2 ^ 32" "0 \<le> d"
  shows "k * d div 2 \<le> ((R + k * 2 ^ 31) * d) div 2 ^ 32" "2 * (((R + k * 2 ^ 31) * d) div 2 ^ 32) \<le> (k + 2) * d"
proof -
  let ?p = "(R + k * 2 ^ 31) * d"
  have "k * d div 2 = (k * d * 2 ^ 31) div (2 * 2 ^ 31)" by (subst div_mult_mult2) simp_all
  also have "\<dots> \<le> ?p div (2 * 2 ^ 31)" using assms by (intro zdiv_mono1) (simp_all add: algebra_simps)
  finally show "k * d div 2 \<le> ?p div 2 ^ 32" by simp
  have "R * d \<le> 2 ^ 32 * d" using assms by (intro mult_right_mono) simp_all
  moreover have "?p div 2 ^ 32 * 2 ^ 32 \<le> ?p" using minus_mod_eq_div_mult [of ?p "2 ^ 32"] pos_mod_sign [of "2 ^ 32" ?p] by simp
  ultimately show "2 * (?p div 2 ^ 32) \<le> (k + 2) * d" by (simp add: algebra_simps)
qed

text \<open>The next interval is between one and a half times and two and a half times the last one.\<close>

lemma backoff:
  fixes rnd :: u32
  assumes "0 \<le> d" "d < 2 ^ 61"
  shows "3 * d div 2 \<le> scale_delay (ucast rnd - 2 ^ 31 + 2 ^ 33) d" "2 * scale_delay (ucast rnd - 2 ^ 31 + 2 ^ 33) d \<le> 5 * d"
proof -
  have lt: "0 \<le> uint rnd" "uint rnd < 2 ^ 32" using uint_bounded [of rnd] by simp_all
  have "scale_delay (ucast rnd - 2 ^ 31 + 2 ^ 33) d = ((uint rnd + 3 * 2 ^ 31) * d) div 2 ^ 32"
    by (subst scale_delay_eq [OF assms]) (use lt uint_scale(1) [of rnd] in simp_all)
  then show "3 * d div 2 \<le> scale_delay (ucast rnd - 2 ^ 31 + 2 ^ 33) d" "2 * scale_delay (ucast rnd - 2 ^ 31 + 2 ^ 33) d \<le> 5 * d"
    using fixed_point [OF lt assms(1), of 3] by (simp_all del: power_numeral)
qed

text \<open>At the start and at the upper limit it is between half and one and a half times that.\<close>

lemma jitter:
  fixes rnd :: u32
  assumes "0 \<le> d" "d < 2 ^ 61"
  shows "d div 2 \<le> scale_delay (ucast rnd - 2 ^ 31 + 2 ^ 32) d" "2 * scale_delay (ucast rnd - 2 ^ 31 + 2 ^ 32) d \<le> 3 * d"
proof -
  have lt: "0 \<le> uint rnd" "uint rnd < 2 ^ 32" using uint_bounded [of rnd] by simp_all
  have "scale_delay (ucast rnd - 2 ^ 31 + 2 ^ 32) d = ((uint rnd + 1 * 2 ^ 31) * d) div 2 ^ 32"
    by (subst scale_delay_eq [OF assms]) (use lt uint_scale(2) [of rnd] in simp_all)
  then show "d div 2 \<le> scale_delay (ucast rnd - 2 ^ 31 + 2 ^ 32) d" "2 * scale_delay (ucast rnd - 2 ^ 31 + 2 ^ 32) d \<le> 3 * d"
    using fixed_point [OF lt assms(1), of 1] by (simp_all del: power_numeral)
qed

definition cfg_ok :: "fr_retry_config_t \<Rightarrow> bool" where
  "cfg_ok c \<longleftrightarrow> mrt c \<le> 0 \<or> 2 \<le> mrt c \<and> mrt c \<le> 2 ^ 59"

lemma next_rt_bounds:
  assumes "cfg_ok (config r)" "1 \<le> r_rt r" "r_rt r < 2 ^ 60"
  shows "1 \<le> fst (next_rt rand i r)" "2 * fst (next_rt rand i r) \<le> 5 * 2 ^ 60"
    "0 < mrt (config r) \<Longrightarrow> 2 * fst (next_rt rand i r) \<le> 3 * mrt (config r)"
    "mrt (config r) \<le> 0 \<Longrightarrow> 3 * r_rt r div 2 \<le> fst (next_rt rand i r) \<and> 2 * fst (next_rt rand i r) \<le> 5 * r_rt r"
proof -
  have r: "0 \<le> r_rt r" using assms(2) by simp
  have "r_rt r < 2 ^ 61" using assms(3) by simp
  note b = backoff [OF r this, of "rand i"]
  note j = jitter [of "mrt (config r)" "rand (i + 1)"]
  show "1 \<le> fst (next_rt rand i r)" "2 * fst (next_rt rand i r) \<le> 5 * 2 ^ 60"
    "0 < mrt (config r) \<Longrightarrow> 2 * fst (next_rt rand i r) \<le> 3 * mrt (config r)"
    "mrt (config r) \<le> 0 \<Longrightarrow> 3 * r_rt r div 2 \<le> fst (next_rt rand i r) \<and> 2 * fst (next_rt rand i r) \<le> 5 * r_rt r"
    using b j assms unfolding next_rt_def cfg_ok_def Let_def by (auto split: if_splits)
qed

text \<open>What the loop needs to end: a positive interval, and times that are far from the bounds.\<close>

definition timer_ok :: "fr_retry_t \<Rightarrow> bool" where
  "timer_ok r \<longleftrightarrow> cfg_ok (config r) \<and> 1 \<le> r_rt r \<and> r_rt r < 2 ^ 60 \<and> 0 \<le> r_next r \<and> r_end r \<le> 2 ^ 59"

lemma retry_redo_mrd: "r_end r \<le> now \<Longrightarrow> retry_redo rand now i r = Some (FR_RETRY_MRD, i, r\<lparr>r_state := FR_RETRY_MRD\<rparr>)"
  by (subst retry_redo.simps) simp

lemma retry_redo_returns:
  assumes "timer_ok r" "r_next r \<le> now" "now < r_end r"
  shows "\<exists>i' rt next. retry_redo rand now i r = Some (FR_RETRY_CONTINUE, i', r\<lparr>r_rt := rt, r_next := next\<rparr>) \<and>
    1 \<le> rt \<and> r_next r < next \<and> next \<le> r_end r \<and> (next < r_end r \<longrightarrow> now \<le> next + rt div 2 \<and> rt \<le> 2 ^ 59)"
  using assms
proof (induction "nat (now - r_next r)" arbitrary: i r rule: less_induct)
  case less
  let ?rt = "fst (next_rt rand i r)" and ?next = "r_next r + fst (next_rt rand i r)"
  have ok: "cfg_ok (config r)" "1 \<le> r_rt r" "r_rt r < 2 ^ 60" "0 \<le> r_next r" "r_end r \<le> 2 ^ 59"
    using less.prems(1) by (simp_all add: timer_ok_def)
  note rt = next_rt_bounds(1,2) [OF ok(1-3), of rand i]
  have half: "0 \<le> ?rt div 2" "?rt div 2 \<le> ?rt" using rt(1) by simp_all
  have "int64 ?next" "int64 (?next + ?rt div 2)" using rt half ok less.prems(2,3) by (simp_all add: int64_simps)
  moreover have "fr_time_delta_div ?rt 2 = ?rt div 2" using rt(1) by (simp add: fr_time_delta_div_def sgn_mult)
  ultimately have add: "fr_time_add (r_next r) ?rt = ?next" "fr_time_add ?next (fr_time_delta_div ?rt 2) = ?next + ?rt div 2"
    by (simp_all add: fr_time_add_exact)
  let ?r = "r\<lparr>r_rt := ?rt, r_next := ?next\<rparr>"
  show ?case
  proof (cases "?next + ?rt div 2 < now")
    case True
    then have redo: "retry_redo rand now i r = retry_redo rand now (snd (next_rt rand i r)) ?r"
      using less.prems(3) by (subst retry_redo.simps) (simp add: add Let_def)
    have "timer_ok ?r" using ok rt True less.prems(3) by (simp add: timer_ok_def)
    moreover have "nat (now - r_next ?r) < nat (now - r_next r)" "r_next ?r \<le> now" using True rt(1) ok(4) by simp_all
    ultimately obtain i' rt' next' where "retry_redo rand now (snd (next_rt rand i r)) ?r =
        Some (FR_RETRY_CONTINUE, i', ?r\<lparr>r_rt := rt', r_next := next'\<rparr>)"
      "1 \<le> rt'" "?next < next'" "next' \<le> r_end r" "next' < r_end r \<longrightarrow> now \<le> next' + rt' div 2 \<and> rt' \<le> 2 ^ 59"
      using less.hyps [of ?r "snd (next_rt rand i r)"] less.prems(3) by auto
    then show ?thesis using redo rt(1) by (intro exI [of _ i'] exI [of _ rt'] exI [of _ next']) simp
  next
    case False
    then have redo: "retry_redo rand now i r = Some (FR_RETRY_CONTINUE, snd (next_rt rand i r),
        r\<lparr>r_rt := ?rt, r_next := min ?next (r_end r)\<rparr>)"
      using less.prems(3) by (subst retry_redo.simps) (simp add: add min_def Let_def)
    show ?thesis using redo False rt(1) ok less.prems
      by (intro exI [of _ "snd (next_rt rand i r)"] exI [of _ ?rt] exI [of _ "min ?next (r_end r)"]) (simp add: min_def)
  qed
qed

text \<open>
  A timer after \<open>fr_retry_init\<close> or a call of \<open>fr_retry_next\<close> that has returned \<open>FR_RETRY_CONTINUE\<close>: where the interval is
  large, the end comes next.
\<close>

definition retry_ok :: "fr_retry_t \<Rightarrow> bool" where
  "retry_ok r \<longleftrightarrow> cfg_ok (config r) \<and> 1 \<le> r_rt r \<and> 0 \<le> r_next r \<and> r_next r \<le> r_end r \<and> r_end r \<le> 2 ^ 59 \<and>
     (r_next r < r_end r \<longrightarrow> r_rt r \<le> 2 ^ 59)"

lemma retry_next_cases:
  assumes "retry_ok r" "r_next r \<le> now"
  obtains
    (MRC) st where "mrc (config r) \<noteq> 0" "r_count r + 1 > mrc (config r)" "st \<noteq> FR_RETRY_CONTINUE"
      "fr_retry_next rand i r now = Some (st, i, r\<lparr>r_count := r_count r + 1, r_updated := now, r_state := st\<rparr>)"
  | (MRD) "r_end r \<le> now"
      "fr_retry_next rand i r now = Some (FR_RETRY_MRD, i, r\<lparr>r_count := r_count r + 1, r_updated := now, r_state := FR_RETRY_MRD\<rparr>)"
  | (CONTINUE) i' rt nxt where "now < r_end r" "mrc (config r) \<noteq> 0 \<longrightarrow> r_count r + 1 \<le> mrc (config r)"
      "fr_retry_next rand i r now = Some (FR_RETRY_CONTINUE, i', r\<lparr>r_count := r_count r + 1, r_updated := now, r_rt := rt, r_next := nxt\<rparr>)"
      "1 \<le> rt" "r_next r < nxt" "nxt \<le> r_end r" "nxt < r_end r \<longrightarrow> now \<le> nxt + rt div 2 \<and> rt \<le> 2 ^ 59"
proof (cases "mrc (config r) \<noteq> 0 \<and> r_count r + 1 > mrc (config r)")
  case True
  then show ?thesis by (cases "mrc (config r) = 1") (auto simp: fr_retry_next_def Let_def intro: MRC)
next
  case False
  let ?r = "r\<lparr>r_count := r_count r + 1, r_updated := now\<rparr>"
  have redo: "fr_retry_next rand i r now = retry_redo rand now i ?r" using False by (auto simp: fr_retry_next_def Let_def)
  show ?thesis
  proof (cases "r_end r \<le> now")
    case True
    then show ?thesis using redo retry_redo_mrd [of ?r now rand i] by (intro MRD) simp_all
  next
    case before: False
    have "timer_ok ?r" "r_next ?r \<le> now" "now < r_end ?r" using assms before by (auto simp: retry_ok_def timer_ok_def)
    then obtain i' rt nxt where "retry_redo rand now i ?r = Some (FR_RETRY_CONTINUE, i', ?r\<lparr>r_rt := rt, r_next := nxt\<rparr>)"
      "1 \<le> rt" "r_next r < nxt" "nxt \<le> r_end r" "nxt < r_end r \<longrightarrow> now \<le> nxt + rt div 2 \<and> rt \<le> 2 ^ 59"
      using retry_redo_returns [of ?r now rand i] by auto
    with False before redo show ?thesis by (intro CONTINUE [of i' nxt rt]) auto
  qed
qed

lemma retry_init_ok:
  assumes "cfg_ok cfg" "2 \<le> irt cfg" "irt cfg \<le> 2 ^ 58" "mrc cfg \<noteq> 1" "0 \<le> now"
    "now < r_end (fr_retry_init rnd now cfg)" "r_end (fr_retry_init rnd now cfg) \<le> 2 ^ 59"
  shows "retry_ok (fr_retry_init rnd now cfg)" "now < r_next (fr_retry_init rnd now cfg)"
proof -
  let ?r = "fr_retry_init rnd now cfg" and ?rt = "scale_delay (ucast rnd - 2 ^ 31 + 2 ^ 32) (irt cfg)"
  have "0 \<le> irt cfg" "irt cfg < 2 ^ 61" using assms(2,3) by simp_all
  note j = jitter [OF this, of rnd]
  have rt: "1 \<le> ?rt" "?rt \<le> 2 ^ 59" using j assms(2,3) by simp_all
  then have add: "fr_time_add now ?rt = now + ?rt" using assms(5-7) by (intro fr_time_add_exact) (simp add: int64_simps)
  have "r_rt ?r = ?rt" "r_next ?r = min (now + ?rt) (r_end ?r)" "config ?r = cfg"
    using assms(4) add by (simp_all add: fr_retry_init_def Let_def uint_scale(3) [unfolded power_numeral] min_def)
  with rt assms show "retry_ok ?r" "now < r_next ?r" by (simp_all add: retry_ok_def)
qed

subsection \<open>The whole retransmission\<close>

text \<open>
  The timer fires at \<open>next\<close> or later; \<open>late\<close> is by how much.  The number is the most calls of \<open>fr_retry_next\<close> that are
  made; \<open>None\<close> if the retransmission still goes on after them.
\<close>

fun timer_run :: "(nat \<Rightarrow> u32) \<Rightarrow> (nat \<Rightarrow> fr_time_delta_t) \<Rightarrow> nat \<Rightarrow> nat \<Rightarrow> fr_retry_t \<Rightarrow> (fr_retry_state_t \<times> fr_retry_t) option" where
  "timer_run rand late 0 i r = None"
| "timer_run rand late (Suc n) i r =
     (case fr_retry_next rand i r (r_next r + late n) of
        None \<Rightarrow> None
      | Some (st, i', r') \<Rightarrow> if st = FR_RETRY_CONTINUE then timer_run rand late n i' r' else Some (st, r'))"

lemma timer_run_ends:
  assumes "retry_ok r" "\<And>k. 0 \<le> late k"
    "r_end r - r_next r < int n \<or> mrc (config r) \<noteq> 0 \<and> r_count r \<le> mrc (config r) \<and> mrc (config r) < 0xffffffff \<and>
      unat (mrc (config r)) - unat (r_count r) < n"
  shows "\<exists>st r'. timer_run rand late n i r = Some (st, r') \<and> st \<noteq> FR_RETRY_CONTINUE \<and> r_state r' = st"
  using assms(1,3)
proof (induction n arbitrary: i r)
  case 0
  then show ?case by (auto simp: retry_ok_def)
next
  case (Suc n)
  have late: "r_next r \<le> r_next r + late n" using assms(2) by simp
  show ?case
  proof (cases rule: retry_next_cases [OF Suc.prems(1) late, where rand = rand and i = i, case_names MRC MRD CONTINUE])
    case (CONTINUE i' rt nxt)
    let ?r = "r\<lparr>r_count := r_count r + 1, r_updated := r_next r + late n, r_rt := rt, r_next := nxt\<rparr>"
    have "retry_ok ?r" using Suc.prems(1) CONTINUE by (simp add: retry_ok_def)
    moreover have "r_end ?r - r_next ?r < int n \<or> mrc (config ?r) \<noteq> 0 \<and> r_count ?r \<le> mrc (config ?r) \<and>
        mrc (config ?r) < 0xffffffff \<and> unat (mrc (config ?r)) - unat (r_count ?r) < n"
      using Suc.prems(2)
    proof
      assume c: "mrc (config r) \<noteq> 0 \<and> r_count r \<le> mrc (config r) \<and> mrc (config r) < 0xffffffff \<and>
        unat (mrc (config r)) - unat (r_count r) < Suc n"
      then have le: "r_count r + 1 \<le> mrc (config r)" using CONTINUE(2) by simp
      have "unat (r_count r + 1) = unat (r_count r) + 1"
        using c by (simp add: unat_word_ariths word_less_nat_alt word_le_nat_alt)
      with le c have "unat (mrc (config r)) - unat (r_count r + 1) < n" by (auto simp: word_le_nat_alt)
      with c le show ?thesis by simp
    qed (use CONTINUE in simp)
    ultimately show ?thesis using Suc.IH [of ?r i'] CONTINUE(3) by simp
  qed simp_all
qed

text \<open>An interval of 0 stays 0.\<close>

definition stalled :: "fr_time_t \<Rightarrow> fr_retry_t \<Rightarrow> bool" where
  "stalled now r \<longleftrightarrow> r_rt r = 0 \<and> 0 \<le> mrt (config r) \<and> int64 (r_next r) \<and> r_next r < now \<and> now < r_end r"

lemma stalled_step:
  assumes "stalled now r"
  shows "next_rt rand i r = (0, i + 1)" "fr_time_add (r_next r) 0 = r_next r" "fr_time_delta_div 0 2 = 0"
    "r\<lparr>r_rt := 0, r_next := r_next r\<rparr> = r"
  using assms by (simp_all add: stalled_def next_rt_def scale_delay_def fr_time_add_exact fr_time_delta_div_def)

lemma retry_redo_stalled:
  assumes "stalled now r"
  shows "retry_redo rand now i r = None"
proof (rule ccontr)
  assume "retry_redo rand now i r \<noteq> None"
  then obtain y where "retry_redo rand now i r = Some y" by blast
  then have "stalled now r \<longrightarrow> False"
  proof (rule retry_redo.raw_induct [rotated])
    fix f rand now i r y
    assume ih: "\<And>rand now i r y. f rand now i r = Some y \<Longrightarrow> stalled now r \<longrightarrow> False"
      and b: "(if r_end r \<le> now then Some (FR_RETRY_MRD, i, r\<lparr>r_state := FR_RETRY_MRD\<rparr>)
        else let rt = fst (next_rt rand i r); i' = snd (next_rt rand i r); next = fr_time_add (r_next r) rt;
               r' = r\<lparr>r_rt := rt, r_next := next\<rparr>
             in if fr_time_add next (fr_time_delta_div rt 2) < now then f rand now i' r'
                else Some (FR_RETRY_CONTINUE, i', if r_end r < next then r'\<lparr>r_next := r_end r\<rparr> else r')) = Some y"
    show "stalled now r \<longrightarrow> False"
    proof
      assume st: "stalled now r"
      then have "\<not> r_end r \<le> now" "r_next r < now" by (simp_all add: stalled_def)
      then have "f rand now (i + 1) r = Some y" using b unfolding Let_def stalled_step [OF st] fst_conv snd_conv by simp
      from ih [OF this] st show False by simp
    qed
  qed
  with assms show False by simp
qed

subsection \<open>Properties\<close>



text \<open>A timer that starts at 0, for two seconds and every half second, for the examples.\<close>

definition example_cfg :: fr_retry_config_t where
  "example_cfg = \<lparr>irt = 500000000, mrt = 0, mrd = 2000000000, mrc = 3\<rparr>"

lemma example_timer:
  "retry_ok (fr_retry_init 0 0 example_cfg)" "r_end (fr_retry_init 0 0 example_cfg) = 2000000000"
  "r_next (fr_retry_init 0 0 example_cfg) \<le> 1900000000"
  by (simp_all add: fr_retry_init_def example_cfg_def Let_def fr_time_add_def fr_add_def int64_simps scale_delay_def retry_ok_def cfg_ok_def)



text \<open>
  With an interval of 0, \<open>fr_retry_next\<close> never returns once a timer has been missed.
\<close>

theorem retry_zero_interval:
  assumes "r_rt r = 0" "0 \<le> mrt (config r)" "mrc (config r) = 0" "int64 (r_next r)" "r_next r < now" "now < r_end r"
  shows "fr_retry_next rand i r now = None"
  using assms retry_redo_stalled [of now "r\<lparr>r_count := r_count r + 1, r_updated := now\<rparr>" rand i]
  by (simp add: fr_retry_next_def stalled_def)

theorem retry_zero_interval_witness:
  "fr_retry_next (\<lambda>k. 5) 0 (fr_retry_init 5 0 \<lparr>irt = 0, mrt = 0, mrd = 2000000000, mrc = 0\<rparr>) 1000000000 = None"
  by (rule retry_zero_interval)
    (simp_all add: fr_retry_init_def Let_def fr_time_add_def fr_add_def int64_simps scale_delay_def)

text \<open>
  C39: A configuration that limits only the number of packets, without a longest interval and without a longest duration, sends no
  second packet: the end of the retransmission is its start.
\<close>

theorem retry_count_only:
  assumes "mrd cfg = 0" "mrt cfg = 0" "1 < mrc cfg" "int64 now" "now \<le> now'"
  shows "r_next (fr_retry_init rnd now cfg) \<le> now \<and>
    (\<exists>i' r'. fr_retry_next rand i (fr_retry_init rnd now cfg) now' = Some (FR_RETRY_MRD, i', r'))"
proof -
  let ?r = "fr_retry_init rnd now cfg"
  have add: "fr_time_add now 0 = now" "fr_time_delta_mul 0 k = 0" for k
    using assms(4) by (simp_all add: fr_time_add_exact fr_time_delta_mul_def fr_multiply_def int64_simps)
  then have r: "r_end ?r = now" "r_next ?r \<le> now" "r_count ?r = 1" "config ?r = cfg"
    using assms(1-3) by (auto simp: fr_retry_init_def Let_def)
  have "\<not> r_count ?r + 1 > mrc cfg" using assms(3) r(3) by (simp add: word_less_nat_alt)
  then have "fr_retry_next rand i ?r now' = retry_redo rand now' i (?r\<lparr>r_count := r_count ?r + 1, r_updated := now'\<rparr>)"
    using r(4) by (simp add: fr_retry_next_def Let_def)
  also have "\<dots> = Some (FR_RETRY_MRD, i, ?r\<lparr>r_count := r_count ?r + 1, r_updated := now', r_state := FR_RETRY_MRD\<rparr>)"
    using r(1) assms(5) by (subst retry_redo_mrd) simp_all
  finally show ?thesis using r(2) by blast
qed

theorem retry_count_only_witness:
  "\<exists>i' r'. fr_retry_next (\<lambda>k. 5) 0 (fr_retry_init 5 0 \<lparr>irt = 2000000000, mrt = 0, mrd = 0, mrc = 5\<rparr>) 0 = Some (FR_RETRY_MRD, i', r')"
  using retry_count_only [of "\<lparr>irt = 2000000000, mrt = 0, mrd = 0, mrc = 5\<rparr>" 0 0 5 "\<lambda>k. 5" 0] by (simp add: int64_simps)

end
