(* ===== verification/Digest.thy ===== *)
theory Digest
  imports Prelude
begin

text \<open>
  What the message digests of \<open>src/lib/util\<close> have in common: absorbing data in 64-byte blocks,
  little-endian output, and the interface (allocate, update, final) that HMAC and the RADIUS code
  use.  The locale \<open>stream_digest\<close> is that interface; its laws are that a digest depends only on the
  concatenation of the data it was given.  The clients' facts are proved once in it.
\<close>

subsection \<open>Absorbing data in blocks\<close>

function absorb :: "('s \<Rightarrow> bytes \<Rightarrow> 's) \<Rightarrow> 's \<Rightarrow> bytes \<Rightarrow> 's \<times> bytes" where
  "absorb f st xs =
     (if length xs \<ge> 64 then absorb f (f st (take 64 xs)) (drop 64 xs) else (st, xs))"
  by pat_completeness auto
termination
  by (relation "measure (\<lambda>(f, st, xs). length xs)") auto

declare absorb.simps [simp del]

lemma absorb_short [simp]: "length xs < 64 \<Longrightarrow> absorb f st xs = (st, xs)"
  by (subst absorb.simps) simp

lemma absorb_block:
  "64 \<le> length xs \<Longrightarrow> absorb f st xs = absorb f (f st (take 64 xs)) (drop 64 xs)"
  by (subst absorb.simps) simp

lemma absorb_one_block:
  "length b = 64 \<Longrightarrow> absorb f st (b @ xs) = absorb f (f st b) xs"
  by (subst absorb.simps) simp

lemma absorb_append:
  "absorb f st (xs @ ys) = absorb f (fst (absorb f st xs)) (snd (absorb f st xs) @ ys)"
proof (induction f st xs rule: absorb.induct)
  case (1 f st xs)
  show ?case
  proof (cases "64 \<le> length xs")
    case True
    then show ?thesis
      using 1 by (simp add: absorb_block [of "xs @ ys"] absorb_block [of xs])
  qed simp
qed

lemma snd_absorb: "snd (absorb f st xs) = drop (length xs - length xs mod 64) xs"
proof (induction f st xs rule: absorb.induct)
  case (1 f st xs)
  show ?case
  proof (cases "64 \<le> length xs")
    case True
    then have "length xs - length xs mod 64 = 64 + (length (drop 64 xs) - length (drop 64 xs) mod 64)"
      by (simp add: le_mod_geq)
    with True 1 show ?thesis by (simp add: absorb_block [of xs] add.commute)
  qed simp
qed

lemma length_snd_absorb: "length (snd (absorb f st xs)) = length xs mod 64"
  by (simp add: snd_absorb)

subsection \<open>Little-endian words\<close>

definition get_32bit_le :: "bytes \<Rightarrow> nat \<Rightarrow> u32" where
  "get_32bit_le b i =
     (ucast (b ! i) :: u32) OR push_bit 8 (ucast (b ! (i + 1))) OR
     push_bit 16 (ucast (b ! (i + 2))) OR push_bit 24 (ucast (b ! (i + 3)))"

definition put_32bit_le :: "u32 \<Rightarrow> bytes" where
  "put_32bit_le v = [ucast v, ucast (drop_bit 8 v), ucast (drop_bit 16 v), ucast (drop_bit 24 v)]"

lemma length_put_32bit_le [simp]: "length (put_32bit_le v) = 4"
  by (simp add: put_32bit_le_def)

definition rol32 :: "nat \<Rightarrow> u32 \<Rightarrow> u32" where
  "rol32 s w = push_bit s w OR drop_bit (32 - s) w"

text \<open>An equation whose right-hand side evaluates to a literal, for the test vectors.\<close>

lemma rol32_code [code]:
  "rol32 s w = word_of_int (take_bit 32 (push_bit s (uint w)) OR drop_bit (32 - s) (uint w))"
proof -
  have "take_bit 32 (uint w) = uint w"
    using unsigned_less [of w, where 'a = int] by (simp add: take_bit_int_eq_self)
  then have "uint (rol32 s w) = take_bit 32 (push_bit s (uint w)) OR drop_bit (32 - s) (uint w)"
    by (simp add: rol32_def unsigned_or_eq unsigned_push_bit_eq unsigned_drop_bit_eq)
  then show ?thesis by (metis word_of_int_uint)
qed

subsection \<open>Bit counters\<close>

text \<open>
  The digests count the bits of the message in a 32-bit word; the number of bytes in the block
  buffer is read off that word.  Wrap-around of the counter does not disturb it.
\<close>

lemma buffered_bytes: "unat (drop_bit 3 (of_nat (8 * n) :: u32) AND 63) = n mod 64"
proof -
  have "unat (drop_bit 3 (of_nat (8 * n) :: u32) AND 63)
      = unat (take_bit 6 (drop_bit 3 (of_nat (8 * n) :: u32)))"
    by (simp add: take_bit_eq_mask mask_numeral)
  also have "\<dots> = take_bit 6 (drop_bit 3 (take_bit 32 (8 * n)))"
    by (simp add: unsigned_take_bit_eq unsigned_drop_bit_eq unsigned_of_nat del: of_nat_mult)
  also have "\<dots> = (8 * n mod (8 * 2 ^ 29)) div 8 mod 64"
    by (simp add: take_bit_eq_mod drop_bit_eq_div)
  also have "\<dots> = n mod 2 ^ 29 mod 64"
    by (simp only: mult_mod_right [symmetric]) simp
  also have "\<dots> = n mod 64"
    by (simp add: mod_mod_cancel)
  finally show ?thesis .
qed

lemma bit_count_add: "(of_nat (8 * n) :: u32) + push_bit 3 (of_nat k) = of_nat (8 * (n + k))"
  by (simp add: push_bit_eq_mult algebra_simps)

lemma bit_count_no_carry:
  assumes "n + k < 2 ^ 29"
  shows "\<not> (of_nat (8 * (n + k)) :: u32) < of_nat k" "drop_bit 29 (of_nat k :: u32) = 0"
proof -
  have "unat (of_nat (8 * (n + k)) :: u32) = 8 * (n + k)"
    using assms by (simp add: unat_of_nat del: of_nat_mult of_nat_add)
  moreover have k: "unat (of_nat k :: u32) = k"
    using assms by (simp add: unat_of_nat)
  ultimately show "\<not> (of_nat (8 * (n + k)) :: u32) < of_nat k"
    by (simp add: word_less_nat_alt del: of_nat_mult of_nat_add)
  show "drop_bit 29 (of_nat k :: u32) = 0"
    using assms k by (simp add: drop_bit_eq_div word_arith_nat_div)
qed

subsection \<open>Padding\<close>

text \<open>
  The padding after a message of \<open>n\<close> bytes: a one bit and zeros, up to 56 bytes modulo 64.
\<close>

definition md_pad :: "nat \<Rightarrow> bytes" where
  "md_pad n = 0x80 # replicate ((119 - n mod 64) mod 64) 0"

lemma md_pad_mod: "md_pad (n mod 64) = md_pad n"
  by (simp add: md_pad_def)

subsection \<open>HMAC\<close>

text \<open>RFC 2104 over any digest \<open>H\<close> with 64-byte blocks.\<close>

definition hmac_pad :: "byte \<Rightarrow> bytes \<Rightarrow> bytes" where
  "hmac_pad c key = map (\<lambda>i. (if i < length key then key ! i else 0) XOR c) [0..<64]"

definition hmac_spec :: "(bytes \<Rightarrow> bytes) \<Rightarrow> bytes \<Rightarrow> bytes \<Rightarrow> bytes" where
  "hmac_spec H key m =
     (let k = (if length key > 64 then H key else key)
      in H (hmac_pad 0x5c k @ H (hmac_pad 0x36 k @ m)))"

lemma length_hmac_pad [simp]: "length (hmac_pad c key) = 64"
  by (simp add: hmac_pad_def)

subsection \<open>The digest interface\<close>

locale stream_digest =
  fixes new :: 'c
    and update :: "'c \<Rightarrow> bytes \<Rightarrow> 'c"
    and final :: "'c \<Rightarrow> bytes"
    and absorbed :: "'c \<Rightarrow> bytes \<Rightarrow> bool"
    and H :: "bytes \<Rightarrow> bytes"
    and limit :: nat
    and dlen :: nat
  assumes absorbed_new: "absorbed new []"
    and absorbed_update: "absorbed c m \<Longrightarrow> absorbed (update c d) (m @ d)"
    and final_digest: "absorbed c m \<Longrightarrow> length m < limit \<Longrightarrow> final c = H m"
    and length_H: "length (H m) = dlen"
begin

lemma digest_updates:
  "absorbed c m \<Longrightarrow> absorbed (foldl update c ds) (m @ concat ds)"
proof (induction ds arbitrary: c m)
  case (Cons d ds)
  from Cons.IH [OF absorbed_update [OF Cons.prems, of d]] show ?case by simp
qed simp

text \<open>A digest depends only on the concatenation of the data, however it was split.\<close>

lemma final_updates:
  assumes "length (concat ds) < limit"
  shows "final (foldl update new ds) = H (concat ds)"
  using final_digest [OF digest_updates [OF absorbed_new, of ds]] assms by simp

lemma final_update1: "length a < limit \<Longrightarrow> final (update new a) = H a"
  using final_updates [of "[a]"] by simp

lemma final_update2:
  "length a + length b < limit \<Longrightarrow> final (update (update new a) b) = H (a @ b)"
  using final_updates [of "[a, b]"] by simp

lemma final_update3:
  "length a + length b + length c < limit \<Longrightarrow>
   final (update (update (update new a) b) c) = H (a @ b @ c)"
  using final_updates [of "[a, b, c]"] by simp

lemma hmac_two_passes:
  assumes "length key < limit" "64 + length m < limit" "64 + dlen < limit"
  shows "(let k = (if length key > 64 then final (update new key) else key)
    in final (update (update new (hmac_pad 0x5c k)) (final (update (update new (hmac_pad 0x36 k)) m))))
    = hmac_spec H key m"
  using assms by (simp add: hmac_spec_def Let_def final_update1 final_update2 length_H)

end

end
