(* ===== verification/Ctx_Pool.thy ===== *)
theory Ctx_Pool
  imports Prelude
begin

text \<open>
  The thread-local list of digest contexts that \<open>md4.c\<close> and \<open>md5.c\<close> of \<open>src/lib/util\<close> both keep.
  The operations take the context constructor (\<open>fresh\<close>) and the reset function of the digest; the
  locale \<open>ctx_pool\<close> states what they must promise, and shows that a context is only handed out ready
  for use and to one holder.  Failed allocations are not modelled.
\<close>

record 'c free_list_entry =
  fl_used :: bool
  fl_md_ctx :: 'c

text \<open>
  The list is \<open>None\<close> before the first allocation and has eight entries after it.  A context is a slot
  of the list or separately allocated.
\<close>

datatype ctx_ref = Slot nat | Allocated

fun first_unused :: "nat \<Rightarrow> 'c free_list_entry list \<Rightarrow> nat option" where
  "first_unused i [] = None"
| "first_unused i (e # es) = (if fl_used e then first_unused (i + 1) es else Some i)"

definition ctx_alloc_from_list ::
  "'c \<Rightarrow> 'c free_list_entry list option \<Rightarrow> ctx_ref \<times> 'c \<times> 'c free_list_entry list option" where
  "ctx_alloc_from_list fresh arr =
     (let free_list = (case arr of
            None \<Rightarrow> replicate 8 \<lparr>fl_used = False, fl_md_ctx = fresh\<rparr>
          | Some l \<Rightarrow> l)
      in case first_unused 0 free_list of
           Some i \<Rightarrow> (Slot i, fl_md_ctx (free_list ! i), Some (free_list[i := (free_list ! i)\<lparr>fl_used := True\<rparr>]))
         | None \<Rightarrow> (Allocated, fresh, Some free_list))"

definition ctx_free_from_list ::
  "('c \<Rightarrow> 'c) \<Rightarrow> ctx_ref \<Rightarrow> 'c free_list_entry list option \<Rightarrow> 'c free_list_entry list option" where
  "ctx_free_from_list reset ref arr =
     (case (arr, ref) of
        (Some l, Slot i) \<Rightarrow>
          (if i < length l
           then Some (l[i := \<lparr>fl_used = False, fl_md_ctx = reset (fl_md_ctx (l ! i))\<rparr>]) else arr)
      | _ \<Rightarrow> arr)"

text \<open>
  Runs of the callers: allocate, change a context that is held to another well-formed one, free a
  context that is held.  The second component is the set of slots that are held.
\<close>

inductive pool_run :: "'c \<Rightarrow> ('c \<Rightarrow> 'c) \<Rightarrow> ('c \<Rightarrow> bool) \<Rightarrow> 'c free_list_entry list option \<Rightarrow> nat set \<Rightarrow> bool"
  for fresh reset ok where
  pool_start: "pool_run fresh reset ok None {}"
| pool_alloc_slot: "pool_run fresh reset ok arr held \<Longrightarrow>
    ctx_alloc_from_list fresh arr = (Slot i, ctx, arr') \<Longrightarrow> pool_run fresh reset ok arr' (insert i held)"
| pool_alloc_own: "pool_run fresh reset ok arr held \<Longrightarrow>
    ctx_alloc_from_list fresh arr = (Allocated, ctx, arr') \<Longrightarrow> pool_run fresh reset ok arr' held"
| pool_write: "pool_run fresh reset ok (Some l) held \<Longrightarrow> i \<in> held \<Longrightarrow> ok ctx \<Longrightarrow>
    pool_run fresh reset ok (Some (l[i := (l ! i)\<lparr>fl_md_ctx := ctx\<rparr>])) held"
| pool_free: "pool_run fresh reset ok arr held \<Longrightarrow> i \<in> held \<Longrightarrow>
    pool_run fresh reset ok (ctx_free_from_list reset (Slot i) arr) (held - {i})"

definition pool_inv :: "('c \<Rightarrow> bool) \<Rightarrow> ('c \<Rightarrow> bool) \<Rightarrow> 'c free_list_entry list option \<Rightarrow> nat set \<Rightarrow> bool" where
  "pool_inv ok ready arr held \<longleftrightarrow>
     (case arr of None \<Rightarrow> held = {}
      | Some l \<Rightarrow> length l = 8 \<and> held = {i. i < 8 \<and> fl_used (l ! i)} \<and>
          (\<forall>i < 8. ok (fl_md_ctx (l ! i)) \<and> (\<not> fl_used (l ! i) \<longrightarrow> ready (fl_md_ctx (l ! i)))))"

lemma first_unused_Some:
  "first_unused k l = Some i \<Longrightarrow> \<exists>j. i = k + j \<and> j < length l \<and> \<not> fl_used (l ! j)"
proof (induction l arbitrary: k)
  case (Cons e l)
  show ?case
  proof (cases "fl_used e")
    case True
    with Cons obtain j where "i = k + Suc j" "j < length l" "\<not> fl_used (l ! j)" by fastforce
    then show ?thesis by (intro exI [of _ "Suc j"]) simp
  next
    case False
    with Cons.prems show ?thesis by (intro exI [of _ 0]) simp
  qed
qed simp

locale ctx_pool =
  fixes fresh :: 'c
    and reset :: "'c \<Rightarrow> 'c"
    and ok :: "'c \<Rightarrow> bool"
    and ready :: "'c \<Rightarrow> bool"
  assumes ready_fresh: "ready fresh"
    and ready_reset: "ok c \<Longrightarrow> ready (reset c)"
    and ready_wf: "ready c \<Longrightarrow> ok c"
begin

lemma alloc_ready:
  assumes "pool_inv ok ready arr held" "ctx_alloc_from_list fresh arr = (r, ctx, arr')"
  shows "ready ctx" "r = Slot i \<Longrightarrow> i \<notin> held \<and> i < 8 \<and> pool_inv ok ready arr' (insert i held)"
    "r = Allocated \<Longrightarrow> pool_inv ok ready arr' held"
proof -
  define l where "l = (case arr of
      None \<Rightarrow> replicate 8 \<lparr>fl_used = False, fl_md_ctx = fresh\<rparr> | Some l \<Rightarrow> l)"
  have l: "length l = 8" "held = {i. i < 8 \<and> fl_used (l ! i)}"
    "\<And>i. i < 8 \<Longrightarrow> ok (fl_md_ctx (l ! i)) \<and> (\<not> fl_used (l ! i) \<longrightarrow> ready (fl_md_ctx (l ! i)))"
    using assms(1) ready_fresh ready_wf by (auto simp: pool_inv_def l_def split: option.splits)
  have alloc: "(r, ctx, arr') = (case first_unused 0 l of
       Some i \<Rightarrow> (Slot i, fl_md_ctx (l ! i), Some (l[i := (l ! i)\<lparr>fl_used := True\<rparr>]))
     | None \<Rightarrow> (Allocated, fresh, Some l))"
    using assms(2) unfolding ctx_alloc_from_list_def l_def [symmetric] Let_def by simp
  show "ready ctx"
    using alloc l(1) ready_fresh by (auto split: option.splits dest!: first_unused_Some l(3))
  show "i \<notin> held \<and> i < 8 \<and> pool_inv ok ready arr' (insert i held)" if "r = Slot i"
    using alloc l that
    by (auto simp: pool_inv_def nth_list_update split: option.splits if_splits dest!: first_unused_Some)
  show "pool_inv ok ready arr' held" if "r = Allocated"
    using alloc l that by (auto simp: pool_inv_def split: option.splits)
qed

lemma run_inv: "pool_run fresh reset ok arr held \<Longrightarrow> pool_inv ok ready arr held"
proof (induction rule: pool_run.induct)
  case (pool_write l held i ctx)
  then show ?case by (auto simp: pool_inv_def nth_list_update)
next
  case (pool_free arr held i)
  then show ?case
    using ready_reset ready_wf
    by (auto simp: pool_inv_def ctx_free_from_list_def nth_list_update split: option.splits)
next
  case pool_start
  show ?case by (simp add: pool_inv_def)
qed (blast dest: alloc_ready)+

lemma alloc_exclusive:
  assumes "pool_run fresh reset ok arr held" "ctx_alloc_from_list fresh arr = (r, ctx, arr')"
  shows "ready ctx \<and> (\<forall>i. r = Slot i \<longrightarrow> i \<notin> held \<and> i < 8)"
  using alloc_ready [OF run_inv [OF assms(1)] assms(2)] by blast

end

end
