(* ===== verification/Md5.thy ===== *)
theory Md5
  imports Digest Ctx_Pool
begin

text \<open>
  The built-in MD5 of \<open>src/lib/util/md5.c\<close> (the implementation behind the function pointers
  \<open>fr_md5_update\<close>, \<open>fr_md5_final\<close>, \<open>fr_md5_ctx_alloc\<close> when OpenSSL is absent or in FIPS mode), the
  thread-local list of contexts, and HMAC-MD5 of \<open>src/lib/util/hmac_md5.c\<close>.  The record
  \<open>fr_md5_ctx_local\<close> has the fields of \<open>fr_md5_ctx_local_t\<close>; \<open>size_t\<close> lengths are list lengths and the
  conversions to \<open>uint32_t\<close> are written out.

  The reference definition is \<open>md5_spec\<close>: pad the whole message as RFC 1321 says and run the
  compression function over its blocks.
\<close>

type_synonym md_state = "u32 \<times> u32 \<times> u32 \<times> u32"

record fr_md5_ctx_local =
  md5_state :: md_state
  md5_count0 :: u32
  md5_count1 :: u32
  md5_buffer :: bytes

subsection \<open>The compression function\<close>

definition MD5_F1 :: "u32 \<Rightarrow> u32 \<Rightarrow> u32 \<Rightarrow> u32" where
  "MD5_F1 x y z = z XOR (x AND (y XOR z))"

definition MD5_F2 :: "u32 \<Rightarrow> u32 \<Rightarrow> u32 \<Rightarrow> u32" where
  "MD5_F2 x y z = MD5_F1 z x y"

definition MD5_F3 :: "u32 \<Rightarrow> u32 \<Rightarrow> u32 \<Rightarrow> u32" where
  "MD5_F3 x y z = x XOR y XOR z"

definition MD5_F4 :: "u32 \<Rightarrow> u32 \<Rightarrow> u32 \<Rightarrow> u32" where
  "MD5_F4 x y z = y XOR (x OR NOT z)"

text \<open>
  \<open>MD5STEP(f, w, x, y, z, data, s)\<close> updates its register \<open>w\<close>.  The calls name the registers
  \<open>a b c d\<close>, \<open>d a b c\<close>, \<open>c d a b\<close>, \<open>b c d a\<close> in turn, so the step returns the registers in the
  order the next call names them.
\<close>

fun MD5STEP :: "(u32 \<Rightarrow> u32 \<Rightarrow> u32 \<Rightarrow> u32) \<Rightarrow> md_state \<Rightarrow> u32 \<Rightarrow> nat \<Rightarrow> md_state" where
  "MD5STEP f (w, x, y, z) data s = (z, rol32 s (w + (f x y z + data)) + x, x, y)"

text \<open>For every step of a round: the word of the block, the constant added to it, and the shift.\<close>

definition md5_round1 :: "(nat \<times> u32 \<times> nat) list" where
  "md5_round1 = [
     (0, 0xd76aa478, 7), (1, 0xe8c7b756, 12), (2, 0x242070db, 17), (3, 0xc1bdceee, 22),
     (4, 0xf57c0faf, 7), (5, 0x4787c62a, 12), (6, 0xa8304613, 17), (7, 0xfd469501, 22),
     (8, 0x698098d8, 7), (9, 0x8b44f7af, 12), (10, 0xffff5bb1, 17), (11, 0x895cd7be, 22),
     (12, 0x6b901122, 7), (13, 0xfd987193, 12), (14, 0xa679438e, 17), (15, 0x49b40821, 22)]"

definition md5_round2 :: "(nat \<times> u32 \<times> nat) list" where
  "md5_round2 = [
     (1, 0xf61e2562, 5), (6, 0xc040b340, 9), (11, 0x265e5a51, 14), (0, 0xe9b6c7aa, 20),
     (5, 0xd62f105d, 5), (10, 0x02441453, 9), (15, 0xd8a1e681, 14), (4, 0xe7d3fbc8, 20),
     (9, 0x21e1cde6, 5), (14, 0xc33707d6, 9), (3, 0xf4d50d87, 14), (8, 0x455a14ed, 20),
     (13, 0xa9e3e905, 5), (2, 0xfcefa3f8, 9), (7, 0x676f02d9, 14), (12, 0x8d2a4c8a, 20)]"

definition md5_round3 :: "(nat \<times> u32 \<times> nat) list" where
  "md5_round3 = [
     (5, 0xfffa3942, 4), (8, 0x8771f681, 11), (11, 0x6d9d6122, 16), (14, 0xfde5380c, 23),
     (1, 0xa4beea44, 4), (4, 0x4bdecfa9, 11), (7, 0xf6bb4b60, 16), (10, 0xbebfbc70, 23),
     (13, 0x289b7ec6, 4), (0, 0xeaa127fa, 11), (3, 0xd4ef3085, 16), (6, 0x04881d05, 23),
     (9, 0xd9d4d039, 4), (12, 0xe6db99e5, 11), (15, 0x1fa27cf8, 16), (2, 0xc4ac5665, 23)]"

definition md5_round4 :: "(nat \<times> u32 \<times> nat) list" where
  "md5_round4 = [
     (0, 0xf4292244, 6), (7, 0x432aff97, 10), (14, 0xab9423a7, 15), (5, 0xfc93a039, 21),
     (12, 0x655b59c3, 6), (3, 0x8f0ccc92, 10), (10, 0xffeff47d, 15), (1, 0x85845dd1, 21),
     (8, 0x6fa87e4f, 6), (15, 0xfe2ce6e0, 10), (6, 0xa3014314, 15), (13, 0x4e0811a1, 21),
     (4, 0xf7537e82, 6), (11, 0xbd3af235, 10), (2, 0x2ad7d2bb, 15), (9, 0xeb86d391, 21)]"

fun md5_steps ::
  "(u32 \<Rightarrow> u32 \<Rightarrow> u32 \<Rightarrow> u32) \<Rightarrow> u32 list \<Rightarrow> (nat \<times> u32 \<times> nat) list \<Rightarrow> md_state \<Rightarrow> md_state" where
  "md5_steps f inw [] r = r"
| "md5_steps f inw ((i, k, s) # steps) r = md5_steps f inw steps (MD5STEP f r (inw ! i + k) s)"

definition fr_md5_local_transform :: "md_state \<Rightarrow> bytes \<Rightarrow> md_state" where
  "fr_md5_local_transform st block =
     (let inw = map (\<lambda>a. get_32bit_le block (a * 4)) [0..<16];
          r1 = md5_steps MD5_F1 inw md5_round1 st;
          r2 = md5_steps MD5_F2 inw md5_round2 r1;
          r3 = md5_steps MD5_F3 inw md5_round3 r2;
          (a, b, c, d) = md5_steps MD5_F4 inw md5_round4 r3;
          (s0, s1, s2, s3) = st
      in (s0 + a, s1 + b, s2 + c, s3 + d))"

subsection \<open>Contexts\<close>

definition md5_init_state :: md_state where
  "md5_init_state = (0x67452301, 0xefcdab89, 0x98badcfe, 0x10325476)"

definition fr_md5_local_ctx_reset :: fr_md5_ctx_local where
  "fr_md5_local_ctx_reset =
     \<lparr>md5_state = md5_init_state, md5_count0 = 0, md5_count1 = 0, md5_buffer = replicate 64 0\<rparr>"

definition fr_md5_local_ctx_copy :: "fr_md5_ctx_local \<Rightarrow> fr_md5_ctx_local \<Rightarrow> fr_md5_ctx_local" where
  "fr_md5_local_ctx_copy dst src = src"

definition fr_md5_local_update :: "fr_md5_ctx_local \<Rightarrow> bytes \<Rightarrow> fr_md5_ctx_local" where
  "fr_md5_local_update ctx inp =
     (let inlen = length inp;
          inlen32 = (of_nat inlen :: u32);
          have_n = unat (drop_bit 3 (md5_count0 ctx) AND 63);
          need = 64 - have_n;
          c0 = md5_count0 ctx + push_bit 3 inlen32;
          c1 = (if c0 < inlen32 then md5_count1 ctx + 1 else md5_count1 ctx) + drop_bit 29 inlen32;
          ctx1 = ctx\<lparr>md5_count0 := c0, md5_count1 := c1\<rparr>
      in if inlen \<ge> need then
           let (st, rest) =
             (if have_n \<noteq> 0 then
                absorb fr_md5_local_transform
                  (fr_md5_local_transform (md5_state ctx)
                     (put_at (md5_buffer ctx) have_n (take need inp)))
                  (drop need inp)
              else absorb fr_md5_local_transform (md5_state ctx) inp);
             buf = (if have_n \<noteq> 0 then put_at (md5_buffer ctx) have_n (take need inp) else md5_buffer ctx)
           in ctx1\<lparr>md5_state := st, md5_buffer := put_at buf 0 rest\<rparr>
         else ctx1\<lparr>md5_buffer := put_at (md5_buffer ctx) have_n inp\<rparr>)"

definition md5_PADDING :: bytes where
  "md5_PADDING = 0x80 # replicate 63 0"

definition fr_md5_local_final :: "fr_md5_ctx_local \<Rightarrow> bytes \<times> fr_md5_ctx_local" where
  "fr_md5_local_final ctx =
     (let count = put_32bit_le (md5_count0 ctx) @ put_32bit_le (md5_count1 ctx);
          padlen = 64 - unat (drop_bit 3 (md5_count0 ctx) AND 63);
          padlen' = (if padlen < 1 + 8 then padlen + 64 else padlen);
          ctx1 = fr_md5_local_update ctx (take (padlen' - 8) md5_PADDING);
          ctx2 = fr_md5_local_update ctx1 count;
          (a, b, c, d) = md5_state ctx2
      in (put_32bit_le a @ put_32bit_le b @ put_32bit_le c @ put_32bit_le d,
          \<lparr>md5_state = (0, 0, 0, 0), md5_count0 = 0, md5_count1 = 0, md5_buffer = replicate 64 0\<rparr>))"

definition fr_md5_calc :: "bytes \<Rightarrow> bytes" where
  "fr_md5_calc inp = fst (fr_md5_local_final (fr_md5_local_update fr_md5_local_ctx_reset inp))"

subsection \<open>Streaming\<close>

text \<open>The padded message of RFC 1321 and its digest.\<close>

definition md5_spec :: "bytes \<Rightarrow> bytes" where
  "md5_spec m =
     (let bits = 8 * length m;
          count = put_32bit_le (of_nat (bits mod 2 ^ 32)) @ put_32bit_le (of_nat (bits div 2 ^ 32));
          (a, b, c, d) = fst (absorb fr_md5_local_transform md5_init_state (m @ md_pad (length m) @ count))
      in put_32bit_le a @ put_32bit_le b @ put_32bit_le c @ put_32bit_le d)"

text \<open>A context that has been given the data \<open>m\<close>.\<close>

definition md5_absorbed :: "fr_md5_ctx_local \<Rightarrow> bytes \<Rightarrow> bool" where
  "md5_absorbed ctx m \<longleftrightarrow>
     (md5_state ctx, take (length m mod 64) (md5_buffer ctx)) =
       absorb fr_md5_local_transform md5_init_state m \<and>
     length (md5_buffer ctx) = 64 \<and>
     md5_count0 ctx = of_nat (8 * length m) \<and>
     (length m < 2 ^ 29 \<longrightarrow> md5_count1 ctx = 0)"

lemma md5_absorbed_reset: "md5_absorbed fr_md5_local_ctx_reset []"
  by (simp add: md5_absorbed_def fr_md5_local_ctx_reset_def)

lemma md5_have: "md5_absorbed ctx m \<Longrightarrow> unat (drop_bit 3 (md5_count0 ctx) AND 63) = length m mod 64"
  by (simp add: md5_absorbed_def buffered_bytes del: of_nat_mult)

text \<open>The state and the buffer after an update, as one call of \<open>absorb\<close>.\<close>

lemma md5_update_absorb:
  fixes d :: bytes
  assumes "md5_absorbed ctx m"
  defines "h \<equiv> length m mod 64"
  defines "r \<equiv> absorb fr_md5_local_transform (md5_state ctx) (take h (md5_buffer ctx) @ d)"
  shows "md5_state (fr_md5_local_update ctx d) = fst r"
    "length (md5_buffer (fr_md5_local_update ctx d)) = 64"
    "take (length (snd r)) (md5_buffer (fr_md5_local_update ctx d)) = snd r"
proof -
  have len: "length (md5_buffer ctx) = 64" and h: "h < 64"
    using assms(1) by (auto simp: md5_absorbed_def h_def)
  have hv: "unat (drop_bit 3 (md5_count0 ctx) AND 63) = h"
    using md5_have [OF assms(1)] by (simp add: h_def)
  have lr: "length (snd r) < 64"
    by (simp add: r_def length_snd_absorb)
  consider (fill) "64 - h \<le> length d" "h \<noteq> 0" | (blocks) "64 - h \<le> length d" "h = 0"
    | (short) "length d < 64 - h" by linarith
  then have "md5_state (fr_md5_local_update ctx d) = fst r \<and>
    length (md5_buffer (fr_md5_local_update ctx d)) = 64 \<and>
    take (length (snd r)) (md5_buffer (fr_md5_local_update ctx d)) = snd r"
  proof cases
    case fill
    have blk: "put_at (md5_buffer ctx) h (take (64 - h) d) = take h (md5_buffer ctx) @ take (64 - h) d"
      using fill len h by (simp add: put_at_def)
    have "r = absorb fr_md5_local_transform (fr_md5_local_transform (md5_state ctx)
        (put_at (md5_buffer ctx) h (take (64 - h) d))) (drop (64 - h) d)"
      using fill len h by (simp add: r_def blk absorb_block)
    with fill len h lr show ?thesis
      by (simp add: fr_md5_local_update_def hv Let_def case_prod_unfold) (simp add: put_at_def)
  next
    case blocks
    then have "r = absorb fr_md5_local_transform (md5_state ctx) d" by (simp add: r_def)
    with blocks len h lr show ?thesis
      by (simp add: fr_md5_local_update_def hv Let_def case_prod_unfold) (simp add: put_at_def)
  next
    case short
    then have "r = (md5_state ctx, take h (md5_buffer ctx) @ d)"
      using len h by (simp add: r_def)
    with short len h show ?thesis
      by (simp add: fr_md5_local_update_def hv Let_def put_at_def)
  qed
  then show "md5_state (fr_md5_local_update ctx d) = fst r"
    "length (md5_buffer (fr_md5_local_update ctx d)) = 64"
    "take (length (snd r)) (md5_buffer (fr_md5_local_update ctx d)) = snd r" by auto
qed

lemma md5_update_counts:
  "md5_count0 (fr_md5_local_update ctx d) = md5_count0 ctx + push_bit 3 (of_nat (length d))"
  "md5_count1 (fr_md5_local_update ctx d) =
     (if md5_count0 (fr_md5_local_update ctx d) < of_nat (length d)
      then md5_count1 ctx + 1 else md5_count1 ctx) + drop_bit 29 (of_nat (length d))"
  by (simp_all add: fr_md5_local_update_def Let_def case_prod_unfold)

lemma md5_absorbed_update:
  assumes "md5_absorbed ctx m"
  shows "md5_absorbed (fr_md5_local_update ctx d) (m @ d)"
proof -
  let ?T = fr_md5_local_transform
  let ?ctx = "fr_md5_local_update ctx d"
  have m: "absorb ?T md5_init_state m = (md5_state ctx, take (length m mod 64) (md5_buffer ctx))"
    and c: "md5_count0 ctx = of_nat (8 * length m)" "length m < 2 ^ 29 \<Longrightarrow> md5_count1 ctx = 0"
    using assms by (auto simp: md5_absorbed_def)
  have md: "absorb ?T md5_init_state (m @ d) =
      absorb ?T (md5_state ctx) (take (length m mod 64) (md5_buffer ctx) @ d)"
    by (simp add: absorb_append [of _ _ m] m)
  have "length (snd (absorb ?T md5_init_state (m @ d))) = length (m @ d) mod 64"
    by (rule length_snd_absorb)
  then have "(md5_state ?ctx, take (length (m @ d) mod 64) (md5_buffer ?ctx)) = absorb ?T md5_init_state (m @ d)"
    using md5_update_absorb [OF assms, of d] by (simp add: md prod_eq_iff)
  moreover have c0: "md5_count0 ?ctx = of_nat (8 * length (m @ d))"
    using c(1) bit_count_add [of "length m" "length d"] by (simp add: md5_update_counts(1) del: of_nat_mult of_nat_add)
  moreover have "length (m @ d) < 2 ^ 29 \<Longrightarrow> md5_count1 ?ctx = 0"
    using c(2) bit_count_no_carry [of "length m" "length d"]
    by (simp add: md5_update_counts(2) c0 del: of_nat_mult of_nat_add)
  ultimately show ?thesis
    using md5_update_absorb(2) [OF assms] by (simp add: md5_absorbed_def)
qed

lemma md5_absorbed_state:
  "md5_absorbed ctx m \<Longrightarrow> md5_state ctx = fst (absorb fr_md5_local_transform md5_init_state m)"
  by (auto simp: md5_absorbed_def prod_eq_iff)

lemma take_PADDING: "0 < k \<Longrightarrow> k \<le> 64 \<Longrightarrow> take k md5_PADDING = 0x80 # replicate (k - 1) 0"
  by (cases k) (simp_all add: md5_PADDING_def)

lemma md5_final_digest:
  assumes "md5_absorbed ctx m" "length m < 2 ^ 29"
  shows "fst (fr_md5_local_final ctx) = md5_spec m"
proof -
  let ?h = "length m mod 64"
  let ?k = "(if 64 - ?h < 1 + 8 then 64 - ?h + 64 else 64 - ?h) - 8"
  let ?count = "put_32bit_le (md5_count0 ctx) @ put_32bit_le (md5_count1 ctx)"
  let ?ctx = "fr_md5_local_update (fr_md5_local_update ctx (take ?k md5_PADDING)) ?count"
  have h: "?h < 64" by simp
  then have k: "0 < ?k" "?k \<le> 64" "?k - 1 = (119 - ?h) mod 64"
    by (auto simp: le_mod_geq)
  have pad: "take ?k md5_PADDING = md_pad (length m)"
    using take_PADDING [OF k(1,2)] by (simp only: k(3) md_pad_def)
  have c: "md5_count0 ctx = of_nat (8 * length m)" "md5_count1 ctx = 0"
    using assms by (auto simp: md5_absorbed_def)
  have count: "?count = put_32bit_le (of_nat (8 * length m mod 2 ^ 32)) @
      put_32bit_le (of_nat (8 * length m div 2 ^ 32))"
    using assms(2) by (simp add: c)
  have "md5_absorbed ?ctx (m @ md_pad (length m) @ ?count)"
    using md5_absorbed_update [OF md5_absorbed_update [OF assms(1), of "take ?k md5_PADDING"], of ?count]
    by (simp only: pad append_assoc)
  then have "md5_state ?ctx = fst (absorb fr_md5_local_transform md5_init_state (m @ md_pad (length m) @ ?count))"
    by (rule md5_absorbed_state)
  then show ?thesis
    unfolding md5_spec_def Let_def count [symmetric]
    by (simp add: fr_md5_local_final_def Let_def md5_have [OF assms(1)] case_prod_unfold)
qed

lemma length_md5_spec: "length (md5_spec m) = 16"
  by (simp add: md5_spec_def Let_def case_prod_unfold)

lemma length_md5_final [simp]: "length (fst (fr_md5_local_final ctx)) = 16"
  by (simp add: fr_md5_local_final_def Let_def case_prod_unfold)

text \<open>The built-in MD5 provides the digest interface for messages of less than 512 megabytes.\<close>

definition md5_final_out :: "fr_md5_ctx_local \<Rightarrow> bytes" where
  "md5_final_out ctx = fst (fr_md5_local_final ctx)"

interpretation md5: stream_digest fr_md5_local_ctx_reset fr_md5_local_update md5_final_out
  md5_absorbed md5_spec "2 ^ 29" 16
  by unfold_locales
    (auto simp: md5_absorbed_reset md5_absorbed_update md5_final_digest md5_final_out_def length_md5_spec)



text \<open>
  (the bit counter above 512 megabytes) When a context that has absorbed \<open>2\<^sup>2\<^sup>9 - 1\<close> bytes gets
  16 more, the low counter word wraps but the carry is not taken: the high word stays 0 although the
  message has \<open>2\<^sup>3\<^sup>2 + 120\<close> bits.
\<close>

theorem md5_carry_lost:
  assumes "md5_absorbed ctx m" "length m = 2 ^ 29 - 1" "length d = 16"
  shows "md5_count0 (fr_md5_local_update ctx d) = 120 \<and>
    md5_count1 (fr_md5_local_update ctx d) = 0 \<and> 8 * length (m @ d) = 2 ^ 32 + 120"
proof -
  have c: "md5_count0 ctx = of_nat (8 * (2 ^ 29 - 1))" "md5_count1 ctx = 0"
    using assms(1,2) by (auto simp: md5_absorbed_def)
  have "md5_count0 (fr_md5_local_update ctx d) = 120"
    by (simp add: md5_update_counts(1) c assms(3))
  with c assms(2,3) show ?thesis
    by (simp add: md5_update_counts(2))
qed

theorem md5_carry_lost_witness:
  "\<exists>ctx m. md5_absorbed ctx m \<and> length m = 2 ^ 29 - 1 \<and>
     md5_count1 (fr_md5_local_update ctx (replicate 16 0)) = 0"
proof -
  let ?m = "replicate (2 ^ 29 - 1) (0::byte)"
  have a: "md5_absorbed (fr_md5_local_update fr_md5_local_ctx_reset ?m) ?m"
    using md5_absorbed_update [OF md5_absorbed_reset, of ?m] by (simp only: append_Nil)
  have l: "length ?m = 2 ^ 29 - 1" by (rule length_replicate)
  have "length (replicate 16 (0::byte)) = 16" by (rule length_replicate)
  from md5_carry_lost [OF a l this] a l show ?thesis by blast
qed

subsection \<open>Test vectors\<close>

text \<open>
  (test vectors) The digests of the empty message and of \<open>abc\<close> are those of the test suite of
  RFC 1321 (section A.5).
\<close>

lemma md5_test_vectors:
  "fr_md5_calc [] = [0xd4, 0x1d, 0x8c, 0xd9, 0x8f, 0x00, 0xb2, 0x04, 0xe9, 0x80, 0x09, 0x98, 0xec, 0xf8, 0x42, 0x7e] \<and>
   fr_md5_calc [0x61, 0x62, 0x63] = [0x90, 0x01, 0x50, 0x98, 0x3c, 0xd2, 0x4f, 0xb0, 0xd6, 0x96, 0x3f, 0x7d, 0x28, 0xe1, 0x7f, 0x72]"
  by code_simp

subsection \<open>HMAC-MD5\<close>

definition fr_hmac_md5 :: "bytes \<Rightarrow> bytes \<Rightarrow> bytes" where
  "fr_hmac_md5 inp key =
     (let key' = (if length key > 64
                  then fst (fr_md5_local_final (fr_md5_local_update fr_md5_local_ctx_reset key)) else key);
          k_ipad = hmac_pad 0x36 key';
          k_opad = hmac_pad 0x5c key';
          digest = fst (fr_md5_local_final
            (fr_md5_local_update (fr_md5_local_update fr_md5_local_ctx_reset k_ipad) inp))
      in fst (fr_md5_local_final
            (fr_md5_local_update (fr_md5_local_update fr_md5_local_ctx_reset k_opad) digest)))"

lemma length_fr_hmac_md5 [simp]: "length (fr_hmac_md5 inp key) = 16"
  by (simp add: fr_hmac_md5_def Let_def)

lemma hmac_md5_spec:
  assumes "length key < 2 ^ 29" "64 + length inp < 2 ^ 29"
  shows "fr_hmac_md5 inp key = hmac_spec md5_spec key inp"
  using md5.hmac_two_passes [OF assms]
  by (cases "64 < length key") (simp_all add: fr_hmac_md5_def md5_final_out_def Let_def)



subsection \<open>The thread-local list of contexts\<close>

definition fr_md5_ctx_alloc_from_list ::
  "fr_md5_ctx_local free_list_entry list option \<Rightarrow>
   ctx_ref \<times> fr_md5_ctx_local \<times> fr_md5_ctx_local free_list_entry list option" where
  "fr_md5_ctx_alloc_from_list = ctx_alloc_from_list fr_md5_local_ctx_reset"

definition fr_md5_ctx_free_from_list ::
  "ctx_ref \<Rightarrow> fr_md5_ctx_local free_list_entry list option \<Rightarrow> fr_md5_ctx_local free_list_entry list option" where
  "fr_md5_ctx_free_from_list = ctx_free_from_list (\<lambda>_. fr_md5_local_ctx_reset)"

interpretation md5_list: ctx_pool fr_md5_local_ctx_reset "\<lambda>_. fr_md5_local_ctx_reset" "\<lambda>_. True"
  "\<lambda>ctx. ctx = fr_md5_local_ctx_reset"
  by unfold_locales simp_all

text \<open>
  C35: (contexts are handed out fresh) In every run of allocations, uses and releases,
  \<open>fr_md5_ctx_alloc_from_list\<close> returns a context in its reset state, and never a slot that another
  holder still has.
\<close>

theorem md5_alloc_fresh:
  assumes "pool_run fr_md5_local_ctx_reset (\<lambda>_. fr_md5_local_ctx_reset) (\<lambda>_. True) arr held"
    and "fr_md5_ctx_alloc_from_list arr = (r, ctx, arr')"
  shows "ctx = fr_md5_local_ctx_reset \<and> (\<forall>i. r = Slot i \<longrightarrow> i \<notin> held \<and> i < 8)"
  using md5_list.alloc_exclusive assms by (simp add: fr_md5_ctx_alloc_from_list_def)

definition md5_list_ex :: "fr_md5_ctx_local free_list_entry list option" where
  "md5_list_ex = snd (snd (fr_md5_ctx_alloc_from_list None))"

theorem md5_alloc_fresh_witness:
  "pool_run fr_md5_local_ctx_reset (\<lambda>_. fr_md5_local_ctx_reset) (\<lambda>_. True) md5_list_ex {0} \<and>
   (\<exists>ctx arr'. fr_md5_ctx_alloc_from_list md5_list_ex = (Slot 1, ctx, arr') \<and> ctx = fr_md5_local_ctx_reset)"
proof -
  have alloc: "ctx_alloc_from_list fr_md5_local_ctx_reset None = (Slot 0, fr_md5_local_ctx_reset, md5_list_ex)"
    by (simp add: fr_md5_ctx_alloc_from_list_def ctx_alloc_from_list_def md5_list_ex_def numeral_eq_Suc)
  have run: "pool_run fr_md5_local_ctx_reset (\<lambda>_. fr_md5_local_ctx_reset) (\<lambda>_. True) md5_list_ex {0}"
    using pool_alloc_slot [OF pool_start alloc] by simp
  obtain ctx arr' where "fr_md5_ctx_alloc_from_list md5_list_ex = (Slot 1, ctx, arr')"
    by (simp add: fr_md5_ctx_alloc_from_list_def ctx_alloc_from_list_def md5_list_ex_def numeral_eq_Suc)
  with md5_alloc_fresh [OF run] run show ?thesis by blast
qed

end
