(* ===== verification/Md4.thy ===== *)
theory Md4
  imports Digest Md5
begin

text \<open>
  The built-in MD4 of \<open>src/lib/util/md4.c\<close> on a little-endian host (where the \<open>htole32\<close> macros are
  empty).  Unlike MD5 it copies every block through the context's buffer, pads in that buffer, and
  its reset leaves the buffer's contents alone.  The reference definition is \<open>md4_spec\<close>.
\<close>

record fr_md4_ctx_local =
  md4_state :: md_state
  md4_count0 :: u32
  md4_count1 :: u32
  md4_buffer :: bytes

definition MD4_F1 :: "u32 \<Rightarrow> u32 \<Rightarrow> u32 \<Rightarrow> u32" where
  "MD4_F1 x y z = z XOR (x AND (y XOR z))"

definition MD4_F2 :: "u32 \<Rightarrow> u32 \<Rightarrow> u32 \<Rightarrow> u32" where
  "MD4_F2 x y z = (x AND y) OR (x AND z) OR (y AND z)"

definition MD4_F3 :: "u32 \<Rightarrow> u32 \<Rightarrow> u32 \<Rightarrow> u32" where
  "MD4_F3 x y z = x XOR y XOR z"

text \<open>As for MD5, a step returns the registers in the order the next call names them.\<close>

fun MD4STEP :: "(u32 \<Rightarrow> u32 \<Rightarrow> u32 \<Rightarrow> u32) \<Rightarrow> md_state \<Rightarrow> u32 \<Rightarrow> nat \<Rightarrow> md_state" where
  "MD4STEP f (w, x, y, z) data s = (z, rol32 s (w + (f x y z + data)), x, y)"

definition md4_round1 :: "(nat \<times> nat) list" where
  "md4_round1 = [
     (0, 3), (1, 7), (2, 11), (3, 19), (4, 3), (5, 7), (6, 11), (7, 19),
     (8, 3), (9, 7), (10, 11), (11, 19), (12, 3), (13, 7), (14, 11), (15, 19)]"

definition md4_round2 :: "(nat \<times> nat) list" where
  "md4_round2 = [
     (0, 3), (4, 5), (8, 9), (12, 13), (1, 3), (5, 5), (9, 9), (13, 13),
     (2, 3), (6, 5), (10, 9), (14, 13), (3, 3), (7, 5), (11, 9), (15, 13)]"

definition md4_round3 :: "(nat \<times> nat) list" where
  "md4_round3 = [
     (0, 3), (8, 9), (4, 11), (12, 15), (2, 3), (10, 9), (6, 11), (14, 15),
     (1, 3), (9, 9), (5, 11), (13, 15), (3, 3), (11, 9), (7, 11), (15, 15)]"

fun md4_steps ::
  "(u32 \<Rightarrow> u32 \<Rightarrow> u32 \<Rightarrow> u32) \<Rightarrow> u32 \<Rightarrow> u32 list \<Rightarrow> (nat \<times> nat) list \<Rightarrow> md_state \<Rightarrow> md_state" where
  "md4_steps f k inw [] r = r"
| "md4_steps f k inw ((i, s) # steps) r = md4_steps f k inw steps (MD4STEP f r (inw ! i + k) s)"

fun fr_md4_local_transform :: "md_state \<Rightarrow> bytes \<Rightarrow> md_state" where
  "fr_md4_local_transform (s0, s1, s2, s3) block =
     (let inw = map (\<lambda>a. get_32bit_le block (a * 4)) [0..<16];
          r1 = md4_steps MD4_F1 0 inw md4_round1 (s0, s1, s2, s3);
          r2 = md4_steps MD4_F2 0x5a827999 inw md4_round2 r1;
          (a, b, c, d) = md4_steps MD4_F3 0x6ed9eba1 inw md4_round3 r2
      in (s0 + a, s1 + b, s2 + c, s3 + d))"

declare fr_md4_local_transform.simps [simp del]

definition fr_md4_local_ctx_reset :: "fr_md4_ctx_local \<Rightarrow> fr_md4_ctx_local" where
  "fr_md4_local_ctx_reset ctx =
     ctx\<lparr>md4_state := (0x67452301, 0xefcdab89, 0x98badcfe, 0x10325476), md4_count0 := 0, md4_count1 := 0\<rparr>"

definition fr_md4_local_ctx_copy :: "fr_md4_ctx_local \<Rightarrow> fr_md4_ctx_local \<Rightarrow> fr_md4_ctx_local" where
  "fr_md4_local_ctx_copy dst src = src"

text \<open>The loop over whole blocks and the final copy: the state and the buffer it leaves.\<close>

function md4_loop :: "md_state \<Rightarrow> bytes \<Rightarrow> bytes \<Rightarrow> md_state \<times> bytes" where
  "md4_loop st buf inp =
     (if length inp \<ge> 64
      then md4_loop (fr_md4_local_transform st (put_at buf 0 (take 64 inp))) (put_at buf 0 (take 64 inp)) (drop 64 inp)
      else (st, put_at buf 0 inp))"
  by pat_completeness auto
termination
  by (relation "measure (\<lambda>(st, buf, inp). length inp)") auto

declare md4_loop.simps [simp del]

definition fr_md4_local_update :: "fr_md4_ctx_local \<Rightarrow> bytes \<Rightarrow> fr_md4_ctx_local" where
  "fr_md4_local_update ctx inp =
     (let inlen = length inp;
          inlen32 = (of_nat inlen :: u32);
          count = unat (drop_bit 3 (md4_count0 ctx) AND 0x3f);
          c0 = md4_count0 ctx + push_bit 3 inlen32;
          c1 = (if c0 < inlen32 then md4_count1 ctx + 1 else md4_count1 ctx) + drop_bit 29 inlen32;
          ctx1 = ctx\<lparr>md4_count0 := c0, md4_count1 := c1\<rparr>
      in if count \<noteq> 0 \<and> inlen < 64 - count then
           ctx1\<lparr>md4_buffer := put_at (md4_buffer ctx) count inp\<rparr>
         else
           let (st, buf, inp') =
             (if count \<noteq> 0 then
                let b = put_at (md4_buffer ctx) count (take (64 - count) inp)
                in (fr_md4_local_transform (md4_state ctx) b, b, drop (64 - count) inp)
              else (md4_state ctx, md4_buffer ctx, inp));
             (st', buf') = md4_loop st buf inp'
           in ctx1\<lparr>md4_state := st', md4_buffer := buf'\<rparr>)"

definition fr_md4_local_final :: "fr_md4_ctx_local \<Rightarrow> bytes \<times> fr_md4_ctx_local" where
  "fr_md4_local_final ctx =
     (let count = unat (drop_bit 3 (md4_count0 ctx) AND 0x3f);
          buf1 = put_at (md4_buffer ctx) count [0x80];
          count' = 64 - 1 - count;
          st2 = (if count' < 8
                 then fr_md4_local_transform (md4_state ctx) (put_at buf1 (count + 1) (replicate count' 0))
                 else md4_state ctx);
          buf2 = (if count' < 8
                  then put_at (put_at buf1 (count + 1) (replicate count' 0)) 0 (replicate 56 0)
                  else put_at buf1 (count + 1) (replicate (count' - 8) 0));
          (a, b, c, d) = fr_md4_local_transform st2
            (put_at buf2 56 (put_32bit_le (md4_count0 ctx) @ put_32bit_le (md4_count1 ctx)))
      in (put_32bit_le a @ put_32bit_le b @ put_32bit_le c @ put_32bit_le d,
          \<lparr>md4_state = (0, 0, 0, 0), md4_count0 = 0, md4_count1 = 0, md4_buffer = replicate 64 0\<rparr>))"

definition fr_md4_calc :: "bytes \<Rightarrow> bytes" where
  "fr_md4_calc inp =
     fst (fr_md4_local_final (fr_md4_local_update (fr_md4_local_ctx_reset
       \<lparr>md4_state = (0, 0, 0, 0), md4_count0 = 0, md4_count1 = 0, md4_buffer = replicate 64 0\<rparr>) inp))"

subsection \<open>Streaming\<close>

definition md4_spec :: "bytes \<Rightarrow> bytes" where
  "md4_spec m =
     (let bits = 8 * length m;
          count = put_32bit_le (of_nat (bits mod 2 ^ 32)) @ put_32bit_le (of_nat (bits div 2 ^ 32));
          (a, b, c, d) = fst (absorb fr_md4_local_transform md5_init_state (m @ md_pad (length m) @ count))
      in put_32bit_le a @ put_32bit_le b @ put_32bit_le c @ put_32bit_le d)"

definition md4_absorbed :: "fr_md4_ctx_local \<Rightarrow> bytes \<Rightarrow> bool" where
  "md4_absorbed ctx m \<longleftrightarrow>
     (md4_state ctx, take (length m mod 64) (md4_buffer ctx)) =
       absorb fr_md4_local_transform md5_init_state m \<and>
     length (md4_buffer ctx) = 64 \<and>
     md4_count0 ctx = of_nat (8 * length m) \<and>
     (length m < 2 ^ 29 \<longrightarrow> md4_count1 ctx = 0)"

lemma md4_absorbed_reset:
  "length (md4_buffer ctx) = 64 \<Longrightarrow> md4_absorbed (fr_md4_local_ctx_reset ctx) []"
  by (simp add: md4_absorbed_def fr_md4_local_ctx_reset_def md5_init_state_def)

lemma md4_have: "md4_absorbed ctx m \<Longrightarrow> unat (drop_bit 3 (md4_count0 ctx) AND 63) = length m mod 64"
  by (simp add: md4_absorbed_def buffered_bytes del: of_nat_mult)

lemma md4_loop_absorb:
  assumes "length buf = 64"
  shows "fst (md4_loop st buf inp) = fst (absorb fr_md4_local_transform st inp) \<and>
    length (snd (md4_loop st buf inp)) = 64 \<and>
    take (length inp mod 64) (snd (md4_loop st buf inp)) = snd (absorb fr_md4_local_transform st inp)"
  using assms
proof (induction st buf inp rule: md4_loop.induct)
  case (1 st buf inp)
  show ?case
  proof (cases "64 \<le> length inp")
    case True
    then have blk: "put_at buf 0 (take 64 inp) = take 64 inp"
      using "1.prems" by (simp add: put_at_def)
    from True have "length (drop 64 inp) mod 64 = length inp mod 64" by (simp add: le_mod_geq)
    with True "1.IH" show ?thesis
      by (simp add: md4_loop.simps [of st buf inp] blk absorb_block [of inp])
  next
    case False
    with "1.prems" show ?thesis by (simp add: md4_loop.simps [of st buf inp]) (simp add: put_at_def)
  qed
qed

lemma md4_update_absorb:
  fixes d :: bytes
  assumes "md4_absorbed ctx m"
  defines "h \<equiv> length m mod 64"
  defines "r \<equiv> absorb fr_md4_local_transform (md4_state ctx) (take h (md4_buffer ctx) @ d)"
  shows "md4_state (fr_md4_local_update ctx d) = fst r \<and>
    length (md4_buffer (fr_md4_local_update ctx d)) = 64 \<and>
    take (length (snd r)) (md4_buffer (fr_md4_local_update ctx d)) = snd r"
proof -
  have len: "length (md4_buffer ctx) = 64" and h: "h < 64"
    using assms(1) by (auto simp: md4_absorbed_def h_def)
  have hv: "unat (drop_bit 3 (md4_count0 ctx) AND 63) = h"
    using md4_have [OF assms(1)] by (simp add: h_def)
  consider (fill) "64 - h \<le> length d" "h \<noteq> 0" | (blocks) "h = 0" | (short) "length d < 64 - h" "h \<noteq> 0"
    by linarith
  then show ?thesis
  proof cases
    case fill
    let ?b = "put_at (md4_buffer ctx) h (take (64 - h) d)"
    let ?e = "drop (64 - h) d"
    have blk: "?b = take h (md4_buffer ctx) @ take (64 - h) d"
      using fill len h by (simp add: put_at_def)
    have "r = absorb fr_md4_local_transform (fr_md4_local_transform (md4_state ctx) ?b) ?e"
      using fill len h by (simp add: r_def blk absorb_block)
    moreover have "length ?b = 64" using fill len h by (simp add: blk)
    ultimately show ?thesis
      using fill md4_loop_absorb [of ?b "fr_md4_local_transform (md4_state ctx) ?b" ?e]
      by (simp add: fr_md4_local_update_def hv Let_def case_prod_unfold length_snd_absorb)
  next
    case blocks
    then have "r = absorb fr_md4_local_transform (md4_state ctx) d" by (simp add: r_def)
    with blocks md4_loop_absorb [OF len, of "md4_state ctx" d] show ?thesis
      by (simp add: fr_md4_local_update_def hv Let_def case_prod_unfold length_snd_absorb)
  next
    case short
    then have "r = (md4_state ctx, take h (md4_buffer ctx) @ d)"
      using len h by (simp add: r_def)
    with short len h show ?thesis
      by (simp add: fr_md4_local_update_def hv Let_def put_at_def)
  qed
qed

lemma md4_update_counts:
  "md4_count0 (fr_md4_local_update ctx d) = md4_count0 ctx + push_bit 3 (of_nat (length d))"
  "md4_count1 (fr_md4_local_update ctx d) =
     (if md4_count0 (fr_md4_local_update ctx d) < of_nat (length d)
      then md4_count1 ctx + 1 else md4_count1 ctx) + drop_bit 29 (of_nat (length d))"
  by (simp_all add: fr_md4_local_update_def Let_def case_prod_unfold)

lemma md4_absorbed_update:
  assumes "md4_absorbed ctx m"
  shows "md4_absorbed (fr_md4_local_update ctx d) (m @ d)"
proof -
  let ?T = fr_md4_local_transform
  let ?ctx = "fr_md4_local_update ctx d"
  have m: "absorb ?T md5_init_state m = (md4_state ctx, take (length m mod 64) (md4_buffer ctx))"
    and c: "md4_count0 ctx = of_nat (8 * length m)" "length m < 2 ^ 29 \<Longrightarrow> md4_count1 ctx = 0"
    using assms by (auto simp: md4_absorbed_def)
  have md: "absorb ?T md5_init_state (m @ d) =
      absorb ?T (md4_state ctx) (take (length m mod 64) (md4_buffer ctx) @ d)"
    by (simp add: absorb_append [of _ _ m] m)
  have "length (snd (absorb ?T md5_init_state (m @ d))) = length (m @ d) mod 64"
    by (rule length_snd_absorb)
  then have "(md4_state ?ctx, take (length (m @ d) mod 64) (md4_buffer ?ctx)) = absorb ?T md5_init_state (m @ d)"
    using md4_update_absorb [OF assms, of d] by (simp add: md prod_eq_iff)
  moreover have c0: "md4_count0 ?ctx = of_nat (8 * length (m @ d))"
    using c(1) bit_count_add [of "length m" "length d"] by (simp add: md4_update_counts(1) del: of_nat_mult of_nat_add)
  moreover have "length (m @ d) < 2 ^ 29 \<Longrightarrow> md4_count1 ?ctx = 0"
    using c(2) bit_count_no_carry [of "length m" "length d"]
    by (simp add: md4_update_counts(2) c0 del: of_nat_mult of_nat_add)
  ultimately show ?thesis
    using md4_update_absorb [OF assms] by (simp add: md4_absorbed_def)
qed

text \<open>The last one or two blocks, padded in the buffer, are those of the padded message.\<close>

lemma md4_final_blocks:
  fixes h :: nat
  assumes "length buf = 64" "h < 64" "length cnt = 8"
  defines "b1 \<equiv> put_at buf h [0x80]"
  defines "b2 \<equiv> put_at b1 (h + 1) (replicate (63 - h) 0)"
  shows "h < 56 \<Longrightarrow> put_at (put_at b1 (h + 1) (replicate (55 - h) 0)) 56 cnt =
      take h buf @ md_pad h @ cnt"
    and "56 \<le> h \<Longrightarrow> b2 @ put_at (put_at b2 0 (replicate 56 0)) 56 cnt = take h buf @ md_pad h @ cnt"
    and "56 \<le> h \<Longrightarrow> length b2 = 64"
proof -
  have pad1: "(119 - h) mod 64 = 55 - h" if "h < 56" using that by (simp add: le_mod_geq)
  have sfx: "56 - h = Suc (55 - h)" if "h < 56" using that by simp
  have pad2: "md_pad h = 0x80 # replicate (63 - h) 0 @ replicate 56 0" if "56 \<le> h"
    using that assms(2) by (simp add: md_pad_def replicate_add [symmetric])
  show "h < 56 \<Longrightarrow> put_at (put_at b1 (h + 1) (replicate (55 - h) 0)) 56 cnt = take h buf @ md_pad h @ cnt"
    using assms(1-3) by (simp add: b1_def put_at_def md_pad_def pad1 sfx)
  show "56 \<le> h \<Longrightarrow> length b2 = 64"
    using assms(1-3) by (simp add: b1_def b2_def put_at_def)
  show "56 \<le> h \<Longrightarrow> b2 @ put_at (put_at b2 0 (replicate 56 0)) 56 cnt = take h buf @ md_pad h @ cnt"
    using assms(1-3) by (simp add: b1_def b2_def put_at_def pad2)
qed

lemma md4_final_digest:
  assumes "md4_absorbed ctx m" "length m < 2 ^ 29"
  shows "fst (fr_md4_local_final ctx) = md4_spec m"
proof -
  let ?T = fr_md4_local_transform
  define h where "h = length m mod 64"
  let ?count = "put_32bit_le (md4_count0 ctx) @ put_32bit_le (md4_count1 ctx)"
  let ?rest = "take h (md4_buffer ctx) @ md_pad h @ ?count"
  have len: "length (md4_buffer ctx) = 64" and h: "h < 64"
    and c: "md4_count0 ctx = of_nat (8 * length m)" "md4_count1 ctx = 0"
    and m: "absorb ?T md5_init_state m = (md4_state ctx, take h (md4_buffer ctx))"
    using assms by (auto simp: md4_absorbed_def h_def)
  have hv: "unat (drop_bit 3 (md4_count0 ctx) AND 63) = h"
    using md4_have [OF assms(1)] by (simp add: h_def)
  have count: "?count = put_32bit_le (of_nat (8 * length m mod 2 ^ 32)) @
      put_32bit_le (of_nat (8 * length m div 2 ^ 32))"
    using assms(2) by (simp add: c)
  have pad: "md_pad (length m) = md_pad h" by (simp add: md_pad_def h_def)
  have spec: "md4_spec m = (let (a, b, c, d) = fst (absorb ?T (md4_state ctx) ?rest)
      in put_32bit_le a @ put_32bit_le b @ put_32bit_le c @ put_32bit_le d)"
    unfolding md4_spec_def Let_def count [symmetric] pad
    by (simp add: absorb_append [of _ _ m] m)
  note blocks = md4_final_blocks [OF len h, of ?count]
  show ?thesis
  proof (cases "h < 56")
    case True
    let ?b = "put_at (put_at (put_at (md4_buffer ctx) h [0x80]) (h + 1) (replicate (55 - h) 0)) 56 ?count"
    have "length ?b = 64" using len True by simp
    with blocks(1) True have "absorb ?T (md4_state ctx) ?rest = (?T (md4_state ctx) ?b, [])"
      using absorb_one_block [of ?b ?T "md4_state ctx" "[]"] by simp
    moreover have "\<not> 63 - h < 8" "63 - h - 8 = 55 - h" using True by auto
    ultimately show ?thesis
      using spec by (simp add: fr_md4_local_final_def Let_def hv case_prod_unfold)
  next
    case False
    let ?b2 = "put_at (put_at (md4_buffer ctx) h [0x80]) (h + 1) (replicate (63 - h) 0)"
    let ?b3 = "put_at (put_at ?b2 0 (replicate 56 0)) 56 ?count"
    have l: "length ?b2 = 64" "length ?b3 = 64" using len h blocks(3) False by simp_all
    have "absorb ?T (md4_state ctx) (?b2 @ ?b3) = (?T (?T (md4_state ctx) ?b2) ?b3, [])"
      using l(2) absorb_one_block [of ?b3 ?T _ "[]"] by (simp only: absorb_one_block [OF l(1)]) simp
    then have "absorb ?T (md4_state ctx) ?rest = (?T (?T (md4_state ctx) ?b2) ?b3, [])"
      using blocks(2) False by simp
    moreover have "63 - h < 8" using False h by simp
    ultimately show ?thesis
      using spec
      by (simp add: fr_md4_local_final_def Let_def hv case_prod_unfold)
  qed
qed

lemma length_md4_spec: "length (md4_spec m) = 16"
  by (simp add: md4_spec_def Let_def case_prod_unfold)

definition md4_final_out :: "fr_md4_ctx_local \<Rightarrow> bytes" where
  "md4_final_out ctx = fst (fr_md4_local_final ctx)"

definition md4_new :: fr_md4_ctx_local where
  "md4_new = fr_md4_local_ctx_reset
     \<lparr>md4_state = (0, 0, 0, 0), md4_count0 = 0, md4_count1 = 0, md4_buffer = replicate 64 0\<rparr>"

interpretation md4: stream_digest md4_new fr_md4_local_update md4_final_out md4_absorbed md4_spec "2 ^ 29" 16
  by unfold_locales
    (auto simp: md4_new_def md4_absorbed_reset md4_absorbed_update md4_final_digest md4_final_out_def
       length_md4_spec)



text \<open>
  (MD4 test vectors) The digests of the empty message and of \<open>abc\<close> are those of RFC 1320's test suite.
\<close>

lemma md4_test_vectors:
  "fr_md4_calc [] = [0x31, 0xd6, 0xcf, 0xe0, 0xd1, 0x6a, 0xe9, 0x31, 0xb7, 0x3c, 0x59, 0xd7, 0xe0, 0xc0, 0x89, 0xc0] \<and>
   fr_md4_calc [0x61, 0x62, 0x63] = [0xa4, 0x48, 0x01, 0x7a, 0xaf, 0x21, 0xd8, 0x52, 0x5f, 0xc1, 0x0a, 0xe8, 0x7a, 0xa6, 0x72, 0x9d]"
  by code_simp

subsection \<open>The thread-local list of contexts\<close>

definition fr_md4_ctx_alloc_from_list ::
  "fr_md4_ctx_local free_list_entry list option \<Rightarrow>
   ctx_ref \<times> fr_md4_ctx_local \<times> fr_md4_ctx_local free_list_entry list option" where
  "fr_md4_ctx_alloc_from_list = ctx_alloc_from_list md4_new"

definition fr_md4_ctx_free_from_list ::
  "ctx_ref \<Rightarrow> fr_md4_ctx_local free_list_entry list option \<Rightarrow> fr_md4_ctx_local free_list_entry list option" where
  "fr_md4_ctx_free_from_list = ctx_free_from_list fr_md4_local_ctx_reset"

definition md4_wf :: "fr_md4_ctx_local \<Rightarrow> bool" where
  "md4_wf ctx \<longleftrightarrow> length (md4_buffer ctx) = 64"

interpretation md4_list: ctx_pool md4_new fr_md4_local_ctx_reset md4_wf "\<lambda>ctx. md4_absorbed ctx []"
  by unfold_locales
    (auto simp: md4.absorbed_new md4_absorbed_reset md4_wf_def, simp add: md4_absorbed_def)

text \<open>
  (the digest of a context from the list) A context that \<open>fr_md4_ctx_alloc_from_list\<close> hands out in
  any run of allocations, uses and releases digests like a new one, although the reset left old
  bytes in its buffer; and it is not a slot that another holder has.
\<close>

theorem md4_alloc_digest:
  assumes "pool_run md4_new fr_md4_local_ctx_reset md4_wf arr held"
    and "fr_md4_ctx_alloc_from_list arr = (r, ctx, arr')" "length m < 2 ^ 29"
  shows "fst (fr_md4_local_final (fr_md4_local_update ctx m)) = md4_spec m \<and>
    (\<forall>i. r = Slot i \<longrightarrow> i \<notin> held \<and> i < 8)"
proof -
  have "md4_absorbed ctx []" "\<forall>i. r = Slot i \<longrightarrow> i \<notin> held \<and> i < 8"
    using md4_list.alloc_exclusive assms(1,2) by (auto simp: fr_md4_ctx_alloc_from_list_def)
  then show ?thesis
    using md4_final_digest [OF md4_absorbed_update, of ctx "[]" m] assms(3) by simp
qed

definition md4_list_ex :: "fr_md4_ctx_local free_list_entry list option" where
  "md4_list_ex = snd (snd (fr_md4_ctx_alloc_from_list None))"

theorem md4_alloc_digest_witness:
  "pool_run md4_new fr_md4_local_ctx_reset md4_wf md4_list_ex {0} \<and>
   (\<exists>ctx arr'. fr_md4_ctx_alloc_from_list md4_list_ex = (Slot 1, ctx, arr') \<and>
     fst (fr_md4_local_final (fr_md4_local_update ctx [1, 2, 3])) = md4_spec [1, 2, 3])"
proof -
  have alloc: "ctx_alloc_from_list md4_new None = (Slot 0, md4_new, md4_list_ex)"
    by (simp add: fr_md4_ctx_alloc_from_list_def ctx_alloc_from_list_def md4_list_ex_def numeral_eq_Suc)
  have run: "pool_run md4_new fr_md4_local_ctx_reset md4_wf md4_list_ex {0}"
    using pool_alloc_slot [OF pool_start alloc] by simp
  obtain ctx arr' where "fr_md4_ctx_alloc_from_list md4_list_ex = (Slot 1, ctx, arr')"
    by (simp add: fr_md4_ctx_alloc_from_list_def ctx_alloc_from_list_def md4_list_ex_def numeral_eq_Suc)
  with md4_alloc_digest [OF run _ , of _ _ _ "[1, 2, 3]"] run show ?thesis by fastforce
qed

end
