(* ===== verification/Sha1.thy ===== *)
theory Sha1
  imports Digest
begin

text \<open>
  The built-in SHA-1 and HMAC-SHA1 (\<open>src/lib/util/sha1.c\<close> and \<open>hmac_sha1.c\<close>) on a little-endian
  host.  The block routine keeps the message schedule in sixteen words that it overwrites; it is
  shown to compute the compression function of FIPS 180, whose schedule has eighty words.  Lengths
  are those of one call with less than \<open>2\<^sup>3\<^sup>2 - 64\<close> bytes, so that the \<open>unsigned int\<close> index of
  \<open>fr_sha1_update\<close> does not wrap.
\<close>

subsection \<open>The block routine\<close>

type_synonym sha_state = "u32 \<times> u32 \<times> u32 \<times> u32 \<times> u32"

definition htonl :: "u32 \<Rightarrow> u32" where
  "htonl v = push_bit 24 v OR (push_bit 8 v AND 0xff0000) OR (drop_bit 8 v AND 0xff00) OR drop_bit 24 v"

definition blk0 :: "u32 list \<Rightarrow> nat \<Rightarrow> u32" where
  "blk0 l i = htonl (l ! i)"

definition blk :: "u32 list \<Rightarrow> nat \<Rightarrow> u32" where
  "blk l i = rol32 1 (l ! ((i + 13) mod 16) XOR l ! ((i + 8) mod 16) XOR l ! ((i + 2) mod 16) XOR l ! (i mod 16))"

text \<open>
  Each round macro updates \<open>z\<close> and \<open>w\<close> and one word of the block; the registers are returned in the
  order in which the next call names them.
\<close>

fun R0 :: "sha_state \<times> u32 list \<Rightarrow> nat \<Rightarrow> sha_state \<times> u32 list" where
  "R0 ((v, w, x, y, z), l) i =
     ((z + (((w AND (x XOR y)) XOR y) + blk0 l i + 0x5A827999 + rol32 5 v), v, rol32 30 w, x, y),
      l[i := blk0 l i])"

fun R1 :: "sha_state \<times> u32 list \<Rightarrow> nat \<Rightarrow> sha_state \<times> u32 list" where
  "R1 ((v, w, x, y, z), l) i =
     ((z + (((w AND (x XOR y)) XOR y) + blk l i + 0x5A827999 + rol32 5 v), v, rol32 30 w, x, y),
      l[i mod 16 := blk l i])"

fun R2 :: "sha_state \<times> u32 list \<Rightarrow> nat \<Rightarrow> sha_state \<times> u32 list" where
  "R2 ((v, w, x, y, z), l) i =
     ((z + ((w XOR x XOR y) + blk l i + 0x6ED9EBA1 + rol32 5 v), v, rol32 30 w, x, y),
      l[i mod 16 := blk l i])"

fun R3 :: "sha_state \<times> u32 list \<Rightarrow> nat \<Rightarrow> sha_state \<times> u32 list" where
  "R3 ((v, w, x, y, z), l) i =
     ((z + ((((w OR x) AND y) OR (w AND x)) + blk l i + 0x8F1BBCDC + rol32 5 v), v, rol32 30 w, x, y),
      l[i mod 16 := blk l i])"

fun R4 :: "sha_state \<times> u32 list \<Rightarrow> nat \<Rightarrow> sha_state \<times> u32 list" where
  "R4 ((v, w, x, y, z), l) i =
     ((z + ((w XOR x XOR y) + blk l i + 0xCA62C1D6 + rol32 5 v), v, rol32 30 w, x, y),
      l[i mod 16 := blk l i])"

fun sha1_add :: "sha_state \<Rightarrow> sha_state \<Rightarrow> sha_state" where
  "sha1_add (s0, s1, s2, s3, s4) (a, b, c, d, e) = (s0 + a, s1 + b, s2 + c, s3 + d, s4 + e)"

definition fr_sha1_transform :: "sha_state \<Rightarrow> bytes \<Rightarrow> sha_state" where
  "fr_sha1_transform state buffer =
     (let block = map (\<lambda>a. get_32bit_le buffer (a * 4)) [0..<16]
      in sha1_add state (fst
           (foldl R4 (foldl R3 (foldl R2 (foldl R1 (foldl R0 (state, block)
              [0..<16]) [16..<20]) [20..<40]) [40..<60]) [60..<80])))"

subsection \<open>The compression function of FIPS 180\<close>

definition get_32bit_be :: "bytes \<Rightarrow> nat \<Rightarrow> u32" where
  "get_32bit_be b i =
     push_bit 24 (ucast (b ! i)) OR push_bit 16 (ucast (b ! (i + 1))) OR
     push_bit 8 (ucast (b ! (i + 2))) OR (ucast (b ! (i + 3)) :: u32)"

function sha1_W :: "bytes \<Rightarrow> nat \<Rightarrow> u32" where
  "sha1_W b t =
     (if t < 16 then get_32bit_be b (t * 4)
      else rol32 1 (sha1_W b (t - 3) XOR sha1_W b (t - 8) XOR sha1_W b (t - 14) XOR sha1_W b (t - 16)))"
  by pat_completeness auto
termination
  by (relation "measure snd") auto

declare sha1_W.simps [simp del]

definition sha1_f :: "nat \<Rightarrow> u32 \<Rightarrow> u32 \<Rightarrow> u32 \<Rightarrow> u32" where
  "sha1_f t x y z =
     (if t < 20 then (x AND y) XOR ((NOT x) AND z)
      else if t < 40 then x XOR y XOR z
      else if t < 60 then (x AND y) XOR (x AND z) XOR (y AND z)
      else x XOR y XOR z)"

definition sha1_K :: "nat \<Rightarrow> u32" where
  "sha1_K t = (if t < 20 then 0x5a827999 else if t < 40 then 0x6ed9eba1
               else if t < 60 then 0x8f1bbcdc else 0xca62c1d6)"

fun sha1_step :: "bytes \<Rightarrow> sha_state \<Rightarrow> nat \<Rightarrow> sha_state" where
  "sha1_step b (A, B, C, D, E) t =
     (rol32 5 A + sha1_f t B C D + E + sha1_K t + sha1_W b t, A, rol32 30 B, C, D)"

definition sha1_compress :: "sha_state \<Rightarrow> bytes \<Rightarrow> sha_state" where
  "sha1_compress st b = sha1_add st (foldl (sha1_step b) st [0..<80])"

subsection \<open>The sixteen-word schedule\<close>

text \<open>
  Before step \<open>t\<close> the block holds the schedule's words \<open>t - 16, \<dots>, t - 1\<close>, and for \<open>t < 16\<close> the
  words of the message that are not yet byte-swapped.
\<close>

definition sched_inv :: "bytes \<Rightarrow> nat \<Rightarrow> u32 list \<Rightarrow> bool" where
  "sched_inv b t l \<longleftrightarrow> length l = 16 \<and>
     (\<forall>u < t. t \<le> u + 16 \<longrightarrow> l ! (u mod 16) = sha1_W b u) \<and>
     (\<forall>u < 16. t \<le> u \<longrightarrow> htonl (l ! u) = sha1_W b u)"

lemma htonl_bytes:
  "htonl (ucast (a :: byte) OR push_bit 8 (ucast b) OR push_bit 16 (ucast c) OR push_bit 24 (ucast (d :: byte))) =
   push_bit 24 (ucast a) OR push_bit 16 (ucast (b :: byte)) OR push_bit 8 (ucast (c :: byte)) OR ucast d"
proof (rule bit_word_eqI)
  fix n assume "n < LENGTH(32)"
  then have n: "n < 32" by simp
  have m: "(0xff0000::u32) = push_bit 16 (mask 8)" "(0xff00::u32) = push_bit 8 (mask 8)"
    by (simp_all add: mask_numeral)
  have z: "\<not> bit x k" if "8 \<le> k" for x :: byte and k using that by (auto dest: bit_imp_le_length)
  consider k where "n = k" "k < 8" | k where "n = k + 8" "k < 8"
    | k where "n = k + 16" "k < 8" | k where "n = k + 24" "k < 8"
    using n that(1) [of n] that(2) [of "n - 8"] that(3) [of "n - 16"] that(4) [of "n - 24"] by linarith
  then show "bit (htonl (ucast a OR push_bit 8 (ucast b) OR push_bit 16 (ucast c) OR push_bit 24 (ucast d))) n =
   bit (push_bit 24 (ucast a) OR push_bit 16 (ucast b) OR push_bit 8 (ucast c) OR ucast d :: u32) n"
    by cases (simp_all only: htonl_def m, simp_all add: bit_simps z)
qed

lemma htonl_get: "htonl (get_32bit_le b i) = get_32bit_be b i"
  by (simp add: get_32bit_le_def get_32bit_be_def htonl_bytes)

lemma sched_start: "sched_inv b 0 (map (\<lambda>a. get_32bit_le b (a * 4)) [0..<16])"
  by (simp add: sched_inv_def htonl_get sha1_W.simps)

lemma sched_blk0: "sched_inv b t l \<Longrightarrow> t < 16 \<Longrightarrow> blk0 l t = sha1_W b t"
  by (simp add: sched_inv_def blk0_def)

lemma sched_blk:
  assumes "sched_inv b t l" "16 \<le> t"
  shows "blk l t = sha1_W b t"
proof -
  have r: "l ! (u mod 16) = sha1_W b u" if "u < t" "t \<le> u + 16" for u
    using assms(1) that by (simp add: sched_inv_def)
  obtain s where s: "t = s + 16" using assms(2) nat_le_iff_add by (metis add.commute)
  have "(t + 13) mod 16 = (t - 3) mod 16" "(t + 8) mod 16 = (t - 8) mod 16"
    "(t + 2) mod 16 = (t - 14) mod 16" "t mod 16 = (t - 16) mod 16"
    using mod_add_self2 [of "s + 13" 16] mod_add_self2 [of "s + 8" 16] mod_add_self2 [of "s + 2" 16]
    by (simp_all add: s add.commute)
  then show ?thesis
    using assms(2) by (simp add: blk_def r sha1_W.simps [of b t])
qed

lemma sched_next:
  assumes "sched_inv b t l"
  shows "sched_inv b (Suc t) (l[t mod 16 := sha1_W b t])"
proof -
  have ne: "t mod 16 \<noteq> u mod 16" if "u < t" "t \<le> 15 + u" for u
  proof
    assume "t mod 16 = u mod 16"
    with that(1) have "16 dvd t - u" by (simp add: mod_eq_dvd_iff_nat)
    with that show False by (auto dest: dvd_imp_le)
  qed
  from assms show ?thesis
    by (auto simp: sched_inv_def nth_list_update less_Suc_eq ne)
qed

lemma sha1_choose: "((w AND (x XOR y)) XOR y :: u32) = (w AND x) XOR ((NOT w) AND y)"
  by (rule bit_word_eqI) (auto simp: bit_simps)

lemma sha1_majority: "(((w OR x) AND y) OR (w AND x) :: u32) = (w AND x) XOR (w AND y) XOR (x AND y)"
  by (rule bit_word_eqI) (auto simp: bit_simps)

lemmas sha1_round_simps = sched_blk0 sched_blk sha1_f_def sha1_K_def sha1_choose sha1_majority

text \<open>Each round macro, used at its indices, is the step of the reference.\<close>

definition sha1_simulates ::
  "bytes \<Rightarrow> (sha_state \<times> u32 list \<Rightarrow> nat \<Rightarrow> sha_state \<times> u32 list) \<Rightarrow> nat \<Rightarrow> nat \<Rightarrow> bool" where
  "sha1_simulates b R m n \<longleftrightarrow>
     (\<forall>s l t. sched_inv b t l \<longrightarrow> m \<le> t \<longrightarrow> t < n \<longrightarrow>
        R (s, l) t = (sha1_step b s t, l[t mod 16 := sha1_W b t]))"

lemma sha1_rounds:
  "sha1_simulates b R0 0 16" "sha1_simulates b R1 16 20" "sha1_simulates b R2 20 40"
  "sha1_simulates b R3 40 60" "sha1_simulates b R4 60 80"
  by (auto simp: sha1_simulates_def sha1_round_simps algebra_simps)

lemma sha1_segment:
  assumes "sha1_simulates b R m n" "sched_inv b m (snd p)" "m \<le> n"
  shows "fst (foldl R p [m..<n]) = foldl (sha1_step b) (fst p) [m..<n] \<and>
    sched_inv b n (snd (foldl R p [m..<n]))"
  using assms(3,1)
proof (induction n rule: dec_induct)
  case base
  show ?case using assms(2) by simp
next
  case (step n)
  let ?q = "foldl R p [m..<n]"
  have IH: "fst ?q = foldl (sha1_step b) (fst p) [m..<n]" "sched_inv b n (snd ?q)"
    using step by (auto simp: sha1_simulates_def)
  have "R (fst ?q, snd ?q) n = (sha1_step b (fst ?q) n, (snd ?q)[n mod 16 := sha1_W b n])"
    using IH(2) step unfolding sha1_simulates_def by blast
  then have "R ?q n = (sha1_step b (fst ?q) n, (snd ?q)[n mod 16 := sha1_W b n])"
    by (simp only: prod.collapse)
  with IH step.hyps show ?case by (simp add: sched_next)
qed

lemma sha1_transform_compress: "fr_sha1_transform st b = sha1_compress st b"
proof -
  let ?p0 = "(st, map (\<lambda>a. get_32bit_le b (a * 4)) [0..<16])"
  have s0: "sched_inv b 0 (snd ?p0)" by (simp only: snd_conv sched_start)
  note s1 = sha1_segment [OF sha1_rounds(1) s0 zero_le]
  note s2 = sha1_segment [OF sha1_rounds(2) conjunct2 [OF s1]]
  note s3 = sha1_segment [OF sha1_rounds(3) conjunct2 [OF s2]]
  note s4 = sha1_segment [OF sha1_rounds(4) conjunct2 [OF s3]]
  note s5 = sha1_segment [OF sha1_rounds(5) conjunct2 [OF s4]]
  have "[0..<80] = [0..<16] @ [16..<20] @ [20..<40] @ [40..<60] @ [60..<80]"
    using upt_add_eq_append [of 0 16 64] upt_add_eq_append [of 16 20 60] upt_add_eq_append [of 20 40 40]
      upt_add_eq_append [of 40 60 20] by (simp del: upt_conv_Cons_Cons upt_Suc)
  then show ?thesis
    using s1 s2 s3 s4 s5
    by (simp only: fr_sha1_transform_def sha1_compress_def Let_def foldl_append fst_conv)
qed

text \<open>
  C28: (SHA-1 compression) For every state and every 64-byte block, \<open>fr_sha1_transform\<close>, which keeps
  sixteen words of the schedule and rotates the registers by renaming, computes the compression
  function of FIPS 180.
\<close>

theorem sha1_transform_correct: "fr_sha1_transform st b = sha1_compress st b"
  by (rule sha1_transform_compress)

subsection \<open>Contexts\<close>

record fr_sha1_ctx =
  sha_state :: sha_state
  sha_count0 :: u32
  sha_count1 :: u32
  sha_buffer :: bytes

definition fr_sha1_init :: "fr_sha1_ctx \<Rightarrow> fr_sha1_ctx" where
  "fr_sha1_init ctx =
     ctx\<lparr>sha_state := (0x67452301, 0xEFCDAB89, 0x98BADCFE, 0x10325476, 0xC3D2E1F0),
         sha_count0 := 0, sha_count1 := 0\<rparr>"

text \<open>
  The comparison that detects the carry is between the 32-bit counter and a 64-bit \<open>len << 3\<close>.
\<close>

definition fr_sha1_update :: "fr_sha1_ctx \<Rightarrow> bytes \<Rightarrow> fr_sha1_ctx" where
  "fr_sha1_update ctx inp =
     (if inp = [] then ctx else
      let len = length inp;
          len64 = (of_nat len :: u64);
          j = unat (drop_bit 3 (sha_count0 ctx) AND 63);
          c0 = sha_count0 ctx + ucast (push_bit 3 len64);
          c1 = (if ucast c0 < push_bit 3 len64 then sha_count1 ctx + 1 else sha_count1 ctx) + ucast (drop_bit 29 len64);
          ctx1 = ctx\<lparr>sha_count0 := c0, sha_count1 := c1\<rparr>
      in if j + len > 63 then
           let i = 64 - j;
               buf = put_at (sha_buffer ctx) j (take i inp);
               p = absorb fr_sha1_transform (fr_sha1_transform (sha_state ctx) buf) (drop i inp)
           in ctx1\<lparr>sha_state := fst p, sha_buffer := put_at buf 0 (snd p)\<rparr>
         else ctx1\<lparr>sha_buffer := put_at (sha_buffer ctx) j inp\<rparr>)"

lemma pad_less:
  assumes "h < 64" "h \<noteq> (56::nat)"
  shows "(120 - h) mod 64 = Suc ((120 - Suc h mod 64) mod 64)"
proof -
  consider "h < 56" | "56 < h" "h < 63" | "h = 63" using assms by linarith
  then show ?thesis by cases (auto simp: le_mod_geq)
qed

lemma sha1_update_counts:
  "sha_count0 (fr_sha1_update ctx d) = sha_count0 ctx + of_nat (8 * length d)"
  "d \<noteq> [] \<Longrightarrow> sha_count1 (fr_sha1_update ctx d) =
     (if ucast (sha_count0 (fr_sha1_update ctx d)) < push_bit 3 (of_nat (length d) :: u64)
      then sha_count1 ctx + 1 else sha_count1 ctx) + ucast (drop_bit 29 (of_nat (length d) :: u64))"
proof -
  have "push_bit 3 (of_nat (length d) :: u64) = of_nat (8 * length d)"
    by (simp add: push_bit_eq_mult)
  moreover have "ucast (of_nat n :: u64) = (of_nat n :: u32)" for n
    by (simp add: unsigned_of_nat word_of_nat_eq_iff)
  ultimately have "ucast (push_bit 3 (of_nat (length d) :: u64)) = (of_nat (8 * length d) :: u32)"
    by (simp only:)
  then show "sha_count0 (fr_sha1_update ctx d) = sha_count0 ctx + of_nat (8 * length d)"
    by (simp add: fr_sha1_update_def Let_def del: of_nat_mult)
qed (simp add: fr_sha1_update_def Let_def)

lemma sha1_no_carry:
  assumes "n + k < 2 ^ 29"
  shows "\<not> ucast (of_nat (8 * (n + k)) :: u32) < (push_bit 3 (of_nat k) :: u64)"
    "(ucast (drop_bit 29 (of_nat k :: u64)) :: u32) = 0"
proof -
  have "push_bit 3 (of_nat k :: u64) = of_nat (8 * k)" by (simp add: push_bit_eq_mult)
  moreover have "unat (of_nat (8 * k) :: u64) = 8 * k"
    using assms by (simp add: unat_of_nat del: of_nat_mult)
  moreover have "unat (ucast (of_nat (8 * (n + k)) :: u32) :: u64) = 8 * (n + k)"
    using assms by (simp add: unat_of_nat unsigned_ucast_eq take_bit_nat_eq_self del: of_nat_mult of_nat_add)
  ultimately show "\<not> ucast (of_nat (8 * (n + k)) :: u32) < (push_bit 3 (of_nat k) :: u64)"
    by (simp add: word_less_nat_alt del: of_nat_mult of_nat_add)
  have "unat (of_nat k :: u64) = k"
    using assms by (simp add: unat_of_nat)
  then have "drop_bit 29 (of_nat k :: u64) = 0"
    using assms by (simp add: drop_bit_eq_div word_arith_nat_div)
  then show "(ucast (drop_bit 29 (of_nat k :: u64)) :: u32) = 0" by simp
qed

lemma buffered_unat: "unat (drop_bit 3 (c :: u32) AND 63) = unat c div 8 mod 64"
proof -
  have "drop_bit 3 c AND 63 = take_bit 6 (drop_bit 3 c)"
    by (simp add: take_bit_eq_mask mask_numeral)
  then have "unat (drop_bit 3 c AND 63) = take_bit 6 (drop_bit 3 (take_bit 32 (unat c)))"
    by (simp add: unsigned_take_bit_eq unsigned_drop_bit_eq)
  also have "take_bit 32 (unat c) = unat c"
    using unsigned_less [of c, where 'a = nat] by (simp add: take_bit_nat_eq_self)
  finally show ?thesis by (simp add: take_bit_eq_mod drop_bit_eq_div)
qed

lemma buffered_add8: "unat (drop_bit 3 (c + 8 :: u32) AND 63) = Suc (unat (drop_bit 3 c AND 63)) mod 64"
proof -
  have "(unat c + 8) mod (8 * 2 ^ 29) div 8 = (unat c div 8 + 1) mod 2 ^ 29"
    by (simp only: mod_mult2_eq) (simp add: div_add_self2)
  moreover have "(n mod 2 ^ 29) mod 64 = n mod 64" for n :: nat
    by (simp add: mod_mod_cancel)
  ultimately show ?thesis
    by (simp add: buffered_unat unat_word_ariths mod_Suc_eq)
qed

lemma padded_iff: "(c :: u32) AND 504 = 448 \<longleftrightarrow> unat (drop_bit 3 c AND 63) = 56"
proof -
  have d: "drop_bit 3 (c AND 504) = drop_bit 3 c AND 63" by simp
  have m: "(504::u32) = push_bit 3 (mask 6)" "(63::u32) = mask 6" by (simp_all add: mask_numeral)
  have p: "c AND 504 = push_bit 3 (drop_bit 3 c AND 63)"
    unfolding m by (rule bit_word_eqI) (auto simp: bit_simps)
  show ?thesis
  proof
    assume "c AND 504 = 448"
    with d have "drop_bit 3 c AND 63 = drop_bit 3 448" by simp
    then show "unat (drop_bit 3 c AND 63) = 56" by simp
  next
    assume "unat (drop_bit 3 c AND 63) = 56"
    then have "drop_bit 3 c AND 63 = 56" by (simp only: word_unat_eq_iff unat_numeral) simp
    then show "c AND 504 = 448" by (simp add: p)
  qed
qed
text \<open>The loop that pads with one zero byte at a time.\<close>

function sha1_pad_loop :: "fr_sha1_ctx \<Rightarrow> fr_sha1_ctx" where
  "sha1_pad_loop ctx =
     (if sha_count0 ctx AND 504 \<noteq> 448 then sha1_pad_loop (fr_sha1_update ctx [0]) else ctx)"
  by pat_completeness auto
termination
proof (relation "measure (\<lambda>ctx. (120 - unat (drop_bit 3 (sha_count0 ctx) AND 63)) mod 64)")
  fix ctx :: fr_sha1_ctx
  let ?h = "unat (drop_bit 3 (sha_count0 ctx) AND 63)"
  assume "sha_count0 ctx AND 504 \<noteq> 448"
  then have h: "?h \<noteq> 56" "?h < 64" by (simp add: padded_iff, simp add: buffered_unat)
  have "sha_count0 (fr_sha1_update ctx [0]) = sha_count0 ctx + 8" by (simp add: sha1_update_counts)
  then have "unat (drop_bit 3 (sha_count0 (fr_sha1_update ctx [0])) AND 63) = Suc ?h mod 64"
    by (simp only: buffered_add8)
  with h show "(fr_sha1_update ctx [0], ctx) \<in>
      measure (\<lambda>ctx. (120 - unat (drop_bit 3 (sha_count0 ctx) AND 63)) mod 64)"
    using pad_less [OF h(2,1)] by simp
qed simp

declare sha1_pad_loop.simps [simp del]

fun sha_words :: "sha_state \<Rightarrow> u32 list" where
  "sha_words (a, b, c, d, e) = [a, b, c, d, e]"

definition sha1_out :: "sha_state \<Rightarrow> bytes" where
  "sha1_out st = map (\<lambda>i. ucast (drop_bit ((3 - i mod 4) * 8) (sha_words st ! (i div 4)))) [0..<20]"

definition sha1_finalcount :: "fr_sha1_ctx \<Rightarrow> bytes" where
  "sha1_finalcount ctx =
     map (\<lambda>i. ucast (drop_bit ((3 - i mod 4) * 8) (if i \<ge> 4 then sha_count0 ctx else sha_count1 ctx))) [0..<8]"

definition sha1_wiped :: fr_sha1_ctx where
  "sha1_wiped = \<lparr>sha_state = (0, 0, 0, 0, 0), sha_count0 = 0, sha_count1 = 0, sha_buffer = replicate 64 0\<rparr>"

definition fr_sha1_final :: "fr_sha1_ctx \<Rightarrow> bytes \<times> fr_sha1_ctx" where
  "fr_sha1_final ctx =
     (let finalcount = sha1_finalcount ctx;
          ctx1 = fr_sha1_update ctx [0x80];
          ctx2 = sha1_pad_loop ctx1;
          ctx3 = fr_sha1_update ctx2 finalcount
      in (sha1_out (sha_state ctx3), sha1_wiped))"

definition fr_sha1_final_no_len :: "fr_sha1_ctx \<Rightarrow> bytes \<times> fr_sha1_ctx" where
  "fr_sha1_final_no_len ctx = (sha1_out (sha_state ctx), sha1_wiped)"

subsection \<open>Streaming\<close>

definition put_32bit_be :: "u32 \<Rightarrow> bytes" where
  "put_32bit_be v = [ucast (drop_bit 24 v), ucast (drop_bit 16 v), ucast (drop_bit 8 v), ucast v]"

definition sha1_init_state :: sha_state where
  "sha1_init_state = (0x67452301, 0xEFCDAB89, 0x98BADCFE, 0x10325476, 0xC3D2E1F0)"

definition sha1_spec :: "bytes \<Rightarrow> bytes" where
  "sha1_spec m =
     (let bits = 8 * length m;
          count = put_32bit_be (of_nat (bits div 2 ^ 32)) @ put_32bit_be (of_nat (bits mod 2 ^ 32));
          st = fst (absorb sha1_compress sha1_init_state (m @ md_pad (length m) @ count))
      in concat (map put_32bit_be (sha_words st)))"

definition sha1_absorbed :: "fr_sha1_ctx \<Rightarrow> bytes \<Rightarrow> bool" where
  "sha1_absorbed ctx m \<longleftrightarrow>
     (sha_state ctx, take (length m mod 64) (sha_buffer ctx)) = absorb sha1_compress sha1_init_state m \<and>
     length (sha_buffer ctx) = 64 \<and>
     sha_count0 ctx = of_nat (8 * length m) \<and>
     (length m < 2 ^ 29 \<longrightarrow> sha_count1 ctx = 0)"

lemma sha1_absorbed_init:
  "length (sha_buffer ctx) = 64 \<Longrightarrow> sha1_absorbed (fr_sha1_init ctx) []"
  by (simp add: sha1_absorbed_def fr_sha1_init_def sha1_init_state_def)

lemma sha1_have: "sha1_absorbed ctx m \<Longrightarrow> unat (drop_bit 3 (sha_count0 ctx) AND 63) = length m mod 64"
  by (simp add: sha1_absorbed_def buffered_bytes del: of_nat_mult)

lemma sha1_transform_ext: "fr_sha1_transform = sha1_compress"
  by (intro ext) (rule sha1_transform_compress)

lemma sha1_update_absorb:
  fixes d :: bytes
  assumes "sha1_absorbed ctx m"
  defines "h \<equiv> length m mod 64"
  defines "r \<equiv> absorb sha1_compress (sha_state ctx) (take h (sha_buffer ctx) @ d)"
  shows "sha_state (fr_sha1_update ctx d) = fst r \<and>
    length (sha_buffer (fr_sha1_update ctx d)) = 64 \<and>
    take (length (snd r)) (sha_buffer (fr_sha1_update ctx d)) = snd r"
proof -
  have len: "length (sha_buffer ctx) = 64" and h: "h < 64"
    using assms(1) by (auto simp: sha1_absorbed_def h_def)
  have hv: "unat (drop_bit 3 (sha_count0 ctx) AND 63) = h"
    using sha1_have [OF assms(1)] by (simp add: h_def)
  have lr: "length (snd r) < 64"
    by (simp add: r_def length_snd_absorb)
  show ?thesis
  proof (cases "63 < h + length d")
    case True
    have blk: "put_at (sha_buffer ctx) h (take (64 - h) d) = take h (sha_buffer ctx) @ take (64 - h) d"
      using True len h by (simp add: put_at_def)
    have "r = absorb sha1_compress (sha1_compress (sha_state ctx)
        (put_at (sha_buffer ctx) h (take (64 - h) d))) (drop (64 - h) d)"
      using True len h by (simp add: r_def blk absorb_block)
    moreover have "d \<noteq> []" using True h by auto
    ultimately show ?thesis
      using True len h lr
      by (simp add: fr_sha1_update_def hv Let_def sha1_transform_ext) (simp add: put_at_def)
  next
    case False
    then have "r = (sha_state ctx, take h (sha_buffer ctx) @ d)"
      using len h by (simp add: r_def)
    with False len h show ?thesis
      by (simp add: fr_sha1_update_def hv Let_def put_at_def)
  qed
qed

lemma sha1_absorbed_update:
  assumes "sha1_absorbed ctx m"
  shows "sha1_absorbed (fr_sha1_update ctx d) (m @ d)"
proof -
  let ?T = sha1_compress
  let ?ctx = "fr_sha1_update ctx d"
  have m: "absorb ?T sha1_init_state m = (sha_state ctx, take (length m mod 64) (sha_buffer ctx))"
    and c: "sha_count0 ctx = of_nat (8 * length m)" "length m < 2 ^ 29 \<Longrightarrow> sha_count1 ctx = 0"
    using assms by (auto simp: sha1_absorbed_def)
  have md: "absorb ?T sha1_init_state (m @ d) =
      absorb ?T (sha_state ctx) (take (length m mod 64) (sha_buffer ctx) @ d)"
    by (simp add: absorb_append [of _ _ m] m)
  have "length (snd (absorb ?T sha1_init_state (m @ d))) = length (m @ d) mod 64"
    by (rule length_snd_absorb)
  then have "(sha_state ?ctx, take (length (m @ d) mod 64) (sha_buffer ?ctx)) = absorb ?T sha1_init_state (m @ d)"
    using sha1_update_absorb [OF assms, of d] by (simp add: md prod_eq_iff)
  moreover have c0: "sha_count0 ?ctx = of_nat (8 * length (m @ d))"
    using c(1) by (simp add: sha1_update_counts(1) algebra_simps)
  moreover have "sha_count1 ?ctx = 0" if l: "length (m @ d) < 2 ^ 29"
  proof (cases "d = []")
    case True
    with c(2) l show ?thesis by (simp add: fr_sha1_update_def)
  next
    case False
    then show ?thesis
      using c(2) l sha1_no_carry [of "length m" "length d"]
      by (simp add: sha1_update_counts(2) c0 del: of_nat_mult of_nat_add)
  qed
  ultimately show ?thesis
    using sha1_update_absorb [OF assms] by (simp add: sha1_absorbed_def)
qed

text \<open>The padding loop ends, 56 bytes into a block.\<close>

lemma sha1_pad_loop_absorbed:
  "sha1_absorbed ctx m \<Longrightarrow>
   sha1_absorbed (sha1_pad_loop ctx) (m @ replicate ((120 - length m mod 64) mod 64) 0)"
proof (induction ctx arbitrary: m rule: sha1_pad_loop.induct)
  case (1 ctx)
  let ?h = "length m mod 64"
  have iff: "sha_count0 ctx AND 504 = 448 \<longleftrightarrow> ?h = 56"
    by (simp only: padded_iff sha1_have [OF "1.prems"])
  show ?case
  proof (cases "?h = 56")
    case True
    with iff "1.prems" show ?thesis by (simp add: sha1_pad_loop.simps [of ctx])
  next
    case False
    have "sha1_absorbed (sha1_pad_loop (fr_sha1_update ctx [0]))
      ((m @ [0]) @ replicate ((120 - length (m @ [0]) mod 64) mod 64) 0)"
      using False iff by (intro "1.IH" sha1_absorbed_update "1.prems") simp
    moreover have "(120 - ?h) mod 64 = Suc ((120 - length (m @ [0]) mod 64) mod 64)"
      using pad_less [of ?h] False by (simp add: mod_Suc_eq)
    ultimately show ?thesis using False iff by (simp add: sha1_pad_loop.simps [of ctx])
  qed
qed

lemma upt_0_8: "[0..<8] = [0, 1, 2, 3, 4, 5, 6, 7]"
  by code_simp

lemma upt_0_20: "[0..<20] = [0, 1, 2, 3, 4, 5, 6, 7, 8, 9, 10, 11, 12, 13, 14, 15, 16, 17, 18, 19]"
  by code_simp

lemma sha1_out_words: "sha1_out st = concat (map put_32bit_be (sha_words st))"
  by (cases st) (simp add: sha1_out_def put_32bit_be_def upt_0_20)

lemma sha1_finalcount_bytes:
  "sha1_finalcount ctx = put_32bit_be (sha_count1 ctx) @ put_32bit_be (sha_count0 ctx)"
  by (simp add: sha1_finalcount_def put_32bit_be_def upt_0_8)

lemma sha1_final_digest:
  assumes "sha1_absorbed ctx m" "length m < 2 ^ 29"
  shows "fst (fr_sha1_final ctx) = sha1_spec m"
proof -
  let ?k = "(120 - length (m @ [0x80::byte]) mod 64) mod 64"
  let ?ctx = "fr_sha1_update (sha1_pad_loop (fr_sha1_update ctx [0x80])) (sha1_finalcount ctx)"
  have k: "?k = (119 - length m mod 64) mod 64"
  proof (cases "length m mod 64 = 63")
    case False
    then have "Suc (length m) mod 64 = Suc (length m mod 64)" by (simp add: mod_Suc)
    then show ?thesis by simp
  qed (simp add: mod_Suc)
  then have pad: "(m @ [0x80]) @ replicate ?k 0 = m @ md_pad (length m)" by (simp add: md_pad_def)
  have "sha_count0 ctx = of_nat (8 * length m)" "sha_count1 ctx = 0"
    using assms by (auto simp: sha1_absorbed_def)
  then have count: "sha1_finalcount ctx = put_32bit_be (of_nat (8 * length m div 2 ^ 32)) @
      put_32bit_be (of_nat (8 * length m mod 2 ^ 32))"
    using assms(2) by (simp add: sha1_finalcount_bytes)
  have "sha1_absorbed ?ctx (((m @ [0x80]) @ replicate ?k 0) @ sha1_finalcount ctx)"
    by (intro sha1_absorbed_update sha1_pad_loop_absorbed assms(1))
  then have "sha_state ?ctx = fst (absorb sha1_compress sha1_init_state (m @ md_pad (length m) @ sha1_finalcount ctx))"
    unfolding pad by (auto simp: sha1_absorbed_def prod_eq_iff)
  then show ?thesis
    unfolding sha1_spec_def Let_def count [symmetric]
    by (simp add: fr_sha1_final_def Let_def sha1_out_words)
qed

lemma length_sha1_spec: "length (sha1_spec m) = 20"
  by (cases "fst (absorb sha1_compress sha1_init_state (m @ md_pad (length m) @
        put_32bit_be (of_nat (8 * length m div 2 ^ 32)) @ put_32bit_be (of_nat (8 * length m mod 2 ^ 32))))")
    (simp add: sha1_spec_def Let_def put_32bit_be_def)

definition sha1_new :: fr_sha1_ctx where
  "sha1_new = fr_sha1_init sha1_wiped"

definition sha1_final_out :: "fr_sha1_ctx \<Rightarrow> bytes" where
  "sha1_final_out ctx = fst (fr_sha1_final ctx)"

interpretation sha1: stream_digest sha1_new fr_sha1_update sha1_final_out sha1_absorbed sha1_spec "2 ^ 29" 20
  by unfold_locales
    (auto simp: sha1_new_def sha1_wiped_def sha1_absorbed_init sha1_absorbed_update sha1_final_digest
       sha1_final_out_def length_sha1_spec)

lemma sha1_final_updates:
  assumes "length (sha_buffer ctx) = 64" "length (concat ds) < 2 ^ 29"
  shows "fst (fr_sha1_final (foldl fr_sha1_update (fr_sha1_init ctx) ds)) = sha1_spec (concat ds)"
  using sha1_final_digest [OF sha1.digest_updates [OF sha1_absorbed_init [OF assms(1)], of ds]] assms(2)
  by simp

text \<open>
  C29: (SHA-1, any context) Whatever an initialised context held before, the digest of a message of less
  than \<open>2\<^sup>2\<^sup>9\<close> bytes is the one of FIPS 180, however the message is split into updates; in
  particular the byte-wise padding loop of \<open>fr_sha1_final\<close> ends.
\<close>

theorem sha1_streaming:
  assumes "length (sha_buffer old) = 64" "length (concat ds) < 2 ^ 29"
  shows "fst (fr_sha1_final (foldl fr_sha1_update (fr_sha1_init old) ds)) = sha1_spec (concat ds)"
  by (rule sha1_final_updates [OF assms])

theorem sha1_streaming_witness:
  "length (sha_buffer (sha1_wiped\<lparr>sha_buffer := replicate 64 9\<rparr>)) = 64 \<and>
   length (concat [replicate 60 0, [1, 2, 3, 4, 5], replicate 70 (7::byte)]) < 2 ^ 29 \<and>
   fst (fr_sha1_final (foldl fr_sha1_update (fr_sha1_init (sha1_wiped\<lparr>sha_buffer := replicate 64 9\<rparr>))
     [replicate 60 0, [1, 2, 3, 4, 5], replicate 70 7])) =
   sha1_spec (concat [replicate 60 0, [1, 2, 3, 4, 5], replicate 70 7])"
  using sha1_streaming [of "sha1_wiped\<lparr>sha_buffer := replicate 64 9\<rparr>"
      "[replicate 60 0, [1, 2, 3, 4, 5], replicate 70 (7::byte)]"]
  by simp

text \<open>
  (SHA-1 test vector) The digest of \<open>abc\<close> is the one of FIPS 180.
\<close>

lemma sha1_test_vector:
  "fst (fr_sha1_final (fr_sha1_update (fr_sha1_init sha1_wiped) [0x61, 0x62, 0x63])) =
   [0xa9, 0x99, 0x3e, 0x36, 0x47, 0x06, 0x81, 0x6a, 0xba, 0x3e,
    0x25, 0x71, 0x78, 0x50, 0xc2, 0x6c, 0x9c, 0xd0, 0xd8, 0x9d]"
  by code_simp

text \<open>
  One call of \<open>fr_sha1_update\<close> with \<open>2\<^sup>2\<^sup>9\<close> bytes counts \<open>2\<^sup>3\<^sup>3\<close> bits instead of \<open>2\<^sup>3\<^sup>2\<close>: the carry is
  taken by the comparison and again by the shifted length.
\<close>

lemma sha1_carry_twice:
  assumes "length d = 2 ^ 29"
  shows "sha_count0 (fr_sha1_update (fr_sha1_init ctx) d) = 0 \<and>
    sha_count1 (fr_sha1_update (fr_sha1_init ctx) d) = 2"
proof -
  have "d \<noteq> []" using assms by auto
  then show ?thesis using assms by (simp add: sha1_update_counts fr_sha1_init_def)
qed

subsection \<open>HMAC-SHA1\<close>

text \<open>\<open>ctx\<close> and \<open>tctx\<close> are the contents of the two contexts on the stack before they are initialised.\<close>

definition fr_hmac_sha1 :: "fr_sha1_ctx \<Rightarrow> fr_sha1_ctx \<Rightarrow> bytes \<Rightarrow> bytes \<Rightarrow> bytes" where
  "fr_hmac_sha1 ctx tctx inp key =
     (let key' = (if length key > 64 then fst (fr_sha1_final (fr_sha1_update (fr_sha1_init tctx) key)) else key);
          k_ipad = hmac_pad 0x36 key';
          k_opad = hmac_pad 0x5c key';
          inner = fr_sha1_final (fr_sha1_update (fr_sha1_update (fr_sha1_init ctx) k_ipad) inp)
      in fst (fr_sha1_final
           (fr_sha1_update (fr_sha1_update (fr_sha1_init (snd inner)) k_opad) (fst inner))))"



end
