(* ===== verification/Radius_Packet.thy ===== *)
theory Radius_Packet
  imports Prelude
begin

text \<open>
  The packet checks of \<open>src/protocols/radius/base.c\<close>: the packet codes and the table of replies,
  \<open>fr_radius_recv_header\<close> and \<open>fr_radius_ok\<close>.  The attributes of a packet are given a grammar
  (\<open>enc_attrs\<close>, \<open>wf_packet\<close>), and \<open>fr_radius_ok\<close> is shown to accept exactly the packets of that
  grammar.  \<open>Radius_Sign\<close> and \<open>Radius_Codec\<close> build on the attribute walks here.
\<close>

subsection \<open>Codes\<close>

abbreviation (input) ACCESS_REQUEST :: byte where "ACCESS_REQUEST \<equiv> 1"
abbreviation (input) ACCESS_ACCEPT :: byte where "ACCESS_ACCEPT \<equiv> 2"
abbreviation (input) ACCESS_REJECT :: byte where "ACCESS_REJECT \<equiv> 3"
abbreviation (input) ACCOUNTING_REQUEST :: byte where "ACCOUNTING_REQUEST \<equiv> 4"
abbreviation (input) ACCOUNTING_RESPONSE :: byte where "ACCOUNTING_RESPONSE \<equiv> 5"
abbreviation (input) ACCESS_CHALLENGE :: byte where "ACCESS_CHALLENGE \<equiv> 11"
abbreviation (input) STATUS_SERVER :: byte where "STATUS_SERVER \<equiv> 12"
abbreviation (input) DISCONNECT_REQUEST :: byte where "DISCONNECT_REQUEST \<equiv> 40"
abbreviation (input) DISCONNECT_ACK :: byte where "DISCONNECT_ACK \<equiv> 41"
abbreviation (input) DISCONNECT_NAK :: byte where "DISCONNECT_NAK \<equiv> 42"
abbreviation (input) COA_REQUEST :: byte where "COA_REQUEST \<equiv> 43"
abbreviation (input) COA_ACK :: byte where "COA_ACK \<equiv> 44"
abbreviation (input) COA_NAK :: byte where "COA_NAK \<equiv> 45"
abbreviation (input) PROTOCOL_ERROR :: byte where "PROTOCOL_ERROR \<equiv> 52"
abbreviation (input) CODE_MAX :: byte where "CODE_MAX \<equiv> 53"

abbreviation (input) PROXY_STATE :: byte where "PROXY_STATE \<equiv> 33"
abbreviation (input) EAP_MESSAGE :: byte where "EAP_MESSAGE \<equiv> 79"
abbreviation (input) MESSAGE_AUTHENTICATOR :: byte where "MESSAGE_AUTHENTICATOR \<equiv> 80"

datatype fr_radius_decode_fail =
    DECODE_FAIL_NONE
  | DECODE_FAIL_MIN_LENGTH_PACKET
  | DECODE_FAIL_MAX_LENGTH_PACKET
  | DECODE_FAIL_MIN_LENGTH_FIELD
  | DECODE_FAIL_MIN_LENGTH_MISMATCH
  | DECODE_FAIL_HEADER_OVERFLOW
  | DECODE_FAIL_UNKNOWN_PACKET_CODE
  | DECODE_FAIL_INVALID_ATTRIBUTE
  | DECODE_FAIL_ATTRIBUTE_TOO_SHORT
  | DECODE_FAIL_ATTRIBUTE_OVERFLOW
  | DECODE_FAIL_MA_INVALID_LENGTH
  | DECODE_FAIL_ATTRIBUTE_UNDERFLOW
  | DECODE_FAIL_TOO_MANY_ATTRIBUTES
  | DECODE_FAIL_MA_MISSING
  | DECODE_FAIL_MA_INVALID
  | DECODE_FAIL_VERIFY
  | DECODE_FAIL_UNKNOWN

definition fr_nbo_to_uint16 :: "bytes \<Rightarrow> nat \<Rightarrow> nat" where
  "fr_nbo_to_uint16 b i = unat (b ! i) * 256 + unat (b ! (i + 1))"

text \<open>The request code that a reply code belongs to; 0 for codes that are not replies.\<close>

definition allowed_replies :: "byte \<Rightarrow> byte" where
  "allowed_replies c =
     (if c = ACCESS_ACCEPT \<or> c = ACCESS_CHALLENGE \<or> c = ACCESS_REJECT then ACCESS_REQUEST
      else if c = ACCOUNTING_RESPONSE then ACCOUNTING_REQUEST
      else if c = COA_ACK \<or> c = COA_NAK then COA_REQUEST
      else if c = DISCONNECT_ACK \<or> c = DISCONNECT_NAK then DISCONNECT_REQUEST
      else if c = PROTOCOL_ERROR then PROTOCOL_ERROR else 0)"

text \<open>\<open>allowed\<close> has 53 entries, which the call updates in place.\<close>

definition fr_radius_allow_reply :: "int \<Rightarrow> bool list \<Rightarrow> int \<times> bool list" where
  "fr_radius_allow_reply code allowed =
     (if code \<le> 0 \<or> code \<ge> 53 then (- 1, allowed)
      else (0, map (\<lambda>i. if 1 \<le> i then allowed ! i \<or> allowed_replies (of_nat i) = of_int code else allowed ! i)
                 [0..<length allowed]))"

datatype recv_header =
    Recv_failed
  | Recv_nothing
  | Recv_discard
  | Recv_packet nat byte

text \<open>
  \<open>data_len\<close> and \<open>header\<close> are what \<open>udp_recv_peek\<close> returns, \<open>again\<close> that \<open>errno\<close> is \<open>EAGAIN\<close> or
  \<open>EINTR\<close>.  \<open>Recv_discard\<close> is the return value 0 after \<open>udp_recv_discard\<close>.
\<close>

definition fr_radius_recv_header :: "int \<Rightarrow> bool \<Rightarrow> bytes \<Rightarrow> recv_header" where
  "fr_radius_recv_header data_len again header =
     (if data_len < 0 then (if again then Recv_nothing else Recv_failed)
      else if data_len < 4 then Recv_discard
      else let packet_len = unat (header ! 2) * 256 + unat (header ! 3)
           in if packet_len < 20 then Recv_discard
              else if packet_len > 4096 then Recv_discard
              else Recv_packet packet_len (header ! 0))"

subsection \<open>\<open>fr_radius_ok\<close>\<close>

text \<open>
  The loop over the attributes from offset \<open>attr\<close>: \<open>require\<close> and \<open>seen\<close> are the flags for
  Message-Authenticator and \<open>n\<close> is \<open>num_attributes\<close> (a packet has less than \<open>2\<^sup>1\<^sup>5\<close> of them).
\<close>

function ok_walk :: "bytes \<Rightarrow> nat \<Rightarrow> nat \<Rightarrow> bool \<Rightarrow> bool \<Rightarrow> nat \<Rightarrow>
    fr_radius_decode_fail + (nat \<times> bool \<times> bool \<times> nat)" where
  "ok_walk pkt endp attr require seen n =
     (if attr < endp then
        if endp - attr < 2 then Inl DECODE_FAIL_HEADER_OVERFLOW
        else if pkt ! attr = 0 then Inl DECODE_FAIL_INVALID_ATTRIBUTE
        else if unat (pkt ! (attr + 1)) < 2 then Inl DECODE_FAIL_ATTRIBUTE_TOO_SHORT
        else if attr + unat (pkt ! (attr + 1)) > endp then Inl DECODE_FAIL_ATTRIBUTE_OVERFLOW
        else if pkt ! attr = MESSAGE_AUTHENTICATOR then
          if unat (pkt ! (attr + 1)) \<noteq> 2 + 16 then Inl DECODE_FAIL_MA_INVALID_LENGTH
          else ok_walk pkt endp (attr + unat (pkt ! (attr + 1))) require True (n + 1)
        else ok_walk pkt endp (attr + unat (pkt ! (attr + 1)))
               (require \<or> pkt ! attr = EAP_MESSAGE) seen (n + 1)
      else Inr (attr, require, seen, n))"
  by pat_completeness auto
termination
  by (relation "measure (\<lambda>(pkt, endp, attr, require, seen, n). endp - attr)") auto

declare ok_walk.simps [simp del]

lemma ok_walk_stop: "endp \<le> attr \<Longrightarrow> ok_walk pkt endp attr r s n = Inr (attr, r, s, n)"
  by (subst ok_walk.simps) simp

text \<open>
  The result is the new value of \<open>*packet_len_p\<close> and the failure reason.  The buffer \<open>pkt\<close> holds
  \<open>*packet_len_p\<close> bytes.
\<close>

definition fr_radius_ok :: "bytes \<Rightarrow> nat \<Rightarrow> bool \<Rightarrow> nat \<times> fr_radius_decode_fail" where
  "fr_radius_ok pkt max_attributes require_ma =
     (let packet_len = length pkt in
      if packet_len < 20 then (packet_len, DECODE_FAIL_MIN_LENGTH_PACKET)
      else let totallen = fr_nbo_to_uint16 pkt 2 in
      if pkt ! 0 = 0 \<or> pkt ! 0 \<ge> CODE_MAX then (packet_len, DECODE_FAIL_UNKNOWN_PACKET_CODE)
      else let require =
        (if pkt ! 0 = STATUS_SERVER then True
         else if pkt ! 0 \<in> set [ACCESS_REQUEST, ACCESS_ACCEPT, ACCESS_CHALLENGE, ACCESS_REJECT] then require_ma
         else False) in
      if totallen < 20 then (packet_len, DECODE_FAIL_MIN_LENGTH_FIELD)
      else if totallen > packet_len then (packet_len, DECODE_FAIL_MIN_LENGTH_MISMATCH)
      else case ok_walk pkt totallen 20 require False 0 of
          Inl failure \<Rightarrow> (totallen, failure)
        | Inr (attr, require', seen_ma, num_attributes) \<Rightarrow>
            (totallen,
             if attr \<noteq> totallen then DECODE_FAIL_ATTRIBUTE_UNDERFLOW
             else if max_attributes > 0 \<and> num_attributes > max_attributes then DECODE_FAIL_TOO_MANY_ATTRIBUTES
             else if require' \<and> \<not> seen_ma then DECODE_FAIL_MA_MISSING
             else DECODE_FAIL_NONE))"

subsection \<open>The grammar of packets\<close>

type_synonym attribute = "byte \<times> bytes"

fun enc_attr :: "attribute \<Rightarrow> bytes" where
  "enc_attr (t, v) = t # of_nat (length v + 2) # v"

definition enc_attrs :: "attribute list \<Rightarrow> bytes" where
  "enc_attrs as = concat (map enc_attr as)"

fun wf_attr :: "attribute \<Rightarrow> bool" where
  "wf_attr (t, v) \<longleftrightarrow> t \<noteq> 0 \<and> length v \<le> 253 \<and> (t = MESSAGE_AUTHENTICATOR \<longrightarrow> length v = 16)"

definition has_attr :: "byte \<Rightarrow> attribute list \<Rightarrow> bool" where
  "has_attr t as \<longleftrightarrow> t \<in> fst ` set as"

text \<open>Whether Message-Authenticator is mandatory in a packet with this code and these attributes.\<close>

definition ma_required :: "byte \<Rightarrow> bool \<Rightarrow> attribute list \<Rightarrow> bool" where
  "ma_required code require_ma as \<longleftrightarrow>
     code = STATUS_SERVER \<or> has_attr EAP_MESSAGE as \<or>
     require_ma \<and> code \<in> {ACCESS_REQUEST, ACCESS_ACCEPT, ACCESS_CHALLENGE, ACCESS_REJECT}"

definition wf_packet :: "bytes \<Rightarrow> nat \<Rightarrow> bool \<Rightarrow> nat \<Rightarrow> attribute list \<Rightarrow> bool" where
  "wf_packet pkt max_attributes require_ma len as \<longleftrightarrow>
     len = fr_nbo_to_uint16 pkt 2 \<and> 20 \<le> len \<and> len \<le> length pkt \<and>
     pkt ! 0 \<noteq> 0 \<and> pkt ! 0 < CODE_MAX \<and>
     take len pkt = take 20 pkt @ enc_attrs as \<and> (\<forall>a \<in> set as. wf_attr a) \<and>
     (max_attributes = 0 \<or> length as \<le> max_attributes) \<and>
     (ma_required (pkt ! 0) require_ma as \<longrightarrow> has_attr MESSAGE_AUTHENTICATOR as)"

lemma enc_attrs_simps [simp]:
  "enc_attrs [] = []" "enc_attrs (a # as) = enc_attr a @ enc_attrs as"
  "enc_attrs (as @ bs) = enc_attrs as @ enc_attrs bs"
  by (simp_all add: enc_attrs_def)

lemma has_attr_simps [simp]:
  "\<not> has_attr t []" "has_attr t ((u, v) # as) \<longleftrightarrow> t = u \<or> has_attr t as"
  "has_attr t (as @ bs) \<longleftrightarrow> has_attr t as \<or> has_attr t bs"
  by (auto simp: has_attr_def)

lemma length_enc_attr [simp]: "length (enc_attr a) = length (snd a) + 2"
  by (cases a) simp

lemma attr_len_byte: "length v \<le> 253 \<Longrightarrow> unat (of_nat (length v + 2) :: byte) = length v + 2"
  by (simp only: unat_of_nat) simp

text \<open>One attribute at an offset of a packet, seen through the bytes the walks read.\<close>

lemma attr_at:
  assumes "attr < endp" "endp \<le> length pkt" "drop attr (take endp pkt) = enc_attrs as"
    and "\<forall>a \<in> set as. wf_attr a"
  obtains t v bs where "as = (t, v) # bs" "pkt ! attr = t" "unat (pkt ! (attr + 1)) = length v + 2"
    "attr + length v + 2 \<le> endp" "drop (attr + length v + 2) (take endp pkt) = enc_attrs bs"
    "get_at pkt (attr + 2) (length v) = v"
proof -
  let ?d = "drop attr (take endp pkt)"
  have "?d \<noteq> []" using assms(1,2) by simp
  then obtain t v bs where as: "as = (t, v) # bs"
    using assms(3) by (cases as) auto
  then have d: "?d = t # of_nat (length v + 2) # v @ enc_attrs bs" using assms(3) by simp
  have v: "length v \<le> 253" using assms(4) as by simp
  have len: "length ?d = endp - attr" using assms(2) by simp
  with d have room: "attr + length v + 2 \<le> endp" using assms(1) by simp
  have nth: "?d ! i = pkt ! (attr + i)" if "i < length ?d" for i using that assms(2) by simp
  have "?d ! 0 = t" "?d ! 1 = of_nat (length v + 2)" by (simp_all only: d) simp_all
  then have "pkt ! attr = t" "pkt ! (attr + 1) = of_nat (length v + 2)"
    using nth [of 0] nth [of 1] room len by simp_all
  moreover have "drop (length v + 2) ?d = enc_attrs bs" by (simp only: d) simp
  then have "drop (attr + length v + 2) (take endp pkt) = enc_attrs bs"
    by (simp add: drop_drop add.commute add.left_commute)
  moreover have "take (length v) (drop 2 ?d) = v" by (simp only: d) simp
  then have "get_at pkt (attr + 2) (length v) = v"
    using room assms(2) by (simp add: get_at_def drop_take min_def add.commute split: if_splits)
  ultimately show ?thesis
    using that [OF as] attr_len_byte [OF v] room by simp
qed

lemma split_attr:
  assumes "2 \<le> l" "attr + l \<le> endp" "endp \<le> length pkt"
  shows "drop attr (take endp pkt) =
    pkt ! attr # pkt ! (attr + 1) # get_at pkt (attr + 2) (l - 2) @ drop (attr + l) (take endp pkt)"
proof -
  have "drop attr (take endp pkt) = take l (drop attr (take endp pkt)) @ drop (attr + l) (take endp pkt)"
    by (metis append_take_drop_id drop_drop add.commute)
  also have "take l (drop attr (take endp pkt)) = get_at pkt attr l"
    using assms by (simp add: get_at_def drop_take min_def)
  also have "\<dots> = pkt ! attr # pkt ! (attr + 1) # get_at pkt (attr + 2) (l - 2)"
    using assms by (intro nth_equalityI) (auto simp: get_at_def nth_Cons less_Suc_eq_0_disj split: nat.splits)
  finally show ?thesis by simp
qed

lemma ok_walk_complete:
  assumes "attr \<le> endp" "endp \<le> length pkt" "drop attr (take endp pkt) = enc_attrs as"
    and "\<forall>a \<in> set as. wf_attr a"
  shows "ok_walk pkt endp attr r s n =
    Inr (endp, r \<or> has_attr EAP_MESSAGE as, s \<or> has_attr MESSAGE_AUTHENTICATOR as, n + length as)"
  using assms
proof (induction as arbitrary: attr r s n)
  case Nil
  then show ?case by (simp add: ok_walk_stop)
next
  case (Cons a as)
  then have "attr < endp" by (cases a) (auto intro: le_neq_implies_less)
  then obtain t v where a: "a = (t, v)" and pkt: "pkt ! attr = t" "unat (pkt ! (attr + 1)) = length v + 2"
      "attr + length v + 2 \<le> endp" "drop (attr + length v + 2) (take endp pkt) = enc_attrs as"
    using attr_at [OF _ Cons.prems(2-4)] by blast
  let ?l = "unat (pkt ! (attr + 1))"
  have "ok_walk pkt endp (attr + ?l) r' s' (n + 1) =
      Inr (endp, r' \<or> has_attr EAP_MESSAGE as, s' \<or> has_attr MESSAGE_AUTHENTICATOR as, n + 1 + length as)" for r' s'
    using Cons.prems pkt by (intro Cons.IH) (auto simp: add.assoc)
  moreover have "2 \<le> ?l" "attr + ?l \<le> endp" "t = MESSAGE_AUTHENTICATOR \<longrightarrow> ?l = 18" "t \<noteq> 0" "\<not> endp - attr < 2"
    using pkt a Cons.prems(4) by auto
  ultimately show ?case
    using \<open>attr < endp\<close> a pkt(1) by (auto simp: ok_walk.simps [of pkt endp attr])
qed

lemma ok_walk_sound:
  "ok_walk pkt endp attr r s n = Inr res \<Longrightarrow> attr \<le> endp \<Longrightarrow> endp \<le> length pkt \<Longrightarrow>
   \<exists>as. drop attr (take endp pkt) = enc_attrs as \<and> (\<forall>a \<in> set as. wf_attr a)"
proof (induction pkt endp attr r s n rule: ok_walk.induct)
  case (1 pkt endp attr r s n)
  show ?case
  proof (cases "attr < endp")
    case False
    with "1.prems" show ?thesis by (intro exI [of _ "[]"]) simp
  next
    case True
    let ?l = "unat (pkt ! (attr + 1))"
    let ?v = "get_at pkt (attr + 2) (?l - 2)"
    have g: "2 \<le> endp - attr" "pkt ! attr \<noteq> 0" "2 \<le> ?l" "attr + ?l \<le> endp"
      "pkt ! attr = MESSAGE_AUTHENTICATOR \<longrightarrow> ?l = 18"
      using "1.prems"(1) True by (auto simp: ok_walk.simps [of pkt endp attr] split: if_splits)
    have "\<exists>as. drop (attr + ?l) (take endp pkt) = enc_attrs as \<and> (\<forall>a \<in> set as. wf_attr a)"
      using 1 True g by (simp add: ok_walk.simps [of pkt endp attr] split: if_splits)
    then obtain as where as: "drop (attr + ?l) (take endp pkt) = enc_attrs as" "\<forall>a \<in> set as. wf_attr a"
      by blast
    have "?l < 256" by (rule byte_less)
    then have v: "length ?v = ?l - 2" "wf_attr (pkt ! attr, ?v)"
      using g "1.prems"(3) by auto
    have "length ?v + 2 = ?l" using v(1) g(3) by simp
    then have "of_nat (length ?v + 2) = pkt ! (attr + 1)" by (simp del: of_nat_add)
    then have "drop attr (take endp pkt) = enc_attrs ((pkt ! attr, ?v) # as)"
      using split_attr [OF g(3,4) "1.prems"(3)] as(1) by (simp del: of_nat_add)
    then show ?thesis using v(2) as(2) by (intro exI [of _ "(pkt ! attr, ?v) # as"]) simp
  qed
qed

text \<open>The walk ends at the end of the packet, so the attributes never underflow it.\<close>

lemma ok_walk_end:
  "ok_walk pkt endp attr r s n = Inr (a, res) \<Longrightarrow> attr \<le> endp \<Longrightarrow> a = endp"
proof (induction pkt endp attr r s n rule: ok_walk.induct)
  case (1 pkt endp attr r s n)
  then show ?case
    by (cases "attr < endp") (auto simp: ok_walk.simps [of pkt endp attr] split: if_splits)
qed

lemma ok_walk_fails:
  "ok_walk pkt endp attr r s n = Inl f \<Longrightarrow>
   f \<in> {DECODE_FAIL_HEADER_OVERFLOW, DECODE_FAIL_INVALID_ATTRIBUTE, DECODE_FAIL_ATTRIBUTE_TOO_SHORT,
        DECODE_FAIL_ATTRIBUTE_OVERFLOW, DECODE_FAIL_MA_INVALID_LENGTH}"
proof (induction pkt endp attr r s n rule: ok_walk.induct)
  case (1 pkt endp attr r s n)
  then show ?case
    by (cases "attr < endp") (auto simp: ok_walk.simps [of pkt endp attr] split: if_splits)
qed

lemma drop_header: "20 \<le> len \<Longrightarrow> len \<le> length pkt \<Longrightarrow>
  take len pkt = take 20 pkt @ es \<longleftrightarrow> drop 20 (take len pkt) = es"
proof -
  assume "20 \<le> len" "len \<le> length pkt"
  then have "take len pkt = take 20 pkt @ drop 20 (take len pkt)"
    by (metis append_take_drop_id min_def take_take)
  then show ?thesis by (metis same_append_eq)
qed

lemma fr_radius_ok_sound:
  assumes "fr_radius_ok pkt maxa req = (len, DECODE_FAIL_NONE)"
  shows "\<exists>as. wf_packet pkt maxa req len as"
proof -
  define r where "r = (if pkt ! 0 = STATUS_SERVER then True
         else if pkt ! 0 \<in> set [ACCESS_REQUEST, ACCESS_ACCEPT, ACCESS_CHALLENGE, ACCESS_REJECT] then req
         else False)"
  have len: "len = fr_nbo_to_uint16 pkt 2" "20 \<le> len" "len \<le> length pkt" "pkt ! 0 \<noteq> 0" "pkt ! 0 < CODE_MAX"
    using assms by (auto simp: fr_radius_ok_def Let_def not_le split: if_splits sum.splits)
  obtain r' s' n where walk: "ok_walk pkt len 20 r False 0 = Inr (len, r', s', n)"
    and ok: "maxa = 0 \<or> n \<le> maxa" "r' \<longrightarrow> s'"
    using assms unfolding fr_radius_ok_def r_def [symmetric] Let_def
    by (auto split: if_splits sum.splits dest: ok_walk_fails)
  obtain as where as: "drop 20 (take len pkt) = enc_attrs as" "\<forall>a \<in> set as. wf_attr a"
    using ok_walk_sound [OF walk len(2,3)] by blast
  have "ok_walk pkt len 20 r False 0 =
      Inr (len, r \<or> has_attr EAP_MESSAGE as, has_attr MESSAGE_AUTHENTICATOR as, length as)"
    using ok_walk_complete [OF len(2,3) as] by simp
  with walk ok have "maxa = 0 \<or> length as \<le> maxa" "r \<or> has_attr EAP_MESSAGE as \<longrightarrow> has_attr MESSAGE_AUTHENTICATOR as"
    by auto
  with len as show ?thesis
    by (intro exI [of _ as]) (auto simp: wf_packet_def drop_header ma_required_def r_def)
qed

lemma fr_radius_ok_complete:
  assumes "wf_packet pkt maxa req len as"
  shows "fr_radius_ok pkt maxa req = (len, DECODE_FAIL_NONE)"
proof -
  have len: "20 \<le> len" "len \<le> length pkt" "len = fr_nbo_to_uint16 pkt 2"
    and as: "drop 20 (take len pkt) = enc_attrs as" "\<forall>a \<in> set as. wf_attr a"
    using assms by (auto simp: wf_packet_def drop_header)
  have "ok_walk pkt len 20 r False 0 =
      Inr (len, r \<or> has_attr EAP_MESSAGE as, has_attr MESSAGE_AUTHENTICATOR as, length as)" for r
    using ok_walk_complete [OF len(1,2) as] by simp
  with len assms show ?thesis
    by (auto simp: fr_radius_ok_def wf_packet_def ma_required_def Let_def not_le)
qed

text \<open>
  C1: (what \<open>fr_radius_ok\<close> accepts) A buffer is accepted, with the length \<open>len\<close>, exactly when \<open>len\<close> is
  the length field of its header and lies between 20 and the number of bytes received, the code is
  known, the bytes after the header are a sequence of well-formed attributes that fills the packet
  exactly, there are not more attributes than allowed, and a Message-Authenticator is present where
  the code, the configuration or an EAP-Message demand one.
\<close>

theorem fr_radius_ok_iff:
  "fr_radius_ok pkt max_attributes require_ma = (len, DECODE_FAIL_NONE) \<longleftrightarrow>
   (\<exists>as. wf_packet pkt max_attributes require_ma len as)"
  using fr_radius_ok_sound fr_radius_ok_complete by blast

end
