(* ===== verification/Radius_Sign.thy ===== *)
theory Radius_Sign
  imports Radius_Packet Md5
begin

text \<open>
  Signing and verifying RADIUS packets (\<open>fr_radius_sign\<close>, \<open>fr_radius_verify\<close> and
  \<open>fr_radius_ascend_secret\<close> of \<open>src/protocols/radius/base.c\<close>, \<open>fr_digest_cmp\<close> of
  \<open>src/lib/util/misc.c\<close>).  The packet is the buffer the functions are given; an access outside it is
  the error \<open>Sign_overrun\<close>.  The digests are those of \<open>Md5\<close>.
\<close>

subsection \<open>\<open>fr_radius_sign\<close>\<close>

datatype sign_error =
    Sign_overrun
  | Secret_too_long
  | Not_encoded
  | Invalid_attribute nat
  | MA_too_small
  | Need_original
  | Bad_packet byte

text \<open>The search for Message-Authenticator: its offset, if the packet has one.\<close>

function sign_find_ma :: "bytes \<Rightarrow> nat \<Rightarrow> nat \<Rightarrow> sign_error + nat option" where
  "sign_find_ma pkt endp msg =
     (if msg < endp then
        if endp - msg < 2 then Inl (Invalid_attribute msg)
        else if length pkt < msg + 2 then Inl Sign_overrun
        else if pkt ! msg \<noteq> MESSAGE_AUTHENTICATOR then
          if unat (pkt ! (msg + 1)) < 2 then Inl (Invalid_attribute msg)
          else if msg + unat (pkt ! (msg + 1)) > endp then Inl (Invalid_attribute msg)
          else sign_find_ma pkt endp (msg + unat (pkt ! (msg + 1)))
        else if unat (pkt ! (msg + 1)) < 18 then Inl MA_too_small
        else Inr (Some msg)
      else Inr None)"
  by pat_completeness auto
termination
  by (relation "measure (\<lambda>(pkt, endp, msg). endp - msg)") auto

declare sign_find_ma.simps [simp del]

text \<open>The two switches on the packet code, before the HMAC and before the authenticator.\<close>

definition sign_ma_vector :: "bytes \<Rightarrow> bytes option \<Rightarrow> sign_error + bytes" where
  "sign_ma_vector pkt vector =
     (let code = pkt ! 0 in
      if code \<in> set [ACCOUNTING_REQUEST, DISCONNECT_REQUEST, COA_REQUEST] then Inr (put_at pkt 4 (replicate 16 0))
      else if code \<in> set [ACCESS_ACCEPT, ACCESS_REJECT, ACCESS_CHALLENGE, ACCOUNTING_RESPONSE,
                DISCONNECT_ACK, DISCONNECT_NAK, COA_ACK, COA_NAK] then
        (case vector of None \<Rightarrow> Inl Need_original | Some v \<Rightarrow> Inr (put_at pkt 4 (take 16 v)))
      else if code \<in> set [ACCESS_REQUEST, STATUS_SERVER] then Inr pkt
      else Inl (Bad_packet code))"

definition sign_ma :: "bytes \<Rightarrow> nat \<Rightarrow> bytes option \<Rightarrow> bytes \<Rightarrow> nat \<Rightarrow> sign_error + bytes" where
  "sign_ma pkt packet_len vector secret msg =
     (case sign_ma_vector pkt vector of
        Inl e \<Rightarrow> Inl e
      | Inr pkt1 \<Rightarrow>
          if length pkt < msg + 18 \<or> length pkt < packet_len then Inl Sign_overrun
          else let pkt2 = put_at pkt1 (msg + 2) (replicate 16 0)
               in Inr (put_at pkt2 (msg + 2) (fr_hmac_md5 (take packet_len pkt2) secret)))"

definition sign_auth_md5 :: "bytes \<Rightarrow> nat \<Rightarrow> bytes \<Rightarrow> bytes" where
  "sign_auth_md5 pkt packet_len secret =
     put_at pkt 4 (fst (fr_md5_local_final (fr_md5_local_update
       (fr_md5_local_update fr_md5_local_ctx_reset (take packet_len pkt)) secret)))"

definition sign_auth :: "bytes \<Rightarrow> nat \<Rightarrow> bytes option \<Rightarrow> bytes \<Rightarrow> sign_error + bytes" where
  "sign_auth pkt packet_len vector secret =
     (let code = pkt ! 0 in
      if code \<in> set [ACCOUNTING_REQUEST, DISCONNECT_REQUEST, COA_REQUEST] then
        if length pkt < packet_len then Inl Sign_overrun
        else Inr (sign_auth_md5 (put_at pkt 4 (replicate 16 0)) packet_len secret)
      else if code \<in> set [ACCESS_ACCEPT, ACCESS_REJECT, ACCESS_CHALLENGE, ACCOUNTING_RESPONSE,
                DISCONNECT_ACK, DISCONNECT_NAK, COA_ACK, COA_NAK, PROTOCOL_ERROR] then
        (case vector of
           None \<Rightarrow> Inl Need_original
         | Some v \<Rightarrow>
             if length pkt < packet_len then Inl Sign_overrun
             else Inr (sign_auth_md5 (put_at pkt 4 (take 16 v)) packet_len secret))
      else if code \<in> set [ACCESS_REQUEST, STATUS_SERVER] then Inr pkt
      else Inl (Bad_packet code))"

definition fr_radius_sign :: "bytes \<Rightarrow> bytes option \<Rightarrow> bytes \<Rightarrow> sign_error + bytes" where
  "fr_radius_sign pkt vector secret =
     (if length pkt < 4 then Inl Sign_overrun
      else let packet_len = fr_nbo_to_uint16 pkt 2 in
      if \<not> length secret \<le> 65535 then Inl Secret_too_long
      else if packet_len < 20 then Inl Not_encoded
      else case sign_find_ma pkt packet_len 20 of
          Inl e \<Rightarrow> Inl e
        | Inr None \<Rightarrow> sign_auth pkt packet_len vector secret
        | Inr (Some msg) \<Rightarrow>
            (case sign_ma pkt packet_len vector secret msg of
               Inl e \<Rightarrow> Inl e
             | Inr pkt1 \<Rightarrow> sign_auth pkt1 packet_len vector secret))"

subsection \<open>\<open>fr_radius_verify\<close>\<close>

fun digest_cmp_loop :: "byte \<Rightarrow> bytes \<Rightarrow> bytes \<Rightarrow> nat \<Rightarrow> byte" where
  "digest_cmp_loop result a b 0 = result"
| "digest_cmp_loop result a b (Suc n) =
     digest_cmp_loop (result OR (hd a XOR hd b)) (tl a) (tl b) n"

definition fr_digest_cmp :: "bytes \<Rightarrow> bytes \<Rightarrow> nat \<Rightarrow> byte" where
  "fr_digest_cmp a b len = digest_cmp_loop 0 a b len"

text \<open>
  The search of \<open>fr_radius_verify\<close>, which also notes Proxy-State: the offset of Message-Authenticator
  and \<open>found_proxy_state\<close>.  The third kind of result is an access outside the buffer.
\<close>

datatype 'a checked = Overrun | Fail fr_radius_decode_fail | Done 'a

function verify_find_ma :: "bool \<Rightarrow> bytes \<Rightarrow> nat \<Rightarrow> nat \<Rightarrow> bool \<Rightarrow> (nat option \<times> bool) checked" where
  "verify_find_ma limit_proxy_state pkt endp msg found_proxy_state =
     (if msg < endp then
        if endp - msg < 2 then Fail DECODE_FAIL_INVALID_ATTRIBUTE
        else if length pkt < msg + 2 then Overrun
        else if pkt ! msg \<noteq> MESSAGE_AUTHENTICATOR then
          if unat (pkt ! (msg + 1)) < 2 then Fail DECODE_FAIL_INVALID_ATTRIBUTE
          else if msg + unat (pkt ! (msg + 1)) > endp then Fail DECODE_FAIL_INVALID_ATTRIBUTE
          else verify_find_ma limit_proxy_state pkt endp (msg + unat (pkt ! (msg + 1)))
                 (found_proxy_state \<or> limit_proxy_state \<and> pkt ! msg = PROXY_STATE)
        else if unat (pkt ! (msg + 1)) < 18 then Fail DECODE_FAIL_MA_INVALID_LENGTH
        else if length pkt < msg + 18 then Overrun
        else Done (Some msg, found_proxy_state)
      else Done (None, found_proxy_state))"
  by pat_completeness auto
termination
  by (relation "measure (\<lambda>(l, pkt, endp, msg, f). endp - msg)") auto

declare verify_find_ma.simps [simp del]

text \<open>The comparison after signing; the packet is returned as it is left in the buffer.\<close>

definition verify_compare :: "bytes \<Rightarrow> bytes \<Rightarrow> nat option \<Rightarrow> bytes \<times> unit checked" where
  "verify_compare pkt pkt1 ma =
     (let request_authenticator = get_at pkt 4 16 in
      case ma of
        Some msg \<Rightarrow>
          let message_authenticator = get_at pkt (msg + 2) 16 in
          if fr_digest_cmp message_authenticator (get_at pkt1 (msg + 2) 16) 16 \<noteq> 0 then
            (put_at (put_at pkt1 (msg + 2) message_authenticator) 4 request_authenticator, Fail DECODE_FAIL_MA_INVALID)
          else if pkt1 ! 0 \<in> set [ACCESS_REQUEST, STATUS_SERVER] then (pkt1, Done ())
          else if fr_digest_cmp request_authenticator (get_at pkt1 4 16) 16 \<noteq> 0 then
            (put_at pkt1 4 request_authenticator, Fail DECODE_FAIL_VERIFY)
          else (pkt1, Done ())
      | None \<Rightarrow>
          if pkt1 ! 0 \<in> set [ACCESS_REQUEST, STATUS_SERVER] then (pkt1, Done ())
          else if fr_digest_cmp request_authenticator (get_at pkt1 4 16) 16 \<noteq> 0 then
            (put_at pkt1 4 request_authenticator, Fail DECODE_FAIL_VERIFY)
          else (pkt1, Done ()))"

definition fr_radius_verify ::
  "bytes \<Rightarrow> bytes option \<Rightarrow> bytes \<Rightarrow> bool \<Rightarrow> bool \<Rightarrow> bytes \<times> unit checked" where
  "fr_radius_verify pkt vector secret require_ma limit_proxy_state =
     (if length pkt < 4 then (pkt, Overrun)
      else let packet_len = fr_nbo_to_uint16 pkt 2; code = pkt ! 0 in
      if packet_len < 20 then (pkt, Fail DECODE_FAIL_MIN_LENGTH_PACKET)
      else if code = 0 \<or> code \<ge> CODE_MAX then (pkt, Fail DECODE_FAIL_UNKNOWN_PACKET_CODE)
      else if length pkt < 20 then (pkt, Overrun)
      else case verify_find_ma limit_proxy_state pkt packet_len 20 False of
          Overrun \<Rightarrow> (pkt, Overrun)
        | Fail f \<Rightarrow> (pkt, Fail f)
        | Done (ma, found_proxy_state) \<Rightarrow>
            if code = ACCESS_REQUEST \<and> limit_proxy_state \<and> found_proxy_state \<and> ma = None
            then (pkt, Fail DECODE_FAIL_MA_MISSING)
            else if code = ACCESS_REQUEST \<and> require_ma \<and> ma = None
            then (pkt, Fail DECODE_FAIL_MA_MISSING)
            else case fr_radius_sign pkt vector secret of
                Inl Sign_overrun \<Rightarrow> (pkt, Overrun)
              | Inl e \<Rightarrow> (pkt, Fail DECODE_FAIL_VERIFY)
              | Inr pkt1 \<Rightarrow> verify_compare pkt pkt1 ma)"

subsection \<open>Packets as header, authenticator and attributes\<close>

text \<open>The first Message-Authenticator: its offset among the attributes, its value, and replacing the value.\<close>

fun ma_off :: "attribute list \<Rightarrow> nat" where
  "ma_off [] = 0"
| "ma_off ((t, v) # as) = (if t = MESSAGE_AUTHENTICATOR then 0 else length v + 2 + ma_off as)"

fun ma_value :: "attribute list \<Rightarrow> bytes" where
  "ma_value [] = []"
| "ma_value ((t, v) # as) = (if t = MESSAGE_AUTHENTICATOR then v else ma_value as)"

fun fill_ma :: "bytes \<Rightarrow> attribute list \<Rightarrow> attribute list" where
  "fill_ma m [] = []"
| "fill_ma m ((t, v) # as) = (if t = MESSAGE_AUTHENTICATOR then (t, m) # as else (t, v) # fill_ma m as)"

definition wf_attrs :: "attribute list \<Rightarrow> bool" where
  "wf_attrs as \<longleftrightarrow> (\<forall>a \<in> set as. wf_attr a)"

lemma wf_attrs_simps [simp]:
  "wf_attrs []" "wf_attrs (a # as) \<longleftrightarrow> wf_attr a \<and> wf_attrs as"
  by (auto simp: wf_attrs_def)

lemma fill_ma_fill [simp]: "fill_ma m (fill_ma m' as) = fill_ma m as"
  by (induction as rule: ma_off.induct) auto

lemma has_attr_fill [simp]: "has_attr t (fill_ma m as) \<longleftrightarrow> has_attr t as"
  by (induction as rule: ma_off.induct) auto

lemma ma_off_fill: "ma_off (fill_ma m as) = ma_off as"
  by (induction as rule: ma_off.induct) auto

lemma wf_attrs_fill: "wf_attrs as \<Longrightarrow> length m = 16 \<Longrightarrow> wf_attrs (fill_ma m as)"
  by (induction as rule: ma_off.induct) auto

lemma length_enc_fill: "wf_attrs as \<Longrightarrow> length m = 16 \<Longrightarrow> length (enc_attrs (fill_ma m as)) = length (enc_attrs as)"
  by (induction as rule: ma_off.induct) auto

lemma length_ma_value: "wf_attrs as \<Longrightarrow> has_attr MESSAGE_AUTHENTICATOR as \<Longrightarrow> length (ma_value as) = 16"
  by (induction as rule: ma_off.induct) auto

lemma ma_off_bound:
  "wf_attrs as \<Longrightarrow> has_attr MESSAGE_AUTHENTICATOR as \<Longrightarrow> ma_off as + 18 \<le> length (enc_attrs as)"
  by (induction as rule: ma_off.induct) auto

lemma ma_value_fill [simp]: "has_attr MESSAGE_AUTHENTICATOR as \<Longrightarrow> ma_value (fill_ma m as) = m"
  by (induction as rule: ma_off.induct) auto

lemma fill_ma_value: "fill_ma (ma_value as) as = as"
  by (induction as rule: ma_off.induct) auto

lemma fill_ma_eq: "has_attr MESSAGE_AUTHENTICATOR as \<Longrightarrow> fill_ma m as = as \<longleftrightarrow> ma_value as = m"
  by (induction as rule: ma_off.induct) auto

lemma put_at_append: "length pre = n \<Longrightarrow> length m = length old \<Longrightarrow> put_at (pre @ old @ post) n m = pre @ m @ post"
  by (simp add: put_at_def)

lemma put_at_prefix: "length pre \<le> n \<Longrightarrow> put_at (pre @ b) n m = pre @ put_at b (n - length pre) m"
  by (simp add: put_at_def)

lemma get_at_prefix: "length pre \<le> n \<Longrightarrow> get_at (pre @ b) n k = get_at b (n - length pre) k"
  by (simp add: get_at_def)

lemma put_ma:
  assumes "wf_attrs as" "has_attr MESSAGE_AUTHENTICATOR as" "length m = 16"
  shows "put_at (enc_attrs as @ rest) (ma_off as + 2) m = enc_attrs (fill_ma m as) @ rest"
  using assms
proof (induction as rule: ma_off.induct)
  case (2 t v as)
  show ?case
  proof (cases "t = MESSAGE_AUTHENTICATOR")
    case True
    with 2 show ?thesis
      using put_at_append [of "[t, 18]" 2 m v "enc_attrs as @ rest"] by (simp add: numeral_2_eq_2)
  next
    case False
    have "put_at (enc_attr (t, v) @ enc_attrs as @ rest) (length v + 2 + (ma_off as + 2)) m =
        enc_attr (t, v) @ put_at (enc_attrs as @ rest) (ma_off as + 2) m"
      by (simp add: put_at_prefix del: enc_attr.simps)
    with False 2 show ?thesis by (simp add: add.assoc del: enc_attr.simps)
  qed
qed simp

lemma get_ma:
  assumes "wf_attrs as" "has_attr MESSAGE_AUTHENTICATOR as"
  shows "get_at (enc_attrs as @ rest) (ma_off as + 2) 16 = ma_value as"
  using assms
proof (induction as rule: ma_off.induct)
  case (2 t v as)
  show ?case
  proof (cases "t = MESSAGE_AUTHENTICATOR")
    case True
    with 2 show ?thesis by (simp add: get_at_def)
  next
    case False
    have "get_at (enc_attr (t, v) @ enc_attrs as @ rest) (length v + 2 + (ma_off as + 2)) 16 =
        get_at (enc_attrs as @ rest) (ma_off as + 2) 16"
      by (simp add: get_at_prefix del: enc_attr.simps)
    with False 2 show ?thesis by (simp add: add.assoc del: enc_attr.simps)
  qed
qed simp

subsection \<open>The searches on well-formed packets\<close>

lemma sign_find_ma_stop: "endp \<le> msg \<Longrightarrow> sign_find_ma pkt endp msg = Inr None"
  by (subst sign_find_ma.simps) simp

lemma verify_find_ma_stop: "endp \<le> msg \<Longrightarrow> verify_find_ma lim pkt endp msg f = Done (None, f)"
  by (subst verify_find_ma.simps) simp

lemma sign_find_ma_attrs:
  assumes "msg \<le> endp" "endp \<le> length pkt" "drop msg (take endp pkt) = enc_attrs as" "wf_attrs as"
  shows "sign_find_ma pkt endp msg =
    Inr (if has_attr MESSAGE_AUTHENTICATOR as then Some (msg + ma_off as) else None)"
  using assms
proof (induction as arbitrary: msg)
  case Nil
  then show ?case by (simp add: sign_find_ma_stop)
next
  case (Cons a as)
  then have lt: "msg < endp" by (cases a) (auto intro: le_neq_implies_less)
  then obtain t v where a: "a = (t, v)" and pkt: "pkt ! msg = t" "unat (pkt ! (msg + 1)) = length v + 2"
      "msg + length v + 2 \<le> endp" "drop (msg + length v + 2) (take endp pkt) = enc_attrs as"
    using attr_at [OF lt Cons.prems(2,3)] Cons.prems(4) unfolding wf_attrs_def by blast
  have IH: "sign_find_ma pkt endp (msg + length v + 2) =
      Inr (if has_attr MESSAGE_AUTHENTICATOR as then Some (msg + length v + 2 + ma_off as) else None)"
    using Cons.prems pkt by (intro Cons.IH) auto
  have ge: "\<not> endp - msg < 2" using pkt(3) by simp
  show ?case
  proof (cases "t = MESSAGE_AUTHENTICATOR")
    case True
    with a pkt lt ge Cons.prems show ?thesis by (simp add: sign_find_ma.simps [of pkt endp msg])
  next
    case False
    with pkt lt ge Cons.prems have "sign_find_ma pkt endp msg = sign_find_ma pkt endp (msg + length v + 2)"
      by (simp add: sign_find_ma.simps [of pkt endp msg])
    with False a IH show ?thesis by auto
  qed
qed

fun ps_seen :: "bool \<Rightarrow> bool \<Rightarrow> attribute list \<Rightarrow> bool" where
  "ps_seen lim f [] = f"
| "ps_seen lim f ((t, v) # as) =
     (if t = MESSAGE_AUTHENTICATOR then f else ps_seen lim (f \<or> lim \<and> t = PROXY_STATE) as)"

lemma ps_seen_all:
  "\<not> has_attr MESSAGE_AUTHENTICATOR as \<Longrightarrow> ps_seen lim f as \<longleftrightarrow> f \<or> lim \<and> has_attr PROXY_STATE as"
  by (induction lim f as rule: ps_seen.induct) auto

lemma verify_find_ma_attrs:
  assumes "msg \<le> endp" "endp \<le> length pkt" "drop msg (take endp pkt) = enc_attrs as" "wf_attrs as"
  shows "verify_find_ma lim pkt endp msg f =
    Done (if has_attr MESSAGE_AUTHENTICATOR as then Some (msg + ma_off as) else None, ps_seen lim f as)"
  using assms
proof (induction as arbitrary: msg f)
  case Nil
  then show ?case by (simp add: verify_find_ma_stop)
next
  case (Cons a as)
  then have lt: "msg < endp" by (cases a) (auto intro: le_neq_implies_less)
  then obtain t v where a: "a = (t, v)" and pkt: "pkt ! msg = t" "unat (pkt ! (msg + 1)) = length v + 2"
      "msg + length v + 2 \<le> endp" "drop (msg + length v + 2) (take endp pkt) = enc_attrs as"
    using attr_at [OF lt Cons.prems(2,3)] Cons.prems(4) unfolding wf_attrs_def by blast
  have IH: "verify_find_ma lim pkt endp (msg + length v + 2) f' =
      Done (if has_attr MESSAGE_AUTHENTICATOR as then Some (msg + length v + 2 + ma_off as) else None,
            ps_seen lim f' as)" for f'
    using Cons.prems pkt by (intro Cons.IH) auto
  have ge: "\<not> endp - msg < 2" using pkt(3) by simp
  show ?case
  proof (cases "t = MESSAGE_AUTHENTICATOR")
    case True
    with a pkt lt ge Cons.prems show ?thesis by (simp add: verify_find_ma.simps [of lim pkt endp msg])
  next
    case False
    with pkt lt ge Cons.prems have "verify_find_ma lim pkt endp msg f =
        verify_find_ma lim pkt endp (msg + length v + 2) (f \<or> lim \<and> t = PROXY_STATE)"
      by (simp add: verify_find_ma.simps [of lim pkt endp msg])
    with False a IH show ?thesis by auto
  qed
qed

subsection \<open>The authenticators of RFC 2865, 2866 and 3579\<close>

definition request_codes :: "byte list" where
  "request_codes = [ACCOUNTING_REQUEST, DISCONNECT_REQUEST, COA_REQUEST]"

definition response_codes :: "byte list" where
  "response_codes = [ACCESS_ACCEPT, ACCESS_REJECT, ACCESS_CHALLENGE, ACCOUNTING_RESPONSE,
     DISCONNECT_ACK, DISCONNECT_NAK, COA_ACK, COA_NAK]"

definition own_codes :: "byte list" where
  "own_codes = [ACCESS_REQUEST, STATUS_SERVER]"

text \<open>
  The authenticator field that enters the digests: zeros for requests that are signed, the vector of
  the request for responses, the random one of the packet itself for Access-Request and
  Status-Server.  Protocol-Error is signed only without Message-Authenticator.
\<close>

definition digest_vector :: "byte \<Rightarrow> bytes option \<Rightarrow> bytes \<Rightarrow> attribute list \<Rightarrow> bytes option" where
  "digest_vector code vector a as =
     (if code \<in> set request_codes then Some (replicate 16 0)
      else if code \<in> set response_codes then vector
      else if code \<in> set own_codes then Some a
      else if code = PROTOCOL_ERROR \<and> \<not> has_attr MESSAGE_AUTHENTICATOR as then vector
      else None)"

definition rfc_ma :: "bytes \<Rightarrow> bytes \<Rightarrow> bytes \<Rightarrow> attribute list \<Rightarrow> bytes" where
  "rfc_ma secret hdr y as = hmac_spec md5_spec secret (hdr @ y @ enc_attrs (fill_ma (replicate 16 0) as))"

definition rfc_attrs :: "bytes \<Rightarrow> bytes \<Rightarrow> bytes \<Rightarrow> attribute list \<Rightarrow> attribute list" where
  "rfc_attrs secret hdr y as = fill_ma (rfc_ma secret hdr y as) as"

definition rfc_auth :: "bytes \<Rightarrow> bytes \<Rightarrow> bytes \<Rightarrow> bytes \<Rightarrow> attribute list \<Rightarrow> bytes" where
  "rfc_auth secret hdr y a as =
     (if hdr ! 0 \<in> set own_codes then a else md5_spec (hdr @ y @ enc_attrs (rfc_attrs secret hdr y as) @ secret))"

text \<open>A packet with a four-byte header, an authenticator and well-formed attributes that the length field covers.\<close>

definition radius_packet :: "bytes \<Rightarrow> bytes \<Rightarrow> attribute list \<Rightarrow> bool" where
  "radius_packet hdr a as \<longleftrightarrow> length hdr = 4 \<and> length a = 16 \<and> wf_attrs as \<and>
     fr_nbo_to_uint16 hdr 2 = 20 + length (enc_attrs as)"

lemma fill_ma_absent: "\<not> has_attr MESSAGE_AUTHENTICATOR as \<Longrightarrow> fill_ma m as = as"
  by (induction as rule: ma_off.induct) auto

lemma nbo_header: "length hdr = 4 \<Longrightarrow> fr_nbo_to_uint16 (hdr @ b) 2 = fr_nbo_to_uint16 hdr 2"
  by (simp add: fr_nbo_to_uint16_def nth_append)

lemma put_vector: "length hdr = 4 \<Longrightarrow> length a = 16 \<Longrightarrow> length y = 16 \<Longrightarrow> put_at (hdr @ a @ b) 4 y = hdr @ y @ b"
  by (rule put_at_append) simp_all

lemma put_packet_ma:
  assumes "length hdr = 4" "length y = 16" "wf_attrs as" "has_attr MESSAGE_AUTHENTICATOR as" "length m = 16"
  shows "put_at (hdr @ y @ enc_attrs as @ rest) (20 + ma_off as + 2) m = hdr @ y @ enc_attrs (fill_ma m as) @ rest"
  using put_at_prefix [of "hdr @ y" "20 + ma_off as + 2" "enc_attrs as @ rest" m] put_ma [OF assms(3-5), of rest] assms(1,2)
  by simp

lemma get_packet_ma:
  assumes "length hdr = 4" "length y = 16" "wf_attrs as" "has_attr MESSAGE_AUTHENTICATOR as"
  shows "get_at (hdr @ y @ enc_attrs as @ rest) (20 + ma_off as + 2) 16 = ma_value as"
  using get_at_prefix [of "hdr @ y" "20 + ma_off as + 2" "enc_attrs as @ rest" 16] get_ma [OF assms(3,4), of rest] assms(1,2)
  by simp

lemma get_vector: "length hdr = 4 \<Longrightarrow> length a = 16 \<Longrightarrow> get_at (hdr @ a @ b) 4 16 = a"
  by (simp add: get_at_def)

lemma length_hmac_md5: "length (hmac_spec md5_spec k m) = 16"
  by (simp add: hmac_spec_def Let_def length_md5_spec)

lemma length_rfc_ma [simp]: "length (rfc_ma s hdr y as) = 16"
  by (simp add: rfc_ma_def length_hmac_md5)

lemma nbo_bound: "fr_nbo_to_uint16 b i < 65536"
  using byte_less [of "b ! i"] byte_less [of "b ! (i + 1)"] by (simp add: fr_nbo_to_uint16_def)

lemma sign_ma_packet:
  assumes "radius_packet hdr a as" "has_attr MESSAGE_AUTHENTICATOR as" "length s \<le> 65535"
    and "digest_vector (hdr ! 0) v a as = Some y" "length y = 16"
  shows "sign_ma (hdr @ a @ enc_attrs as @ rest) (20 + length (enc_attrs as)) v s (20 + ma_off as) =
    Inr (hdr @ y @ enc_attrs (rfc_attrs s hdr y as) @ rest)"
proof -
  let ?n = "20 + length (enc_attrs as)"
  have h: "length hdr = 4" "length a = 16" "wf_attrs as" "?n < 65536"
    using assms(1) nbo_bound [of hdr 2] by (auto simp: radius_packet_def)
  have code: "(hdr @ b) ! 0 = hdr ! 0" for b using h(1) by (simp add: nth_append)
  let ?z = "fill_ma (replicate 16 0) as"
  have z: "wf_attrs ?z" "has_attr MESSAGE_AUTHENTICATOR ?z" "ma_off ?z = ma_off as"
    "length (enc_attrs ?z) = length (enc_attrs as)"
    using h(3) assms(2) by (simp_all add: wf_attrs_fill length_enc_fill ma_off_fill)
  have vec: "sign_ma_vector (hdr @ a @ enc_attrs as @ rest) v = Inr (hdr @ y @ enc_attrs as @ rest)"
    using assms(2,4,5) h
    by (auto simp: sign_ma_vector_def digest_vector_def request_codes_def response_codes_def own_codes_def
          code put_vector Let_def split: if_splits option.splits)
  have "fr_hmac_md5 (take ?n (hdr @ y @ enc_attrs ?z @ rest)) s = rfc_ma s hdr y as"
    using h z(4) assms(3,5) by (simp add: rfc_ma_def hmac_md5_spec)
  moreover have "ma_off as + 18 \<le> length (enc_attrs as)" by (rule ma_off_bound [OF h(3) assms(2)])
  ultimately show ?thesis
    using h z assms(2,5)
      put_packet_ma [of hdr y as "replicate 16 0" rest] put_packet_ma [of hdr y ?z "rfc_ma s hdr y as" rest]
    by (simp add: sign_ma_def vec Let_def rfc_attrs_def)
qed

lemma sign_auth_packet:
  assumes "length hdr = 4" "length b = 16" "20 + length (enc_attrs as) < 65536" "length s \<le> 65535"
    and "digest_vector (hdr ! 0) v a bs = Some y" "length y = 16"
  shows "sign_auth (hdr @ b @ enc_attrs as @ rest) (20 + length (enc_attrs as)) v s =
    Inr (hdr @ (if hdr ! 0 \<in> set own_codes then b else md5_spec (hdr @ y @ enc_attrs as @ s)) @ enc_attrs as @ rest)"
proof -
  have code: "(hdr @ c) ! 0 = hdr ! 0" for c using assms(1) by (simp add: nth_append)
  have "md5_final_out (fr_md5_local_update (fr_md5_local_update fr_md5_local_ctx_reset (hdr @ y @ enc_attrs as)) s) =
      md5_spec ((hdr @ y @ enc_attrs as) @ s)"
    using assms by (intro md5.final_update2) simp
  then have "sign_auth_md5 (hdr @ y @ enc_attrs as @ rest) (20 + length (enc_attrs as)) s =
      hdr @ md5_spec (hdr @ y @ enc_attrs as @ s) @ enc_attrs as @ rest"
    using assms by (simp add: sign_auth_md5_def md5_final_out_def put_vector length_md5_spec)
  then show ?thesis
    using assms
    by (auto simp: sign_auth_def digest_vector_def request_codes_def response_codes_def own_codes_def
          code put_vector Let_def split: if_splits option.splits)
qed

lemma radius_packetD:
  assumes "radius_packet hdr a as"
  shows "length hdr = 4" "length a = 16" "wf_attrs as" "20 + length (enc_attrs as) < 65536"
  using assms nbo_bound [of hdr 2] by (auto simp: radius_packet_def)

lemma radius_packet_buffer:
  fixes rest :: bytes
  assumes "radius_packet hdr a as"
  defines "pkt \<equiv> hdr @ a @ enc_attrs as @ rest"
  defines "n \<equiv> 20 + length (enc_attrs as)"
  shows "n \<le> length pkt" "drop 20 (take n pkt) = enc_attrs as"
    "fr_nbo_to_uint16 pkt 2 = n" "\<not> length pkt < 4" "pkt ! 0 = hdr ! 0"
  using assms(1) nbo_header by (auto simp: radius_packet_def pkt_def n_def nth_append)

lemma sign_packet:
  assumes "radius_packet hdr a as" "length s \<le> 65535"
    and "digest_vector (hdr ! 0) v a as = Some y" "length y = 16"
  shows "fr_radius_sign (hdr @ a @ enc_attrs as @ rest) v s =
    Inr (hdr @ rfc_auth s hdr y a as @ enc_attrs (rfc_attrs s hdr y as) @ rest)"
proof -
  note D = radius_packetD [OF assms(1)] and B = radius_packet_buffer [OF assms(1), of rest]
  let ?as = "rfc_attrs s hdr y as"
  have find: "sign_find_ma (hdr @ a @ enc_attrs as @ rest) (20 + length (enc_attrs as)) 20 =
      Inr (if has_attr MESSAGE_AUTHENTICATOR as then Some (20 + ma_off as) else None)"
    using B by (intro sign_find_ma_attrs D) auto
  have len: "length (enc_attrs ?as) = length (enc_attrs as)"
    using D(3) by (simp add: rfc_attrs_def length_enc_fill)
  show ?thesis
  proof (cases "has_attr MESSAGE_AUTHENTICATOR as")
    case False
    then have "?as = as" by (simp add: rfc_attrs_def fill_ma_absent)
    with False find B assms(2) sign_auth_packet [OF D(1,2,4) assms(2-4), of rest] show ?thesis
      by (simp add: fr_radius_sign_def Let_def rfc_auth_def del: append_assoc)
  next
    case True
    have "hdr ! 0 \<in> set own_codes \<Longrightarrow> y = a"
      using assms(3) by (auto simp: digest_vector_def request_codes_def response_codes_def own_codes_def)
    moreover have "20 + length (enc_attrs ?as) < 65536" using D(4) len by simp
    ultimately show ?thesis
      using True find B assms(2) len sign_ma_packet [OF assms(1) True assms(2-4), of rest]
        sign_auth_packet [OF D(1) assms(4) _ assms(2-4), of ?as rest]
      by (auto simp: fr_radius_sign_def Let_def rfc_auth_def)
  qed
qed

lemma sign_ma_vector_refused:
  assumes "digest_vector (pkt ! 0) v a as = None" "has_attr MESSAGE_AUTHENTICATOR as"
  shows "\<exists>e. sign_ma_vector pkt v = Inl e \<and> e \<noteq> Sign_overrun"
  using assms
  by (cases v) (auto simp: sign_ma_vector_def digest_vector_def request_codes_def response_codes_def
    own_codes_def Let_def split: if_splits)

lemma sign_auth_refused:
  assumes "digest_vector (pkt ! 0) v a as = None" "\<not> has_attr MESSAGE_AUTHENTICATOR as"
  shows "\<exists>e. sign_auth pkt n v s = Inl e \<and> e \<noteq> Sign_overrun"
  using assms
  by (cases v) (auto simp: sign_auth_def digest_vector_def request_codes_def response_codes_def
    own_codes_def Let_def split: if_splits)

lemma sign_packet_refused:
  assumes "radius_packet hdr a as" "digest_vector (hdr ! 0) v a as = None \<or> 65535 < length s"
  shows "\<exists>e. fr_radius_sign (hdr @ a @ enc_attrs as @ rest) v s = Inl e \<and> e \<noteq> Sign_overrun"
proof (cases "65535 < length s")
  case True
  with radius_packet_buffer [OF assms(1), of rest] show ?thesis by (simp add: fr_radius_sign_def Let_def)
next
  case False
  let ?pkt = "hdr @ a @ enc_attrs as @ rest"
  note D = radius_packetD [OF assms(1)] and B = radius_packet_buffer [OF assms(1), of rest]
  have none: "digest_vector (?pkt ! 0) v a as = None" using assms(2) False B(5) by simp
  have find: "sign_find_ma ?pkt (20 + length (enc_attrs as)) 20 =
      Inr (if has_attr MESSAGE_AUTHENTICATOR as then Some (20 + ma_off as) else None)"
    using B by (intro sign_find_ma_attrs D) auto
  show ?thesis
  proof (cases "has_attr MESSAGE_AUTHENTICATOR as")
    case True
    from sign_ma_vector_refused [OF none True] obtain e where "sign_ma_vector ?pkt v = Inl e" "e \<noteq> Sign_overrun"
      by blast
    with True find B False show ?thesis
      by (simp add: fr_radius_sign_def sign_ma_def Let_def del: append_assoc)
  next
    case no: False
    from sign_auth_refused [OF none no] obtain e where
      "sign_auth ?pkt (20 + length (enc_attrs as)) v s = Inl e" "e \<noteq> Sign_overrun" by blast
    with no find B False show ?thesis
      by (simp add: fr_radius_sign_def Let_def del: append_assoc)
  qed
qed

subsection \<open>Verification of well-formed packets\<close>

lemma xor_eq_0: "x XOR y = 0 \<longleftrightarrow> x = (y :: byte)"
  by (metis xor_self_eq xor.right_neutral xor.assoc)

lemma digest_cmp_loop_0:
  "n \<le> length a \<Longrightarrow> n \<le> length b \<Longrightarrow> digest_cmp_loop r a b n = 0 \<longleftrightarrow> r = 0 \<and> take n a = take n b"
proof (induction r a b n rule: digest_cmp_loop.induct)
  case (2 r a b n)
  then obtain x a' y b' where [simp]: "a = x # a'" "b = y # b'" by (cases a; cases b) auto
  from 2 show ?case by (auto simp: or_eq_0_iff xor_eq_0)
qed simp

lemma digest_cmp_eq: "length a = 16 \<Longrightarrow> length b = 16 \<Longrightarrow> fr_digest_cmp a b 16 = 0 \<longleftrightarrow> a = b"
  by (simp add: fr_digest_cmp_def digest_cmp_loop_0)

text \<open>What \<open>fr_radius_verify\<close> answers for a packet.\<close>

definition verify_spec ::
  "bytes \<Rightarrow> bytes \<Rightarrow> attribute list \<Rightarrow> bytes option \<Rightarrow> bytes \<Rightarrow> bool \<Rightarrow> bool \<Rightarrow> unit checked" where
  "verify_spec hdr a as v s req lim =
     (if hdr ! 0 = 0 \<or> hdr ! 0 \<ge> CODE_MAX then Fail DECODE_FAIL_UNKNOWN_PACKET_CODE
      else if hdr ! 0 = ACCESS_REQUEST \<and> \<not> has_attr MESSAGE_AUTHENTICATOR as \<and> (req \<or> lim \<and> has_attr PROXY_STATE as)
      then Fail DECODE_FAIL_MA_MISSING
      else case (if length s \<le> 65535 then digest_vector (hdr ! 0) v a as else None) of
          None \<Rightarrow> Fail DECODE_FAIL_VERIFY
        | Some y \<Rightarrow>
            if has_attr MESSAGE_AUTHENTICATOR as \<and> ma_value as \<noteq> rfc_ma s hdr y as then Fail DECODE_FAIL_MA_INVALID
            else if a \<noteq> rfc_auth s hdr y a as then Fail DECODE_FAIL_VERIFY
            else Done ())"

lemma length_rfc_auth: "length a = 16 \<Longrightarrow> length (rfc_auth s hdr y a as) = 16"
  by (simp add: rfc_auth_def length_md5_spec)

text \<open>Comparing with the recalculated packet, and putting back what the calculation overwrote.\<close>

lemma verify_compare_packet:
  fixes s y :: bytes
  assumes "radius_packet hdr a as"
  defines "A \<equiv> rfc_auth s hdr y a as"
  shows "verify_compare (hdr @ a @ enc_attrs as @ rest) (hdr @ A @ enc_attrs (rfc_attrs s hdr y as) @ rest)
      (if has_attr MESSAGE_AUTHENTICATOR as then Some (20 + ma_off as) else None) =
    (hdr @ a @ enc_attrs as @ rest,
     if has_attr MESSAGE_AUTHENTICATOR as \<and> ma_value as \<noteq> rfc_ma s hdr y as then Fail DECODE_FAIL_MA_INVALID
     else if a \<noteq> A then Fail DECODE_FAIL_VERIFY else Done ())"
proof -
  note D = radius_packetD [OF assms(1)]
  let ?as = "rfc_attrs s hdr y as"
  have A: "length A = 16" "hdr ! 0 \<in> set own_codes \<Longrightarrow> A = a"
    using D(2) by (simp add: A_def length_rfc_auth, simp add: A_def rfc_auth_def)
  have code: "(hdr @ c) ! 0 = hdr ! 0" for c using D(1) by (simp add: nth_append)
  have own: "hdr ! 0 \<in> set [ACCESS_REQUEST, STATUS_SERVER] \<longleftrightarrow> hdr ! 0 \<in> set own_codes"
    by (simp add: own_codes_def)
  show ?thesis
  proof (cases "has_attr MESSAGE_AUTHENTICATOR as")
    case False
    then have "?as = as" by (simp add: rfc_attrs_def fill_ma_absent)
    with False D A show ?thesis
      unfolding verify_compare_def Let_def code own get_vector [OF D(1,2)] get_vector [OF D(1) A(1)]
      by (auto simp: put_vector digest_cmp_eq simp del: append_assoc)
  next
    case True
    have as: "wf_attrs ?as" "has_attr MESSAGE_AUTHENTICATOR ?as" "ma_off ?as = ma_off as"
      "ma_value ?as = rfc_ma s hdr y as" "length (ma_value as) = 16" "fill_ma (ma_value as) ?as = as"
      using True D(3) by (simp_all add: rfc_attrs_def wf_attrs_fill ma_off_fill length_ma_value fill_ma_value)
    have get1: "get_at (hdr @ a @ enc_attrs as @ rest) (20 + ma_off as + 2) 16 = ma_value as"
      by (rule get_packet_ma [OF D(1,2,3) True])
    have get2: "get_at (hdr @ A @ enc_attrs ?as @ rest) (20 + ma_off as + 2) 16 = rfc_ma s hdr y as"
      using get_packet_ma [OF D(1) A(1) as(1,2), of rest] by (simp only: as(3,4))
    have put: "put_at (hdr @ A @ enc_attrs ?as @ rest) (20 + ma_off as + 2) (ma_value as) = hdr @ A @ enc_attrs as @ rest"
      using put_packet_ma [OF D(1) A(1) as(1,2,5), of rest] by (simp only: as(3,6))
    have eq: "?as = as" if "ma_value as = rfc_ma s hdr y as"
      using that fill_ma_value [of as] by (simp add: rfc_attrs_def)
    have if_True: "(if has_attr MESSAGE_AUTHENTICATOR as then Some (20 + ma_off as) else None) = Some (20 + ma_off as)"
      using True by simp
    show ?thesis
      unfolding verify_compare_def Let_def code own get_vector [OF D(1,2)] get_vector [OF D(1) A(1)]
        if_True option.case get1 get2 put
      using True D A as(5) eq
      by (auto simp: put_vector digest_cmp_eq simp del: append_assoc)
  qed
qed

lemma verify_packet:
  assumes "radius_packet hdr a as" "\<And>x. v = Some x \<Longrightarrow> length x = 16"
  shows "fr_radius_verify (hdr @ a @ enc_attrs as @ rest) v s req lim =
    (hdr @ a @ enc_attrs as @ rest, verify_spec hdr a as v s req lim)"
proof -
  let ?pkt = "hdr @ a @ enc_attrs as @ rest"
  let ?ma = "if has_attr MESSAGE_AUTHENTICATOR as then Some (20 + ma_off as) else None"
  note D = radius_packetD [OF assms(1)] and B = radius_packet_buffer [OF assms(1), of rest]
  have find: "verify_find_ma lim ?pkt (20 + length (enc_attrs as)) 20 False = Done (?ma, ps_seen lim False as)"
    using B by (intro verify_find_ma_attrs D) auto
  have y: "length y = 16" if "digest_vector (hdr ! 0) v a as = Some y" for y
    using that assms(2) D(2) by (auto simp: digest_vector_def split: if_splits)
  have len: "\<not> length ?pkt < 20" "\<not> 20 + length (enc_attrs as) < 20" using B(1) by simp_all
  let ?dv = "if length s \<le> 65535 then digest_vector (hdr ! 0) v a as else None"
  have "(case fr_radius_sign ?pkt v s of Inl Sign_overrun \<Rightarrow> (?pkt, Overrun)
      | Inl e \<Rightarrow> (?pkt, Fail DECODE_FAIL_VERIFY) | Inr pkt1 \<Rightarrow> verify_compare ?pkt pkt1 ?ma) =
    (?pkt, case ?dv of None \<Rightarrow> Fail DECODE_FAIL_VERIFY
      | Some y \<Rightarrow> if has_attr MESSAGE_AUTHENTICATOR as \<and> ma_value as \<noteq> rfc_ma s hdr y as then Fail DECODE_FAIL_MA_INVALID
          else if a \<noteq> rfc_auth s hdr y a as then Fail DECODE_FAIL_VERIFY else Done ())"
  proof (cases ?dv)
    case None
    then have "digest_vector (hdr ! 0) v a as = None \<or> 65535 < length s" by (auto split: if_splits)
    from sign_packet_refused [OF assms(1) this, of rest] obtain e where
      "fr_radius_sign ?pkt v s = Inl e" "e \<noteq> Sign_overrun" by blast
    with None show ?thesis by (cases e) simp_all
  next
    case (Some y)
    then have dv: "length s \<le> 65535" "digest_vector (hdr ! 0) v a as = Some y" by (auto split: if_splits)
    show ?thesis
      unfolding Some sign_packet [OF assms(1) dv y [OF dv(2)]] option.case sum.case
      by (rule verify_compare_packet [OF assms(1)])
  qed
  with B find len show ?thesis
    unfolding fr_radius_verify_def verify_spec_def Let_def
    by (simp add: ps_seen_all del: append_assoc) blast
qed

subsection \<open>Properties\<close>

lemma wf_packet_split:
  assumes "wf_packet pkt m r len as"
  shows "radius_packet (take 4 pkt) (get_at pkt 4 16) as"
    "pkt = take 4 pkt @ get_at pkt 4 16 @ enc_attrs as @ drop len pkt"
proof -
  have len: "20 \<le> len" "len \<le> length pkt" "len = fr_nbo_to_uint16 pkt 2"
    and pkt: "take len pkt = take 20 pkt @ enc_attrs as" and wf: "wf_attrs as"
    using assms by (auto simp: wf_packet_def wf_attrs_def)
  have "take 20 pkt = take 4 pkt @ get_at pkt 4 16"
    using take_add [of 4 16 pkt] by (simp add: get_at_def)
  then have "take len pkt = take 4 pkt @ get_at pkt 4 16 @ enc_attrs as" using pkt by simp
  then show "pkt = take 4 pkt @ get_at pkt 4 16 @ enc_attrs as @ drop len pkt"
    using append_take_drop_id [of len pkt] by simp
  have "len = 20 + length (enc_attrs as)" using arg_cong [OF pkt, of length] len(1,2) by simp
  moreover have "fr_nbo_to_uint16 (take 4 pkt) 2 = fr_nbo_to_uint16 pkt 2"
    by (simp add: fr_nbo_to_uint16_def)
  ultimately show "radius_packet (take 4 pkt) (get_at pkt 4 16) as"
    using len wf by (simp add: radius_packet_def)
qed

text \<open>
  C2: (signing) On a well-formed packet \<open>fr_radius_sign\<close> computes the authenticators of RFC 2865, 2866
  and 3579: Message-Authenticator is the HMAC-MD5 of the packet with the request's vector (or
  zeros, or the packet's own random authenticator) in the authenticator field and zeros in the
  attribute, and the authenticator field becomes the MD5 of that packet and the secret, except in
  Access-Request and Status-Server.  Bytes after the packet's end are kept.
\<close>

theorem fr_radius_sign_rfc:
  assumes "radius_packet hdr a as" "length s \<le> 65535"
    and "digest_vector (hdr ! 0) v a as = Some y" "length y = 16"
  shows "fr_radius_sign (hdr @ a @ enc_attrs as @ rest) v s =
    Inr (hdr @ rfc_auth s hdr y a as @ enc_attrs (rfc_attrs s hdr y as) @ rest)"
  by (rule sign_packet [OF assms])

definition accept_hdr :: bytes where "accept_hdr = [2, 7, 0, 43]"
definition accept_attrs :: "attribute list" where
  "accept_attrs = [(1, [0x62, 0x6f, 0x62]), (80, replicate 16 0)]"

lemma accept_packet: "radius_packet accept_hdr (replicate 16 0) accept_attrs"
  by (simp add: radius_packet_def accept_hdr_def accept_attrs_def fr_nbo_to_uint16_def)

lemma accept_vector: "digest_vector (accept_hdr ! 0) (Some v) a accept_attrs = Some v"
  by (simp add: digest_vector_def accept_hdr_def request_codes_def response_codes_def)

theorem fr_radius_sign_rfc_witness:
  "radius_packet accept_hdr (replicate 16 0) accept_attrs \<and>
   fr_radius_sign (accept_hdr @ replicate 16 0 @ enc_attrs accept_attrs @ [9]) (Some (replicate 16 5)) [1, 2, 3] =
   Inr (accept_hdr @ rfc_auth [1, 2, 3] accept_hdr (replicate 16 5) (replicate 16 0) accept_attrs @
        enc_attrs (rfc_attrs [1, 2, 3] accept_hdr (replicate 16 5) accept_attrs) @ [9])"
  using fr_radius_sign_rfc [OF accept_packet _ accept_vector, of "[1, 2, 3]" "replicate 16 5" "[9]"] accept_packet
  by simp

text \<open>
  C5: (no access outside the buffer) After \<open>fr_radius_ok\<close> has accepted a buffer, \<open>fr_radius_sign\<close> and
  \<open>fr_radius_verify\<close> stay inside it, for every code, secret and vector.
\<close>

theorem fr_radius_ok_safe:
  assumes "fr_radius_ok pkt max_attributes require_ma = (len, DECODE_FAIL_NONE)"
    and "\<And>x. v = Some x \<Longrightarrow> length x = 16"
  shows "fr_radius_sign pkt v s \<noteq> Inl Sign_overrun \<and> snd (fr_radius_verify pkt v s req lim) \<noteq> Overrun"
proof -
  obtain as where wf: "wf_packet pkt max_attributes require_ma len as"
    using fr_radius_ok_sound [OF assms(1)] by blast
  let ?hdr = "take 4 pkt" and ?a = "get_at pkt 4 16"
  note rp = wf_packet_split(1) [OF wf] and pkt = wf_packet_split(2) [OF wf]
  have "fr_radius_sign (?hdr @ ?a @ enc_attrs as @ drop len pkt) v s \<noteq> Inl Sign_overrun"
  proof (cases "digest_vector (?hdr ! 0) v ?a as = None \<or> 65535 < length s")
    case True
    from sign_packet_refused [OF rp True, of "drop len pkt"] show ?thesis by auto
  next
    case False
    then obtain y where y: "digest_vector (?hdr ! 0) v ?a as = Some y" "length s \<le> 65535" by auto
    then have "length y = 16"
      using assms(2) radius_packetD(2) [OF rp] by (auto simp: digest_vector_def split: if_splits)
    from sign_packet [OF rp y(2,1) this] show ?thesis by simp
  qed
  moreover have "snd (fr_radius_verify (?hdr @ ?a @ enc_attrs as @ drop len pkt) v s req lim) \<noteq> Overrun"
    using verify_packet [OF rp assms(2)] by (simp add: verify_spec_def split: option.splits)
  ultimately show ?thesis by (simp only: pkt [symmetric]) simp
qed

definition accept_pkt :: bytes where
  "accept_pkt = accept_hdr @ replicate 16 0 @ enc_attrs accept_attrs"

lemma accept_ok: "fr_radius_ok accept_pkt 0 True = (43, DECODE_FAIL_NONE)"
  by code_simp

theorem fr_radius_ok_safe_witness:
  "fr_radius_ok accept_pkt 0 True = (43, DECODE_FAIL_NONE) \<and>
   fr_radius_sign accept_pkt (Some (replicate 16 5)) [1] \<noteq> Inl Sign_overrun"
  using fr_radius_ok_safe [OF accept_ok, of "Some (replicate 16 5)"] accept_ok by simp

text \<open>
  C3: (verification) On a well-formed packet \<open>fr_radius_verify\<close> leaves the buffer as it was, on every
  branch, and answers as \<open>verify_spec\<close>: it accepts exactly when the code is known, a mandatory
  Message-Authenticator is present, the packet can be signed, and both the Message-Authenticator
  and the authenticator field have their RFC values.
\<close>

theorem fr_radius_verify_correct:
  assumes "radius_packet hdr a as" "\<And>x. v = Some x \<Longrightarrow> length x = 16"
  shows "fr_radius_verify (hdr @ a @ enc_attrs as @ rest) v s req lim =
    (hdr @ a @ enc_attrs as @ rest, verify_spec hdr a as v s req lim)"
  using assms by (rule verify_packet)

theorem fr_radius_verify_correct_witness:
  "radius_packet accept_hdr (replicate 16 0) accept_attrs \<and>
   fr_radius_verify (accept_hdr @ replicate 16 0 @ enc_attrs accept_attrs @ []) (Some (replicate 16 5)) [1] True True =
   (accept_hdr @ replicate 16 0 @ enc_attrs accept_attrs @ [],
    verify_spec accept_hdr (replicate 16 0) accept_attrs (Some (replicate 16 5)) [1] True True)"
  using fr_radius_verify_correct [OF accept_packet, of "Some (replicate 16 5)" "[]" "[1]" True True] accept_packet
  by simp

text \<open>
  C4: (a signed packet verifies) When \<open>fr_radius_sign\<close> signs a packet that \<open>fr_radius_ok\<close> accepts, then
  \<open>fr_radius_verify\<close> with the same vector and secret accepts the result and does not change it,
  provided that the packet has a Message-Authenticator or none is required.
\<close>

theorem sign_verify_roundtrip:
  assumes "wf_packet pkt m r len as" "\<And>x. v = Some x \<Longrightarrow> length x = 16"
    and "fr_radius_sign pkt v s = Inr out"
    and "has_attr MESSAGE_AUTHENTICATOR as \<or> \<not> req \<and> \<not> lim"
  shows "fr_radius_verify out v s req lim = (out, Done ())"
proof -
  let ?hdr = "take 4 pkt" and ?a = "get_at pkt 4 16"
  note rp = wf_packet_split(1) [OF assms(1)]
  have sign: "fr_radius_sign (?hdr @ ?a @ enc_attrs as @ drop len pkt) v s = Inr out"
    using assms(3) wf_packet_split(2) [OF assms(1)] by simp
  obtain y where y: "digest_vector (?hdr ! 0) v ?a as = Some y" "length s \<le> 65535"
    using sign_packet_refused [OF rp, of v s "drop len pkt"] sign by fastforce
  then have y16: "length y = 16"
    using assms(2) radius_packetD(2) [OF rp] by (auto simp: digest_vector_def split: if_splits)
  let ?a' = "rfc_auth s ?hdr y ?a as" and ?as' = "rfc_attrs s ?hdr y as"
  have out: "out = ?hdr @ ?a' @ enc_attrs ?as' @ drop len pkt"
    using sign sign_packet [OF rp y(2,1) y16] by simp
  have rp': "radius_packet ?hdr ?a' ?as'"
    using rp by (simp add: radius_packet_def length_rfc_auth rfc_attrs_def wf_attrs_fill length_enc_fill)
  have y': "digest_vector (?hdr ! 0) v ?a' ?as' = Some y"
    using y(1) by (auto simp: digest_vector_def rfc_attrs_def rfc_auth_def split: if_splits)
  have ma: "rfc_ma s ?hdr y ?as' = rfc_ma s ?hdr y as" by (simp add: rfc_ma_def rfc_attrs_def)
  then have attrs: "rfc_attrs s ?hdr y ?as' = ?as'" by (simp add: rfc_attrs_def)
  then have auth: "rfc_auth s ?hdr y ?a' ?as' = ?a'" by (simp add: rfc_auth_def)
  have code: "?hdr ! 0 \<noteq> 0" "\<not> CODE_MAX \<le> ?hdr ! 0" using assms(1) by (auto simp: wf_packet_def)
  have "verify_spec ?hdr ?a' ?as' v s req lim = Done ()"
    using y' y(2) ma auth code assms(4)
    by (auto simp: verify_spec_def rfc_attrs_def)
  then show ?thesis using verify_packet [OF rp' assms(2)] out by simp
qed

lemma accept_wf: "wf_packet accept_pkt 0 True 43 accept_attrs"
  by code_simp

theorem sign_verify_roundtrip_witness:
  "\<exists>out. fr_radius_sign accept_pkt (Some (replicate 16 5)) [1] = Inr out \<and>
     fr_radius_verify out (Some (replicate 16 5)) [1] True True = (out, Done ())"
proof -
  have "has_attr MESSAGE_AUTHENTICATOR accept_attrs" by (simp add: accept_attrs_def)
  moreover obtain out where "fr_radius_sign accept_pkt (Some (replicate 16 5)) [1] = Inr out"
    using sign_packet [OF accept_packet _ accept_vector, of "[1]" "replicate 16 5" "[]"]
    by (simp add: accept_pkt_def)
  ultimately show ?thesis
    using sign_verify_roundtrip [OF accept_wf, of "Some (replicate 16 5)" "[1]" out True True] by auto
qed


end
