(* ===== verification/Radius_Password.thy ===== *)
theory Radius_Password
  imports Md5 Radius_Packet
begin

text \<open>
  Hidden attribute values of RADIUS: \<open>encode_password\<close> and \<open>encode_tunnel_password\<close> of
  \<open>src/protocols/radius/encode.c\<close>, \<open>fr_radius_decode_password\<close>, \<open>fr_radius_decode_tunnel_password\<close> and
  the treatment of a decrypted User-Password in \<open>fr_radius_decode_pair_value\<close> of \<open>decode.c\<close>, and
  \<open>fr_radius_ascend_secret\<close> of \<open>base.c\<close>.  The specification is the chain of RFC 2865, section 5.2, and
  RFC 2868, section 3.5.  The packet context is the secret and the request authenticator \<open>vector\<close>; an
  access outside a buffer is an error value.
\<close>

unbundle bit_operations_syntax

subsection \<open>Operations\<close>

text \<open>The loops \<open>for (i = 0; i < k; i++) buf[i + off] ^= d[i]\<close>.\<close>

definition xor_loop :: "bytes \<Rightarrow> nat \<Rightarrow> bytes \<Rightarrow> nat \<Rightarrow> bytes" where
  "xor_loop buf off d k = foldl (\<lambda>p i. p[i + off := p ! (i + off) XOR d ! i]) buf [0..<k]"

definition fr_radius_ascend_secret :: "nat \<Rightarrow> bytes \<Rightarrow> bytes \<Rightarrow> bytes \<Rightarrow> int + bytes" where
  "fr_radius_ascend_secret room inp secret vector =
     (if room < 16 then Inl (- int (16 - room))
      else let digest = fst (fr_md5_local_final (fr_md5_local_update
                 (fr_md5_local_update fr_md5_local_ctx_reset (take 16 vector)) secret));
               inlen = (if length inp > 16 then 16 else length inp)
           in Inr (foldl (\<lambda>d i. d[i := d ! i XOR inp ! i]) digest [0..<inlen]))"

text \<open>The hashing loop of \<open>encode_password\<close>; \<open>old\<close> is the saved context.\<close>

function encode_password_loop ::
  "fr_md5_ctx_local \<Rightarrow> fr_md5_ctx_local \<Rightarrow> bytes \<Rightarrow> nat \<Rightarrow> nat \<Rightarrow> bytes" where
  "encode_password_loop old ctx passwd n len =
     (if n < len then
        let ctx1 = (if n > 0 then fr_md5_local_update (fr_md5_local_ctx_copy ctx old) (get_at passwd (n - 16) 16) else ctx);
            r = fr_md5_local_final ctx1
        in encode_password_loop old (snd r) (xor_loop passwd n (fst r) 16) (n + 16) len
      else passwd)"
  by pat_completeness auto
termination
  by (relation "measure (\<lambda>(old, ctx, passwd, n, len). len - n)") (auto simp: Let_def)

declare encode_password_loop.simps [simp del]

text \<open>The output buffer has \<open>room\<close> bytes left.\<close>

definition encode_password :: "nat \<Rightarrow> bytes \<Rightarrow> bytes \<Rightarrow> bytes \<Rightarrow> int + bytes" where
  "encode_password room inp secret vector =
     (let len = (if length inp > 256 then 256 else length inp);
          passwd = take len inp @ replicate (256 - len) 0;
          len = (if len = 0 then 16 else if len mod 16 \<noteq> 0 then (len + 15) div 16 * 16 else len);
          old = fr_md5_local_update fr_md5_local_ctx_reset secret;
          ctx = fr_md5_local_update old (take 16 vector);
          passwd = encode_password_loop old ctx passwd 0 len
      in if room < len then Inl (- int (len - room)) else Inr (take len passwd))"

function decode_password_loop ::
  "fr_md5_ctx_local \<Rightarrow> bytes \<Rightarrow> fr_md5_ctx_local \<Rightarrow> bytes \<Rightarrow> nat \<Rightarrow> nat \<Rightarrow> bytes" where
  "decode_password_loop old vector ctx passwd n pwlen =
     (if n < pwlen then
        let r = fr_md5_local_final (if n = 0 then fr_md5_local_update ctx (take 16 vector) else ctx);
            ctx1 = fr_md5_local_ctx_copy (snd r) old;
            ctx2 = (if pwlen > n + 16 then fr_md5_local_update ctx1 (get_at passwd n 16) else ctx1)
        in decode_password_loop old vector ctx2 (xor_loop passwd n (fst r) 16) (n + 16) pwlen
      else passwd)"
  by pat_completeness auto
termination
  by (relation "measure (\<lambda>(old, vector, ctx, passwd, n, pwlen). pwlen - n)") (auto simp: Let_def)

declare decode_password_loop.simps [simp del]

text \<open>\<open>None\<close> is an access outside the buffer \<open>passwd\<close>.\<close>

definition fr_radius_decode_password :: "bytes \<Rightarrow> nat \<Rightarrow> bytes \<Rightarrow> bytes \<Rightarrow> (bytes \<times> nat) option" where
  "fr_radius_decode_password passwd pwlen secret vector =
     (let pwlen = (if pwlen > 256 then 256 else pwlen);
          old = fr_md5_local_update fr_md5_local_ctx_reset secret;
          buf = (if pwlen = 0 then passwd else decode_password_loop old vector old passwd 0 pwlen);
          buf = buf[pwlen := 0]
      in if length passwd < (pwlen + 15) div 16 * 16 \<or> length passwd \<le> pwlen then None
         else Some (buf, length (takeWhile (\<lambda>c. c \<noteq> 0) buf)))"

text \<open>\<open>while ((data_len > 0) && (buffer[data_len - 1] == '\0')) data_len--\<close>\<close>

fun strip_zeros :: "bytes \<Rightarrow> nat \<Rightarrow> nat" where
  "strip_zeros buf 0 = 0"
| "strip_zeros buf (Suc n) = (if buf ! n = 0 then strip_zeros buf n else Suc n)"

text \<open>
  The branches of \<open>fr_radius_decode_pair_value\<close> for User-Password and the Ascend secrets.  \<open>buffer\<close> has
  256 bytes and starts with the \<open>attr_len\<close> bytes of the attribute; \<open>flags_length\<close> is the fixed length of
  the attribute in the dictionary, or 0.
\<close>

definition decode_user_password :: "bytes \<Rightarrow> nat \<Rightarrow> nat \<Rightarrow> nat \<Rightarrow> bytes \<Rightarrow> bytes \<Rightarrow> bytes option" where
  "decode_user_password buffer attr_len data_len flags_length secret vector =
     (case fr_radius_decode_password buffer attr_len secret vector of
        None \<Rightarrow> None
      | Some (buf, n) \<Rightarrow>
          let buf = buf[253 := 0];
              data_len = (if flags_length \<noteq> 0 then (if data_len > flags_length then flags_length else data_len)
                          else strip_zeros buf data_len)
          in Some (take data_len buf))"

definition decode_ascend_secret :: "bytes \<Rightarrow> nat \<Rightarrow> bytes \<Rightarrow> bytes \<Rightarrow> bytes" where
  "decode_ascend_secret buffer data_len secret vector =
     (let buf = (case fr_radius_ascend_secret (length buffer) (take data_len buffer) secret vector of
                   Inl _ \<Rightarrow> buffer | Inr d \<Rightarrow> put_at buffer 0 d);
          buf = buf[16 := 0]
      in takeWhile (\<lambda>c. c \<noteq> 0) buf)"

subsection \<open>The chain\<close>

text \<open>
  Each block of 16 bytes is hidden with the digest of the secret and what came before: the start value
  for the first block, the previous hidden block for the others.
\<close>

function hide :: "bytes \<Rightarrow> bytes \<Rightarrow> bytes \<Rightarrow> bytes" where
  "hide s prev xs =
     (if xs = [] then []
      else let c = map2 (XOR) (take 16 xs) (md5_spec (s @ prev)) in c @ hide s c (drop 16 xs))"
  by pat_completeness auto
termination
  by (relation "measure (\<lambda>(s, prev, xs). length xs)") auto

function unhide :: "bytes \<Rightarrow> bytes \<Rightarrow> bytes \<Rightarrow> bytes" where
  "unhide s prev xs =
     (if xs = [] then []
      else map2 (XOR) (take 16 xs) (md5_spec (s @ prev)) @ unhide s (take 16 xs) (drop 16 xs))"
  by pat_completeness auto
termination
  by (relation "measure (\<lambda>(s, prev, xs). length xs)") auto

declare hide.simps [simp del] unhide.simps [simp del]

lemma hide_Nil [simp]: "hide s prev [] = []" "unhide s prev [] = []"
  by (simp_all add: hide.simps unhide.simps)

lemma length_hide [simp]: "length (hide s prev xs) = length xs"
proof (induction s prev xs rule: hide.induct)
  case (1 s prev xs)
  then show ?case by (cases "xs = []") (auto simp: hide.simps [of s prev xs] Let_def length_md5_spec min_def)
qed

lemma length_unhide [simp]: "length (unhide s prev xs) = length xs"
proof (induction s prev xs rule: unhide.induct)
  case (1 s prev xs)
  then show ?case by (cases "xs = []") (auto simp: unhide.simps [of s prev xs] length_md5_spec min_def)
qed

lemma map2_xor_twice: "length xs \<le> length ds \<Longrightarrow> map2 (XOR) (map2 (XOR) xs ds) ds = (xs :: bytes)"
  by (induction xs ds rule: list_induct2') (simp_all add: xor.assoc)

lemma unhide_hide: "unhide s prev (hide s prev xs) = xs"
proof (induction s prev xs rule: hide.induct)
  case (1 s prev xs)
  show ?case
  proof (cases "xs = []")
    case False
    let ?c = "map2 (XOR) (take 16 xs) (md5_spec (s @ prev))"
    have len: "length ?c = min 16 (length xs)" by (simp add: length_md5_spec)
    have h: "hide s prev xs = ?c @ hide s ?c (drop 16 xs)" using False by (simp add: hide.simps [of s prev xs] Let_def)
    have ne: "hide s prev xs \<noteq> []" using False length_hide [of s prev xs] by (metis length_0_conv)
    have cut: "take 16 (hide s prev xs) = ?c" "drop 16 (hide s prev xs) = hide s ?c (drop 16 xs)"
      unfolding h using len by (auto simp: min_def)
    show ?thesis
      using 1 [OF False refl] unfolding unhide.simps [of s prev "hide s prev xs"] cut
      by (simp add: ne map2_xor_twice length_md5_spec)
  qed simp
qed

lemma unhide_take: "unhide s prev (take k xs) = take k (unhide s prev xs)"
proof (induction s prev xs arbitrary: k rule: unhide.induct)
  case (1 s prev xs)
  show ?case
  proof (cases "xs = [] \<or> k = 0")
    case False
    then have ne: "xs \<noteq> []" "take k xs \<noteq> []" by auto
    let ?d = "md5_spec (s @ prev)"
    have "unhide s prev (take k xs) = map2 (XOR) (take 16 (take k xs)) ?d @ unhide s (take 16 (take k xs)) (drop 16 (take k xs))"
      using ne(2) by (simp add: unhide.simps [of s prev "take k xs"])
    also have "unhide s (take 16 (take k xs)) (drop 16 (take k xs)) = take (k - 16) (unhide s (take 16 xs) (drop 16 xs))"
      using 1 [OF ne(1), of "k - 16"] by (cases "k \<le> 16") (simp_all add: drop_take)
    also have "map2 (XOR) (take 16 (take k xs)) ?d = take k (map2 (XOR) (take 16 xs) ?d)"
      by (intro nth_equalityI) (auto simp: length_md5_spec)
    also have "take k (map2 (XOR) (take 16 xs) ?d) @ take (k - 16) (unhide s (take 16 xs) (drop 16 xs)) =
        take k (unhide s prev xs)"
      using ne(1) by (auto simp: unhide.simps [of s prev xs] length_md5_spec min_def)
    finally show ?thesis .
  qed auto
qed

subsection \<open>The loops compute the chain\<close>

lemma nth_xor_loop:
  assumes "off + k \<le> length buf"
  shows "length (xor_loop buf off d k) = length buf \<and>
    (\<forall>j. xor_loop buf off d k ! j = (if off \<le> j \<and> j < off + k then buf ! j XOR d ! (j - off) else buf ! j))"
  using assms
proof (induction k)
  case 0
  then show ?case by (auto simp: xor_loop_def)
next
  case (Suc k)
  let ?p = "xor_loop buf off d k"
  have "xor_loop buf off d (Suc k) = ?p[k + off := ?p ! (k + off) XOR d ! k]" by (simp add: xor_loop_def)
  with Suc show ?case by (auto simp: nth_list_update less_Suc_eq)
qed

lemma xor_loop_put:
  assumes "off + k \<le> length buf" "k \<le> length d"
  shows "xor_loop buf off d k = put_at buf off (map2 (XOR) (get_at buf off k) d)"
proof (rule nth_equalityI)
  let ?x = "map2 (XOR) (get_at buf off k) d"
  have len: "length ?x = k" using assms by (simp add: get_at_def)
  then show "length (xor_loop buf off d k) = length (put_at buf off ?x)"
    using nth_xor_loop [OF assms(1)] assms(1) by simp
  fix i assume "i < length (xor_loop buf off d k)"
  then have "i < length buf" using nth_xor_loop [OF assms(1)] by simp
  then show "xor_loop buf off d k ! i = put_at buf off ?x ! i"
    using nth_xor_loop [OF assms(1), of d] assms len by (auto simp: nth_put_at get_at_def)
qed

text \<open>Contexts of the built-in MD5 that have absorbed a short message.\<close>

abbreviation absorbed_secret :: "bytes \<Rightarrow> fr_md5_ctx_local" where
  "absorbed_secret s \<equiv> fr_md5_local_update fr_md5_local_ctx_reset s"

lemma md5_secret_final:
  assumes "length s + length b < 2 ^ 29"
  shows "fst (fr_md5_local_final (fr_md5_local_update (absorbed_secret s) b)) = md5_spec (s @ b)"
  using md5.final_update2 [OF assms] by (simp add: md5_final_out_def)

text \<open>
  One step of a hiding loop: the block at \<open>off\<close> is replaced, and the rest of the chain starts from it.
  \<open>key\<close> is the start value of the chain at this point.
\<close>

lemma hide_step:
  assumes "xs \<noteq> []" "pre @ xs @ post = buf"
  shows "pre @ hide s key xs @ post =
    (pre @ map2 (XOR) (take 16 xs) (md5_spec (s @ key))) @
      hide s (map2 (XOR) (take 16 xs) (md5_spec (s @ key))) (drop 16 xs) @ post"
  using assms by (simp add: hide.simps [of s key xs] Let_def)

lemma encode_password_loop_hides:
  assumes "length s + 16 < 2 ^ 29" "buf = pre @ xs @ post" "length pre = n" "length xs = len - n" "n \<le> len"
    "len mod 16 = 0" "n mod 16 = 0"
    "length key = 16" "if n = 0 then ctx = fr_md5_local_update (absorbed_secret s) key else key = get_at buf (n - 16) 16"
  shows "encode_password_loop (absorbed_secret s) ctx buf n len = pre @ hide s key xs @ post"
  using assms(2-)
proof (induction "len - n" arbitrary: buf pre xs n key ctx rule: less_induct)
  case less
  show ?case
  proof (cases "n < len")
    case True
    have lt: "16 \<le> len - n" using True less.prems(5,6) by presburger
    let ?d = "md5_spec (s @ key)"
    let ?c = "map2 (XOR) (take 16 xs) ?d"
    let ?r = "fr_md5_local_final (if n > 0 then fr_md5_local_update (fr_md5_local_ctx_copy ctx (absorbed_secret s)) (get_at buf (n - 16) 16) else ctx)"
    have dig: "fst ?r = ?d"
      using less.prems(7,8) md5_secret_final [of s key] assms(1) by (auto simp: fr_md5_local_ctx_copy_def split: if_splits)
    have buf': "xor_loop buf n ?d 16 = (pre @ ?c) @ drop 16 xs @ post"
      using less.prems(1-3) lt by (subst xor_loop_put) (auto simp: length_md5_spec put_at_def get_at_def)
    have "encode_password_loop (absorbed_secret s) ctx buf n len =
        encode_password_loop (absorbed_secret s) (snd ?r) ((pre @ ?c) @ drop 16 xs @ post) (n + 16) len"
      using True unfolding encode_password_loop.simps [of _ ctx buf n] Let_def dig buf' by simp
    also have "\<dots> = (pre @ ?c) @ hide s ?c (drop 16 xs) @ post"
      by (rule less.hyps) (use True lt less.prems in \<open>auto simp: length_md5_spec get_at_def mod_simps\<close>)
    also have "\<dots> = pre @ hide s key xs @ post"
      using lt less.prems(3) by (subst hide_step [of xs pre post buf]) (auto simp: less.prems(1))
    finally show ?thesis .
  next
    case False
    with less.prems show ?thesis by (simp add: encode_password_loop.simps)
  qed
qed

lemma xor_block:
  assumes "buf = pre @ xs @ post" "length xs < 16" "16 \<le> length xs + length post" "length d = 16"
  shows "\<exists>post'. length post' = length post \<and>
    put_at buf (length pre) (map2 (XOR) (get_at buf (length pre) 16) d) = pre @ map2 (XOR) xs d @ post'"
proof -
  let ?k = "length xs"
  have g: "get_at buf (length pre) 16 = xs @ take (16 - ?k) post" using assms(1,2) by (simp add: get_at_def)
  have d: "d = take ?k d @ drop ?k d" by simp
  have "map2 (XOR) (xs @ take (16 - ?k) post) d = map2 (XOR) xs (take ?k d) @ map2 (XOR) (take (16 - ?k) post) (drop ?k d)"
    by (subst d, subst zip_append) (use assms in auto)
  moreover have "map2 (XOR) xs (take ?k d) = map2 (XOR) xs d"
    using assms(2,4) by (intro nth_equalityI) auto
  ultimately have "put_at buf (length pre) (map2 (XOR) (get_at buf (length pre) 16) d) =
      pre @ map2 (XOR) xs d @ (map2 (XOR) (take (16 - ?k) post) (drop ?k d) @ drop (16 - ?k) post)"
    unfolding g using assms by (simp add: put_at_def min_def)
  moreover have "length (map2 (XOR) (take (16 - ?k) post) (drop ?k d) @ drop (16 - ?k) post) = length post"
    using assms by auto
  ultimately show ?thesis by blast
qed

lemma decode_password_stop: "pwlen \<le> n \<Longrightarrow> decode_password_loop old vector ctx buf n pwlen = buf"
  by (simp add: decode_password_loop.simps)

lemma decode_password_loop_unhides:
  assumes "length s + 16 < 2 ^ 29" "buf = pre @ xs @ post" "length pre = n" "length xs = pwlen - n" "n \<le> pwlen"
    "length xs \<le> 0 \<or> n + (length xs + 15) div 16 * 16 \<le> length buf" "length key = 16"
    "if n = 0 then ctx = absorbed_secret s \<and> key = take 16 vector
     else pwlen > n \<longrightarrow> ctx = fr_md5_local_update (absorbed_secret s) key"
  shows "\<exists>post'. length post' = length post \<and>
    decode_password_loop (absorbed_secret s) vector ctx buf n pwlen = pre @ unhide s key xs @ post'"
  using assms(2-)
proof (induction "pwlen - n" arbitrary: buf pre xs n key ctx rule: less_induct)
  case less
  let ?d = "md5_spec (s @ key)"
  let ?r = "fr_md5_local_final (if n = 0 then fr_md5_local_update ctx (take 16 vector) else ctx)"
  consider (stop) "n = pwlen" | (part) "n < pwlen" "pwlen - n < 16" | (full) "n < pwlen" "16 \<le> pwlen - n"
    using less.prems(4) by linarith
  then show ?case
  proof cases
    case stop
    with less.prems show ?thesis by (auto simp: decode_password_loop.simps)
  next
    case part
    have dig: "fst ?r = ?d" using less.prems(6,7) part md5_secret_final [of s key] assms(1) by (auto split: if_splits)
    have xs: "xs \<noteq> []" "length xs < 16" using part less.prems(3) by auto
    moreover from xs have "0 < length xs" by simp
    ultimately have "(length xs + 15) div 16 = 1" by presburger
    then have sixteen: "16 \<le> length xs + length post" using less.prems(1,2,5) xs(1) by simp
    then have room: "n + 16 \<le> length buf" using less.prems(1,2) by simp
    from xor_block [OF less.prems(1) xs(2) sixteen, of ?d] obtain post' where
      post': "length post' = length post" "xor_loop buf n ?d 16 = pre @ map2 (XOR) xs ?d @ post'"
      using less.prems(2) room by (auto simp: length_md5_spec xor_loop_put)
    have "decode_password_loop (absorbed_secret s) vector ctx buf n pwlen = pre @ map2 (XOR) xs ?d @ post'"
      using part unfolding decode_password_loop.simps [of _ vector ctx buf n] Let_def dig post'(2)
      by (simp add: decode_password_stop)
    with post'(1) xs show ?thesis by (auto simp: unhide.simps [of s key xs])
  next
    case full
    have dig: "fst ?r = ?d" using less.prems(6,7) full md5_secret_final [of s key] assms(1) by (auto split: if_splits)
    let ?p = "map2 (XOR) (take 16 xs) ?d"
    have buf': "xor_loop buf n ?d 16 = (pre @ ?p) @ drop 16 xs @ post"
      using less.prems(1-3) full by (subst xor_loop_put) (auto simp: length_md5_spec put_at_def get_at_def)
    let ?ctx = "fr_md5_local_ctx_copy (snd ?r) (absorbed_secret s)"
    let ?ctx2 = "if pwlen > n + 16 then fr_md5_local_update ?ctx (get_at buf n 16) else ?ctx"
    have get: "get_at buf n 16 = take 16 xs" using less.prems(1-3) full by (simp add: get_at_def)
    have st: "decode_password_loop (absorbed_secret s) vector ctx buf n pwlen =
        decode_password_loop (absorbed_secret s) vector ?ctx2 ((pre @ ?p) @ drop 16 xs @ post) (n + 16) pwlen"
      using full unfolding decode_password_loop.simps [of _ vector ctx buf n] Let_def dig buf' by simp
    have "\<exists>post'. length post' = length post \<and>
        decode_password_loop (absorbed_secret s) vector ?ctx2 ((pre @ ?p) @ drop 16 xs @ post) (n + 16) pwlen =
        (pre @ ?p) @ unhide s (take 16 xs) (drop 16 xs) @ post'"
    proof (rule less.hyps)
      have "(length xs + 15) div 16 = Suc ((length (drop 16 xs) + 15) div 16)"
        using full less.prems(3) div_add_self2 [of 16 "length xs - 1"] by (simp add: le_div_geq)
      then show "length (drop 16 xs) \<le> 0 \<or> n + 16 + (length (drop 16 xs) + 15) div 16 * 16 \<le>
          length ((pre @ ?p) @ drop 16 xs @ post)"
        using less.prems(1-3,5) full by (simp add: length_md5_spec)
    qed (use full less.prems(2-4) in \<open>auto simp: length_md5_spec get fr_md5_local_ctx_copy_def\<close>)
    moreover have "unhide s key xs = ?p @ unhide s (take 16 xs) (drop 16 xs)"
      using full less.prems(3) by (subst unhide.simps) auto
    ultimately show ?thesis unfolding st by auto
  qed
qed

subsection \<open>User-Password\<close>

definition padded_len :: "nat \<Rightarrow> nat" where
  "padded_len n = (if n = 0 then 16 else (n + 15) div 16 * 16)"

definition pad16 :: "bytes \<Rightarrow> bytes" where
  "pad16 xs = xs @ replicate (padded_len (length xs) - length xs) 0"

lemma padded_len_ge: "n \<le> padded_len n"
  unfolding padded_len_def by presburger

lemma padded_len_le: "n \<le> 16 * k \<Longrightarrow> 0 < k \<Longrightarrow> padded_len n \<le> 16 * k"
  unfolding padded_len_def by (auto simp: less_Suc_eq_le)

lemma padded_len_mod: "padded_len n mod 16 = 0"
  by (simp add: padded_len_def)

lemma length_pad16 [simp]: "length (pad16 xs) = padded_len (length xs)"
  using padded_len_ge [of "length xs"] by (simp add: pad16_def)

lemma code_padded_len:
  "(if n = 0 then 16 else if n mod 16 \<noteq> 0 then (n + 15) div 16 * 16 else n) = padded_len n"
proof (cases "n mod 16 = 0 \<and> n \<noteq> 0")
  case True
  then have "(n + 15) div 16 * 16 = n" by presburger
  with True show ?thesis by (simp add: padded_len_def)
qed (auto simp: padded_len_def)

lemma encode_password_hides:
  assumes "length inp \<le> 256" "16 \<le> length vector" "length secret + 16 < 2 ^ 29"
  shows "encode_password room inp secret vector =
    (if room < padded_len (length inp) then Inl (- int (padded_len (length inp) - room))
     else Inr (hide secret (take 16 vector) (pad16 inp)))"
proof -
  let ?n = "padded_len (length inp)"
  let ?buf = "inp @ replicate (256 - length inp) 0"
  have n: "?n \<le> 256" "length inp \<le> ?n" using padded_len_le [of "length inp" 16] padded_len_ge assms(1) by simp_all
  have buf: "?buf = [] @ pad16 inp @ replicate (256 - ?n) 0"
    using n by (simp add: pad16_def replicate_add [symmetric])
  have "encode_password_loop (absorbed_secret secret) (fr_md5_local_update (absorbed_secret secret) (take 16 vector)) ?buf 0 ?n =
      [] @ hide secret (take 16 vector) (pad16 inp) @ replicate (256 - ?n) 0"
    by (rule encode_password_loop_hides [OF assms(3) buf]) (simp_all add: padded_len_mod assms(2))
  then show ?thesis using assms(1) by (simp add: encode_password_def Let_def code_padded_len)
qed

lemma decode_password_unhides:
  assumes "length data \<le> 256" "16 \<le> length vector" "length secret + 16 < 2 ^ 29" "buf = data @ rest" "data \<noteq> []"
    "(length data + 15) div 16 * 16 \<le> length buf" "length data < length buf"
  shows "\<exists>rest'. length rest' = length rest \<and>
    fr_radius_decode_password buf (length data) secret vector =
    Some (let b = (unhide secret (take 16 vector) data @ rest')[length data := 0] in (b, length (takeWhile (\<lambda>c. c \<noteq> 0) b)))"
proof -
  have "\<exists>rest'. length rest' = length rest \<and>
      decode_password_loop (absorbed_secret secret) vector (absorbed_secret secret) buf 0 (length data) =
      [] @ unhide secret (take 16 vector) data @ rest'"
    by (rule decode_password_loop_unhides [OF assms(3)]) (use assms in auto)
  then show ?thesis using assms by (auto simp: fr_radius_decode_password_def Let_def)
qed

lemma strip_zeros_padding:
  assumes "buf = xs @ replicate k 0 @ post" "xs \<noteq> []" "last xs \<noteq> 0"
  shows "strip_zeros buf (length xs + k) = length xs"
  using assms(1)
proof (induction k arbitrary: post)
  case 0
  obtain m where m: "length xs = Suc m" using assms(2) by (cases xs) auto
  have "buf ! m = last xs" using 0 m assms(2) by (simp add: nth_append last_conv_nth)
  with assms(3) m show ?case by simp
next
  case (Suc k)
  have buf: "buf = xs @ replicate k 0 @ (0 # post)" using Suc.prems by (simp add: replicate_app_Cons_same)
  then have "buf ! (length xs + k) = 0" by (simp add: nth_append)
  with Suc.IH [OF buf] show ?case by simp
qed

lemma decode_user_password_unhides:
  assumes "length data \<le> 253" "data \<noteq> []" "length junk = 256" "16 \<le> length vector" "length secret + 16 < 2 ^ 29"
    "unhide secret (take 16 vector) data = xs @ replicate k 0" "xs \<noteq> []" "last xs \<noteq> 0"
  shows "decode_user_password (data @ drop (length data) junk) (length data) (length data) 0 secret vector = Some xs"
proof -
  let ?buf = "data @ drop (length data) junk"
  have len: "length data = length xs + k" using arg_cong [OF assms(6), of length] by simp
  have up: "(length data + 15) div 16 * 16 \<le> 256" using assms(1) by simp
  from decode_password_unhides [OF _ assms(4,5), of data ?buf "drop (length data) junk"] assms(1-3) up
  obtain rest' where r: "length rest' = 256 - length data"
    "fr_radius_decode_password ?buf (length data) secret vector =
      Some (let b = (unhide secret (take 16 vector) data @ rest')[length data := 0] in (b, length (takeWhile (\<lambda>c. c \<noteq> 0) b)))"
    by auto
  let ?b = "(unhide secret (take 16 vector) data @ rest')[length data := 0, 253 := 0]"
  have "\<not> 253 - length xs < k" "253 - length xs - k = 253 - (length xs + k)" using assms(1) len by linarith+
  then have b: "?b = xs @ replicate k 0 @ rest'[0 := 0, 253 - length data := 0]"
    unfolding assms(6) using assms(1) by (simp add: list_update_append len)
  have "strip_zeros ?b (length data) = length xs"
    unfolding len by (rule strip_zeros_padding [OF b [unfolded len] assms(7,8)])
  then show ?thesis unfolding decode_user_password_def Let_def r(2) using b by simp
qed

lemma user_password_roundtrip:
  assumes "encode_password room pw secret vector = Inr data" "pw \<noteq> []" "length pw \<le> 240" "last pw \<noteq> 0"
    "length vector = 16" "length secret + 16 < 2 ^ 29" "length junk = 256"
  shows "decode_user_password (data @ drop (length data) junk) (length data) (length data) 0 secret vector = Some pw"
    and "length data \<le> 240" "data \<noteq> []"
proof -
  have data: "data = hide secret (take 16 vector) (pad16 pw)"
    using assms(1,3) encode_password_hides [of pw vector secret room] assms(5,6) by (simp split: if_splits)
  have len: "length data = padded_len (length pw)" by (simp add: data)
  moreover have "padded_len (length pw) \<le> 240" "length pw \<le> padded_len (length pw)"
    using padded_len_le [of "length pw" 15] padded_len_ge assms(3) by simp_all
  ultimately show "length data \<le> 240" "data \<noteq> []" using assms(2) by auto
  then show "decode_user_password (data @ drop (length data) junk) (length data) (length data) 0 secret vector = Some pw"
    using assms by (intro decode_user_password_unhides) (auto simp: data unhide_hide pad16_def)
qed

subsection \<open>Ascend secrets\<close>

lemma xor_prefix_loop:
  "k \<le> length d \<Longrightarrow> foldl (\<lambda>d i. d[i := d ! i XOR inp ! i]) d [0..<k] =
    map (\<lambda>i. if i < k then d ! i XOR inp ! i else d ! i) [0..<length d]"
proof (induction k)
  case 0
  then show ?case by (simp add: map_nth)
next
  case (Suc k)
  then show ?case by (auto simp: nth_list_update less_Suc_eq intro!: nth_equalityI)
qed

definition ascend_digest :: "bytes \<Rightarrow> bytes \<Rightarrow> bytes" where
  "ascend_digest secret vector = md5_spec (take 16 vector @ secret)"

lemma length_ascend_digest [simp]: "length (ascend_digest s v) = 16"
  by (simp add: ascend_digest_def length_md5_spec)

lemma ascend_secret_hides:
  assumes "16 \<le> room" "length secret + 16 < 2 ^ 29" "16 \<le> length vector"
  shows "fr_radius_ascend_secret room inp secret vector =
    Inr (map2 (XOR) (take 16 (inp @ replicate 16 0)) (ascend_digest secret vector))"
proof -
  have d: "fst (fr_md5_local_final (fr_md5_local_update (absorbed_secret (take 16 vector)) secret)) =
      ascend_digest secret vector"
    unfolding ascend_digest_def by (rule md5_secret_final) (use assms in simp)
  show ?thesis
    unfolding fr_radius_ascend_secret_def Let_def d using assms(1)
    by (auto simp: xor_prefix_loop nth_append xor.commute intro!: nth_equalityI)
qed

lemma ascend_secret_twice:
  assumes "16 \<le> room" "length secret + 16 < 2 ^ 29" "16 \<le> length vector"
    "fr_radius_ascend_secret room inp secret vector = Inr d"
  shows "fr_radius_ascend_secret room' (take n d) secret vector = Inr d' \<Longrightarrow> 16 \<le> n \<Longrightarrow> 16 \<le> room' \<Longrightarrow>
    d' = take 16 (inp @ replicate 16 0)"
  using ascend_secret_hides [OF assms(1-3), of inp] ascend_secret_hides [OF _ assms(2,3), of room' "take n d"] assms(4)
  by (auto simp: map2_xor_twice)

lemma ascend_secret_roundtrip:
  assumes "fr_radius_ascend_secret room pw secret vector = Inr data" "length pw \<le> 16" "0 \<notin> set pw"
    "length vector = 16" "length secret + 16 < 2 ^ 29" "length junk = 256"
  shows "decode_ascend_secret (data @ drop (length data) junk) (length data) secret vector = pw"
    and "length data = 16"
proof -
  have room: "16 \<le> room" using assms(1) by (cases "room < 16") (auto simp: fr_radius_ascend_secret_def)
  show len: "length data = 16"
    using ascend_secret_hides [OF room assms(5), of vector pw] assms(1,4) by simp
  obtain d where d: "fr_radius_ascend_secret 256 (take 16 data) secret vector = Inr d"
    using ascend_secret_hides [OF _ assms(5), of 256 vector] assms(4) by auto
  then have "d = take 16 (pw @ replicate 16 0)"
    using ascend_secret_twice [OF room assms(5) _ assms(1), of 256 16 d] assms(4) by simp
  then have "d = pw @ replicate (16 - length pw) 0" using assms(2) by simp
  moreover from this have "length d = 16" using assms(2) by simp
  ultimately have "decode_ascend_secret (data @ drop (length data) junk) (length data) secret vector =
      takeWhile (\<lambda>c. c \<noteq> 0) (pw @ replicate (16 - length pw) 0 @ (drop 16 junk)[0 := 0])"
    using d len assms(2,6) by (simp add: decode_ascend_secret_def put_at_def list_update_append)
  also have "\<dots> = pw"
  proof -
    have "takeWhile (\<lambda>c. c \<noteq> 0) (replicate (16 - length pw) (0 :: byte) @ (drop 16 junk)[0 := 0]) = []"
      using assms(6) by (cases "16 - length pw"; cases "drop 16 junk") auto
    then show ?thesis using assms(3) by (subst takeWhile_append2) auto
  qed
  finally show "decode_ascend_secret (data @ drop (length data) junk) (length data) secret vector = pw" .
qed

end
