(* ===== verification/Radius_Tunnel.thy ===== *)
theory Radius_Tunnel
  imports Radius_Password
begin

text \<open>
  Hidden values of RADIUS attributes: \<open>encode_tunnel_password\<close> of \<open>src/protocols/radius/encode.c\<close> and
  \<open>fr_radius_decode_tunnel_password\<close> of \<open>decode.c\<close>, the generator \<open>fr_fast_rand\<close> of
  \<open>src/lib/util/rand.c\<close> that feeds the salt and the padding, and the two places where an attribute's
  encryption flag selects the style: the switch of \<open>encode_value\<close> and the one of
  \<open>fr_radius_decode_pair_value\<close>.
\<close>

unbundle bit_operations_syntax

subsection \<open>Operations\<close>

text \<open>The generator of \<open>src/lib/util/rand.c\<close> that fills the padding and the salt.\<close>

record fr_fast_rand_t =
  ra :: u32
  rb :: u32

definition fr_fast_rand :: "fr_fast_rand_t \<Rightarrow> u32 \<times> fr_fast_rand_t" where
  "fr_fast_rand ctx =
     (let ctx = ctx\<lparr>ra := 36969 * (ra ctx AND 0xffff) + drop_bit 16 (ra ctx)\<rparr>;
          ctx = ctx\<lparr>rb := 18000 * (rb ctx AND 0xffff) + drop_bit 16 (rb ctx)\<rparr>
      in (push_bit 16 (ra ctx) + rb ctx, ctx))"

text \<open>The fields of the encoder's context that hiding a value uses.\<close>

record fr_radius_encode_ctx_t =
  common_secret :: bytes
  request_authenticator :: bytes
  salt_offset :: u32
  rand_ctx :: fr_fast_rand_t
  disallow_tunnel_passwords :: bool

text \<open>\<open>k\<close> bytes of random data, as the loop over the end of \<open>tpasswd\<close> stores them.\<close>

fun rand_fill :: "nat \<Rightarrow> fr_fast_rand_t \<Rightarrow> bytes \<times> fr_fast_rand_t" where
  "rand_fill 0 r = ([], r)"
| "rand_fill (Suc k) r =
     (let x = fr_fast_rand r; y = rand_fill k (snd x) in (ucast (fst x) # fst y, snd y))"

function encode_tunnel_loop ::
  "fr_md5_ctx_local \<Rightarrow> fr_md5_ctx_local \<Rightarrow> bytes \<Rightarrow> nat \<Rightarrow> nat \<Rightarrow> bytes" where
  "encode_tunnel_loop old ctx tpasswd n encrypted_len =
     (if n < encrypted_len then
        let ctx1 = (if n > 0 then fr_md5_local_update (fr_md5_local_ctx_copy ctx old) (get_at tpasswd (2 + n - 16) 16) else ctx);
            r = fr_md5_local_final ctx1;
            block_len = (if encrypted_len - n > 16 then 16 else encrypted_len - n)
        in encode_tunnel_loop old (snd r) (xor_loop tpasswd (2 + n) (fst r) block_len) (n + 16) encrypted_len
      else tpasswd)"
  by pat_completeness auto
termination
  by (relation "measure (\<lambda>(old, ctx, passwd, n, len). len - n)") (auto simp: Let_def)

declare encode_tunnel_loop.simps [simp del]

text \<open>
  The output buffer has \<open>room\<close> bytes left, of which at most 253 are used.  The salt counter and the random
  generator of the context are advanced.
\<close>

definition encode_tunnel_password ::
  "nat \<Rightarrow> bytes \<Rightarrow> fr_radius_encode_ctx_t \<Rightarrow> (int + bytes) \<times> fr_radius_encode_ctx_t" where
  "encode_tunnel_password room inp packet_ctx =
     (let inlen = length inp; fail = Inl (- (int inlen + 3)) in
      if inlen > 253 - 3 then (fail, packet_ctx)
      else
        let encrypted_len = (inlen + 1 + 15) div 16 * 16;
            encrypted_len = (if encrypted_len > 253 - 2 then 253 - 2 else encrypted_len);
            padding = encrypted_len - (inlen + 1);
            output_len = encrypted_len + 2;
            short = output_len - min room 253
        in if short > padding then (fail, packet_ctx)
           else
             let output_len = output_len - short;
                 fill = rand_fill (253 - (3 + inlen)) (rand_ctx packet_ctx);
                 r = fr_fast_rand (snd fill);
                 salt0 = ucast (0x80 OR push_bit 4 (salt_offset packet_ctx AND 0x07) OR (drop_bit 8 (fst r) AND 0x0f));
                 salt1 = ucast (fst r AND 0xff);
                 tpasswd = [salt0, salt1, of_nat inlen] @ inp @ fst fill;
                 old = fr_md5_local_update fr_md5_local_ctx_reset (common_secret packet_ctx);
                 ctx = fr_md5_local_update (fr_md5_local_update old (take 16 (request_authenticator packet_ctx))) (take 2 tpasswd);
                 tpasswd = encode_tunnel_loop old ctx tpasswd 0 encrypted_len
             in (Inr (take output_len tpasswd),
                 packet_ctx\<lparr>salt_offset := salt_offset packet_ctx + 1, rand_ctx := snd r\<rparr>))"

text \<open>The loops \<open>for (i = base; i < block_len; i++) passwd[n + i - 1] = passwd[n + i + 2] ^ digest[i]\<close>.\<close>

definition shift_loop :: "bytes \<Rightarrow> nat \<Rightarrow> bytes \<Rightarrow> nat \<Rightarrow> nat \<Rightarrow> bytes" where
  "shift_loop passwd n digest base block_len =
     foldl (\<lambda>p i. p[n + i - 1 := p ! (n + i + 2) XOR digest ! i]) passwd [base..<block_len]"

text \<open>The blocks after the first one.\<close>

function decode_tunnel_loop ::
  "fr_md5_ctx_local \<Rightarrow> fr_md5_ctx_local \<Rightarrow> bytes \<Rightarrow> nat \<Rightarrow> nat \<Rightarrow> bytes" where
  "decode_tunnel_loop old ctx passwd n pwlen =
     (if n < pwlen - 2 then
        let block_len = (if n + 2 + 16 > pwlen then pwlen - n - 2 else 16);
            r = fr_md5_local_final ctx;
            ctx1 = fr_md5_local_update (fr_md5_local_ctx_copy (snd r) old) (get_at passwd (n + 2) block_len)
        in decode_tunnel_loop old ctx1 (shift_loop passwd n (fst r) 0 block_len) (n + 16) pwlen
      else passwd)"
  by pat_completeness auto
termination
  by (relation "measure (\<lambda>(old, ctx, passwd, n, len). len - 2 - n)") (auto simp: Let_def)

declare decode_tunnel_loop.simps [simp del]

text \<open>
  The first block holds the length of the password, which is not stored.  The result is the return value,
  the buffer and the new \<open>*pwlen\<close>.
\<close>

definition fr_radius_decode_tunnel_password ::
  "bool \<Rightarrow> bytes \<Rightarrow> nat \<Rightarrow> bytes \<Rightarrow> bytes \<Rightarrow> int \<times> bytes \<times> nat" where
  "fr_radius_decode_tunnel_password tunnel_password_zeros passwd pwlen secret vector =
     (if pwlen < 2 then (-1, passwd, pwlen)
      else if pwlen \<le> 3 then (0, passwd[0 := 0], 0)
      else
        let encrypted_len = pwlen - 2;
            old = fr_md5_local_update fr_md5_local_ctx_reset secret;
            ctx = fr_md5_local_update (fr_md5_local_update old (take 16 vector)) (get_at passwd 0 2);
            r = fr_md5_local_final ctx;
            embedded_len = unat (passwd ! 2 XOR fst r ! 0)
        in if embedded_len > encrypted_len then (-1, passwd, pwlen)
           else
             let block_len = (if 2 + 16 > pwlen then pwlen - 2 else 16);
                 ctx1 = fr_md5_local_update (fr_md5_local_ctx_copy (snd r) old) (get_at passwd 2 block_len);
                 buf = shift_loop passwd 0 (fst r) 1 block_len;
                 buf = decode_tunnel_loop old ctx1 buf 16 pwlen
             in if tunnel_password_zeros \<and> (\<exists>i \<in> set [embedded_len..<encrypted_len - 1]. buf ! i \<noteq> 0)
                then (-1, buf, pwlen)
                else (int embedded_len, buf[embedded_len := 0], embedded_len))"

datatype fr_radius_attr_flags_encrypt_t =
    RADIUS_FLAG_ENCRYPT_USER_PASSWORD
  | RADIUS_FLAG_ENCRYPT_TUNNEL_PASSWORD
  | RADIUS_FLAG_ENCRYPT_ASCEND_SECRET

text \<open>
  The switch of \<open>encode_value\<close> over the styles; an empty value and a tunnel password that may not go into
  the packet are left out, with return value 0 and no output.
\<close>

definition encrypt_value ::
  "fr_radius_attr_flags_encrypt_t \<Rightarrow> bool \<Rightarrow> nat \<Rightarrow> bytes \<Rightarrow> fr_radius_encode_ctx_t \<Rightarrow>
    (int + bytes) \<times> fr_radius_encode_ctx_t" where
  "encrypt_value encrypt has_tag room val packet_ctx =
     (if val = [] then (Inr [], packet_ctx)
      else case encrypt of
        RADIUS_FLAG_ENCRYPT_USER_PASSWORD \<Rightarrow>
          (encode_password room val (common_secret packet_ctx) (request_authenticator packet_ctx), packet_ctx)
      | RADIUS_FLAG_ENCRYPT_TUNNEL_PASSWORD \<Rightarrow>
          if disallow_tunnel_passwords packet_ctx then (Inr [], packet_ctx)
          else
            let r = encode_tunnel_password (if has_tag then room - 1 else room) val packet_ctx
            in ((case fst r of
                   Inl slen \<Rightarrow> Inl (slen - (if has_tag then 1 else 0))
                 | Inr data \<Rightarrow> Inr (if has_tag then 0 # data else data)), snd r)
      | RADIUS_FLAG_ENCRYPT_ASCEND_SECRET \<Rightarrow>
          (fr_radius_ascend_secret room val (common_secret packet_ctx) (request_authenticator packet_ctx), packet_ctx))"

datatype decrypted = Ignored | Raw | Overrun | Value bytes

text \<open>
  The part of \<open>fr_radius_decode_pair_value\<close> that removes the tag and the encryption of an attribute of type
  string.  \<open>junk\<close> is the content of the stack buffer before; a vector of \<open>None\<close> is a context without a
  request authenticator.
\<close>

definition strip_tag :: "bool \<Rightarrow> bytes \<Rightarrow> bytes option" where
  "strip_tag has_tag data =
     (if has_tag \<and> data ! 0 < 0x20 then (if length data \<ge> 256 then None else Some (tl data)) else Some data)"

definition decrypt_value ::
  "fr_radius_attr_flags_encrypt_t \<Rightarrow> bool \<Rightarrow> nat \<Rightarrow> bool \<Rightarrow> bytes \<Rightarrow> bytes \<Rightarrow> bytes \<Rightarrow> bytes option \<Rightarrow> decrypted" where
  "decrypt_value encrypt has_tag flags_length tunnel_password_zeros junk data secret vector =
     (let attr_len = length data in
      if attr_len = 0 then Ignored
      else case strip_tag has_tag data of None \<Rightarrow> Raw | Some p \<Rightarrow>
        if attr_len > 253 then Raw
        else
          let data_len = length p; buffer = put_at junk 0 p
          in case vector of None \<Rightarrow> Raw | Some vector \<Rightarrow>
            (case encrypt of
               RADIUS_FLAG_ENCRYPT_USER_PASSWORD \<Rightarrow>
                 (case decode_user_password buffer attr_len data_len flags_length secret vector of
                    None \<Rightarrow> Overrun | Some v \<Rightarrow> Value v)
             | RADIUS_FLAG_ENCRYPT_TUNNEL_PASSWORD \<Rightarrow>
                 (case fr_radius_decode_tunnel_password tunnel_password_zeros buffer data_len secret vector of
                    (ret, buf, n) \<Rightarrow> if ret < 0 then Raw else Value (take n buf))
             | RADIUS_FLAG_ENCRYPT_ASCEND_SECRET \<Rightarrow> Value (decode_ascend_secret buffer data_len secret vector)))"

subsection \<open>The loops compute the chain\<close>

lemma length_rand_fill [simp]: "length (fst (rand_fill k r)) = k"
  by (induction k arbitrary: r) (simp_all add: Let_def)

lemma md5_secret_final3:
  assumes "length s + length v + length b < 2 ^ 29"
  shows "fst (fr_md5_local_final (fr_md5_local_update (fr_md5_local_update (absorbed_secret s) v) b)) = md5_spec (s @ v @ b)"
  using md5.final_update3 [OF assms] by (simp add: md5_final_out_def)

lemma encode_tunnel_stop: "len \<le> n \<Longrightarrow> encode_tunnel_loop old ctx buf n len = buf"
  by (simp add: encode_tunnel_loop.simps)

lemma encode_tunnel_loop_hides:
  assumes "length s + 16 < 2 ^ 29" "buf = pre @ xs @ post" "length pre = 2 + n" "length xs = len - n"
    "if n = 0 then fst (fr_md5_local_final ctx) = md5_spec (s @ key) else n \<ge> 16 \<and> key = get_at buf (2 + n - 16) 16"
  shows "encode_tunnel_loop (absorbed_secret s) ctx buf n len = pre @ hide s key xs @ post"
  using assms(2-)
proof (induction "len - n" arbitrary: buf pre xs n key ctx rule: less_induct)
  case less
  show ?case
  proof (cases "n < len")
    case True
    let ?d = "md5_spec (s @ key)"
    let ?c = "map2 (XOR) (take 16 xs) ?d"
    let ?bl = "if len - n > 16 then 16 else len - n"
    let ?r = "fr_md5_local_final (if n > 0 then fr_md5_local_update (fr_md5_local_ctx_copy ctx (absorbed_secret s)) (get_at buf (2 + n - 16) 16) else ctx)"
    have key: "n > 0 \<Longrightarrow> length key \<le> 16" using less.prems by (auto simp: get_at_def)
    have dig: "fst ?r = ?d"
      using less.prems(4) md5_secret_final [of s key] key assms(1) by (auto simp: fr_md5_local_ctx_copy_def split: if_splits)
    have buf': "xor_loop buf (2 + n) ?d ?bl = (pre @ ?c) @ drop 16 xs @ post"
      using less.prems(1-3) True by (subst xor_loop_put) (auto simp: length_md5_spec put_at_def get_at_def)
    have st: "encode_tunnel_loop (absorbed_secret s) ctx buf n len =
        encode_tunnel_loop (absorbed_secret s) (snd ?r) ((pre @ ?c) @ drop 16 xs @ post) (n + 16) len"
      using True unfolding encode_tunnel_loop.simps [of _ ctx buf n] Let_def dig buf' by simp
    show ?thesis
    proof (cases "16 \<le> len - n")
      case full: True
      have "encode_tunnel_loop (absorbed_secret s) (snd ?r) ((pre @ ?c) @ drop 16 xs @ post) (n + 16) len =
          (pre @ ?c) @ hide s ?c (drop 16 xs) @ post"
        by (rule less.hyps) (use True full less.prems in \<open>auto simp: length_md5_spec get_at_def\<close>)
      then show ?thesis unfolding st
        using True less.prems(3) by (subst hide_step [of xs pre post buf]) (auto simp: less.prems(1))
    next
      case part: False
      then have "drop 16 xs = []" using less.prems(3) by simp
      then show ?thesis unfolding st using True part less.prems(3)
        by (subst hide_step [of xs pre post buf]) (auto simp: encode_tunnel_stop less.prems(1))
    qed
  next
    case False
    with less.prems show ?thesis by (simp add: encode_tunnel_stop)
  qed
qed

lemma shift_loop_xor:
  assumes "length pre + 1 = n + base" "length g = 3" "base + length blk \<le> length d"
  shows "shift_loop (pre @ g @ blk @ post) n d base (base + length blk) =
    pre @ map2 (XOR) blk (drop base d) @ drop (length blk) (g @ blk) @ post"
  using assms
proof (induction blk arbitrary: base pre g)
  case Nil
  then show ?case by (simp add: shift_loop_def)
next
  case (Cons x blk)
  obtain g0 g1 g2 where g: "g = [g0, g1, g2]" using Cons.prems(2) by (auto simp: numeral_3_eq_3 length_Suc_conv)
  have up: "[base..<base + length (x # blk)] = base # [Suc base..<Suc base + length blk]" by (simp add: upt_rec)
  have idx: "n + base - 1 = length pre" "n + base + 2 = length pre + 3" using Cons.prems(1) by simp_all
  have "shift_loop (pre @ g @ (x # blk) @ post) n d base (base + length (x # blk)) =
      shift_loop ((pre @ [x XOR d ! base]) @ [g1, g2, x] @ blk @ post) n d (Suc base) (Suc base + length blk)"
    unfolding shift_loop_def up foldl_Cons idx by (simp add: g nth_append list_update_append)
  also have "\<dots> = (pre @ [x XOR d ! base]) @ map2 (XOR) blk (drop (Suc base) d) @ drop (length blk) ([g1, g2, x] @ blk) @ post"
    by (rule Cons.IH) (use Cons.prems in auto)
  also have "\<dots> = pre @ map2 (XOR) (x # blk) (drop base d) @ drop (length (x # blk)) (g @ x # blk) @ post"
    using Cons.prems(3) Cons_nth_drop_Suc [of base d] by (simp add: g flip: Cons_nth_drop_Suc)
  finally show ?case .
qed

lemma drop_append_take:
  assumes "a \<le> length g + length (take k xs)"
  shows "drop a (g @ take k xs) @ drop k xs = drop a (g @ xs)"
proof -
  have "g @ xs = (g @ take k xs) @ drop k xs" by simp
  then have "drop a (g @ xs) = drop a ((g @ take k xs) @ drop k xs)" by (rule arg_cong)
  also have "\<dots> = drop a (g @ take k xs) @ drop k xs" using assms by (subst drop_append) simp
  finally show ?thesis by (rule sym)
qed

lemma decode_tunnel_stop: "pwlen - 2 \<le> n \<Longrightarrow> decode_tunnel_loop old ctx buf n pwlen = buf"
  by (simp add: decode_tunnel_loop.simps)

lemma decode_tunnel_loop_unhides:
  assumes "length s + 16 < 2 ^ 29" "buf = pre @ g @ xs @ post" "length pre + 1 = n" "length g = 3"
    "length xs = pwlen - 2 - n" "ctx = fr_md5_local_update (absorbed_secret s) key" "length key \<le> 16"
  shows "decode_tunnel_loop (absorbed_secret s) ctx buf n pwlen =
    pre @ unhide s key xs @ drop (length xs) (g @ xs) @ post"
  using assms(2-)
proof (induction "pwlen - n" arbitrary: buf pre g xs n key ctx rule: less_induct)
  case less
  show ?case
  proof (cases "n < pwlen - 2")
    case True
    let ?d = "md5_spec (s @ key)"
    let ?blk = "take 16 xs"
    let ?p = "map2 (XOR) ?blk ?d"
    let ?bl = "if n + 2 + 16 > pwlen then pwlen - n - 2 else 16"
    let ?g = "drop (length ?blk) (g @ ?blk)"
    let ?ctx = "fr_md5_local_update (fr_md5_local_ctx_copy (snd (fr_md5_local_final ctx)) (absorbed_secret s)) ?blk"
    have dig: "fst (fr_md5_local_final ctx) = ?d"
      using less.prems(5,6) md5_secret_final [of s key] assms(1) by simp
    have bl: "?bl = 0 + length ?blk" using less.prems(4) True by auto
    have get: "get_at buf (n + 2) ?bl = ?blk"
      using less.prems(1-3) unfolding bl by (simp add: get_at_def min_def flip: less.prems(2))
    have "buf = pre @ g @ ?blk @ drop 16 xs @ post" using less.prems(1) by (simp flip: append_assoc)
    then have shift: "shift_loop buf n ?d 0 ?bl = (pre @ ?p) @ ?g @ drop 16 xs @ post"
      unfolding bl using shift_loop_xor [of pre n 0 g ?blk ?d "drop 16 xs @ post"] less.prems(2,3)
      by (simp add: length_md5_spec)
    have st: "decode_tunnel_loop (absorbed_secret s) ctx buf n pwlen =
        decode_tunnel_loop (absorbed_secret s) ?ctx ((pre @ ?p) @ ?g @ drop 16 xs @ post) (n + 16) pwlen"
      using True unfolding decode_tunnel_loop.simps [of _ ctx buf n] Let_def dig get shift by simp
    have un: "unhide s key xs = ?p @ unhide s ?blk (drop 16 xs)"
      using True less.prems(4) by (subst unhide.simps) auto
    show ?thesis
    proof (cases "16 \<le> length xs")
      case full: True
      have h: "decode_tunnel_loop (absorbed_secret s) ?ctx ((pre @ ?p) @ ?g @ drop 16 xs @ post) (n + 16) pwlen =
          (pre @ ?p) @ unhide s ?blk (drop 16 xs) @ drop (length (drop 16 xs)) (?g @ drop 16 xs) @ post"
        by (rule less.hyps) (use True full less.prems in \<open>auto simp: length_md5_spec fr_md5_local_ctx_copy_def\<close>)
      have gd: "?g @ drop 16 xs = drop 16 (g @ xs)"
        using drop_append_take [of 16 g 16 xs] full by (simp add: min_def)
      show ?thesis unfolding st un h gd using full by (simp del: drop_append)
    next
      case False
      then show ?thesis unfolding st un using less.prems(4) by (simp add: decode_tunnel_stop)
    qed
  next
    case False
    with less.prems show ?thesis by (simp add: decode_tunnel_stop)
  qed
qed

text \<open>What the value hides, and what the buffer holds after the loops: the last three bytes are not written.\<close>

definition tunnel_plain :: "bytes \<Rightarrow> bytes \<Rightarrow> bytes \<Rightarrow> bytes" where
  "tunnel_plain s vector data = unhide s (take 16 vector @ take 2 data) (drop 2 data)"

lemma length_tunnel_plain [simp]: "length (tunnel_plain s v data) = length data - 2"
  by (simp add: tunnel_plain_def)

definition tunnel_buffer :: "bytes \<Rightarrow> bytes \<Rightarrow> bytes \<Rightarrow> bytes \<Rightarrow> bytes" where
  "tunnel_buffer s vector data rest = tl (tunnel_plain s vector data) @ drop (length data - 3) data @ rest"

lemma tunnel_loops:
  assumes "length s + 18 < 2 ^ 29" "length vector = 16" "data = salt @ x # c" "length salt = 2"
    "d = md5_spec (s @ take 16 vector @ salt)"
    "ctx = fr_md5_local_update (absorbed_secret s) (take 16 (x # c))"
    "bl = (if 2 + 16 > length data then length data - 2 else 16)"
  shows "decode_tunnel_loop (absorbed_secret s) ctx (shift_loop (data @ rest) 0 d 1 bl) 16 (length data) =
    tunnel_buffer s vector data rest"
    and "hd (tunnel_plain s vector data) = x XOR d ! 0"
proof -
  let ?blk = "take 15 c"
  have lend: "length d = 16" by (simp add: assms(5) length_md5_spec)
  then obtain d0 d' where d: "d = d0 # d'" by (cases d) auto
  have bl: "bl = 1 + length ?blk" using assms(3,4) unfolding assms(7) by auto
  have pl: "tunnel_plain s vector data = (x XOR d0) # map2 (XOR) ?blk d' @ unhide s (x # ?blk) (drop 15 c)"
    unfolding tunnel_plain_def using assms(3,4)
    by (subst unhide.simps) (simp add: assms(5) [symmetric] d)
  then show "hd (tunnel_plain s vector data) = x XOR d ! 0" by (simp add: d)
  have dr: "data @ rest = [] @ (salt @ [x]) @ ?blk @ drop 15 c @ rest" using assms(3) by (simp flip: append_assoc)
  have shift: "shift_loop (data @ rest) 0 d 1 bl =
      map2 (XOR) ?blk d' @ drop (length ?blk) (salt @ x # ?blk) @ drop 15 c @ rest"
    unfolding bl dr using shift_loop_xor [of "[]" 0 1 "salt @ [x]" ?blk d "drop 15 c @ rest"] assms(4) lend
    by (simp add: d)
  show "decode_tunnel_loop (absorbed_secret s) ctx (shift_loop (data @ rest) 0 d 1 bl) 16 (length data) =
    tunnel_buffer s vector data rest"
  proof (cases "15 \<le> length c")
    case True
    have g: "drop (length ?blk) (salt @ x # ?blk) @ drop 15 c = drop 15 (salt @ x # c)"
      using drop_append_take [of 15 "salt @ [x]" 15 c] True by (simp add: min_def)
    have h: "decode_tunnel_loop (absorbed_secret s) ctx (shift_loop (data @ rest) 0 d 1 bl) 16 (length data) =
        map2 (XOR) ?blk d' @ unhide s (take 16 (x # c)) (drop 15 c) @
          drop (length (drop 15 c)) (drop (length ?blk) (salt @ x # ?blk) @ drop 15 c) @ rest"
      unfolding shift by (rule decode_tunnel_loop_unhides)
        (use True assms(1,3,4,6) lend in \<open>auto simp: d\<close>)
    show ?thesis unfolding h g tunnel_buffer_def pl using True assms(3,4) by (simp del: drop_append)
  next
    case False
    then show ?thesis unfolding shift tunnel_buffer_def pl using assms(3,4) by (simp add: decode_tunnel_stop)
  qed
qed

lemma decode_tunnel_spec:
  assumes "length s + 18 < 2 ^ 29" "length vector = 16" "3 < length data"
  shows "fr_radius_decode_tunnel_password zeros (data @ rest) (length data) s vector =
    (let n = unat (hd (tunnel_plain s vector data)); out = tunnel_buffer s vector data rest in
     if n > length data - 2 then (-1, data @ rest, length data)
     else if zeros \<and> (\<exists>i \<in> set [n..<length data - 3]. out ! i \<noteq> 0) then (-1, out, length data)
     else (int n, out[n := 0], n))"
proof -
  obtain s0 s1 x c where data: "data = [s0, s1] @ x # c"
    using assms(3) by (cases data; cases "tl data"; cases "tl (tl data)") auto
  let ?d = "md5_spec (s @ take 16 vector @ [s0, s1])"
  let ?ctx = "fr_md5_local_update (fr_md5_local_update (absorbed_secret s) (take 16 vector)) [s0, s1]"
  let ?bl = "if 2 + 16 > length data then length data - 2 else 16"
  have dig: "fst (fr_md5_local_final ?ctx) = ?d"
    by (rule md5_secret_final3) (use assms in simp)
  have g: "get_at (data @ rest) 0 2 = [s0, s1]" "get_at (data @ rest) 2 ?bl = take 16 (x # c)" "(data @ rest) ! 2 = x"
    by (simp_all add: data get_at_def numeral_2_eq_2)
  have l: "decode_tunnel_loop (absorbed_secret s) (fr_md5_local_update (absorbed_secret s) (take 16 (x # c)))
      (shift_loop (data @ rest) 0 ?d 1 ?bl) 16 (length data) = tunnel_buffer s vector data rest"
    by (rule tunnel_loops(1) [OF assms(1,2) data]) simp_all
  have h: "x XOR ?d ! 0 = hd (tunnel_plain s vector data)"
    by (rule tunnel_loops(2) [OF assms(1,2) data, symmetric]) simp_all
  show ?thesis
    unfolding fr_radius_decode_tunnel_password_def Let_def g dig fr_md5_local_ctx_copy_def l h
    using assms(3) by simp
qed

subsection \<open>Encoding\<close>

text \<open>The clear text of a tunnel password: its length, the password and the padding.\<close>

definition tunnel_encrypted_len :: "nat \<Rightarrow> nat" where
  "tunnel_encrypted_len n = min ((n + 16) div 16 * 16) 251"

lemma tunnel_encrypted_len: "n \<le> 250 \<Longrightarrow> Suc n \<le> tunnel_encrypted_len n" "tunnel_encrypted_len n \<le> 251"
  unfolding tunnel_encrypted_len_def by (presburger, simp)

lemma take_room:
  fixes h :: "'a list"
  assumes "length h = L" "L \<le> 253"
  shows "take (L - (L - min room 253)) (h @ t) = take room h"
  using assms by (cases "room \<le> L") (auto simp: min_def)

text \<open>The first byte of the salt: the high bit is set, and the next three bits count the values.\<close>

definition salt_byte :: "u32 \<Rightarrow> u32 \<Rightarrow> byte" where
  "salt_byte off r = ucast (0x80 OR push_bit 4 (off AND 0x07) OR (drop_bit 8 r AND 0x0f))"

lemma salt_byte_bits:
  "bit (salt_byte off r) 7" "take_bit 3 (drop_bit 4 (salt_byte off r)) = ucast (off AND 7)"
proof -
  show "bit (salt_byte off r) 7" by (simp add: salt_byte_def bit_simps)
  show "take_bit 3 (drop_bit 4 (salt_byte off r)) = ucast (off AND 7)"
    unfolding byte_eq_bits by (simp add: salt_byte_def bit_simps)
qed

lemma encode_tunnel_hides:
  assumes "length s + 18 < 2 ^ 29" "length vector = 16" "length pw \<le> 250"
    "s = common_secret ctx" "vector = request_authenticator ctx" "E = tunnel_encrypted_len (length pw)"
  shows "if min room 253 < length pw + 3 then encode_tunnel_password room pw ctx = (Inl (- (int (length pw) + 3)), ctx)
    else \<exists>s0 s1 pad r rnd. length pad = E - Suc (length pw) \<and> s0 = salt_byte (salt_offset ctx) rnd \<and>
      encode_tunnel_password room pw ctx =
        (Inr (take room (s0 # s1 # hide s (vector @ [s0, s1]) (of_nat (length pw) # pw @ pad))),
         ctx\<lparr>salt_offset := salt_offset ctx + 1, rand_ctx := r\<rparr>)"
proof -
  let ?n = "length pw"
  define fill where "fill = rand_fill (253 - (3 + ?n)) (rand_ctx ctx)"
  define r where "r = fr_fast_rand (snd fill)"
  define s0 where "s0 = salt_byte (salt_offset ctx) (fst r)"
  define s1 where "s1 = (ucast (fst r AND 0xff) :: byte)"
  define pad where "pad = take (E - Suc ?n) (fst fill)"
  define h where "h = s0 # s1 # hide s (vector @ [s0, s1]) (of_nat ?n # pw @ pad)"
  let ?E = "if (?n + 1 + 15) div 16 * 16 > 253 - 2 then 253 - 2 else (?n + 1 + 15) div 16 * 16"
  let ?t = "drop (E - Suc ?n) (fst fill)"
  have E: "Suc ?n \<le> E" "E \<le> 251" "?E = E"
    using tunnel_encrypted_len [of ?n] assms(3,6) by (simp_all, simp add: tunnel_encrypted_len_def min_def add.commute)
  have lpad: "length pad = E - Suc ?n" using E by (simp add: pad_def fill_def)
  then have lh: "length h = E + 2" using E by (simp add: h_def)
  have split: "[s0, s1, of_nat ?n] @ pw @ fst fill = [s0, s1] @ (of_nat ?n # pw @ pad) @ ?t"
    by (simp add: pad_def)
  have loop: "encode_tunnel_loop (absorbed_secret s)
      (fr_md5_local_update (fr_md5_local_update (absorbed_secret s) (take 16 vector)) (take 2 ([s0, s1, of_nat ?n] @ pw @ fst fill)))
      ([s0, s1, of_nat ?n] @ pw @ fst fill) 0 E = h @ ?t"
  proof -
    have "encode_tunnel_loop (absorbed_secret s)
      (fr_md5_local_update (fr_md5_local_update (absorbed_secret s) (take 16 vector)) [s0, s1])
      ([s0, s1, of_nat ?n] @ pw @ fst fill) 0 E =
      [s0, s1] @ hide s (vector @ [s0, s1]) (of_nat ?n # pw @ pad) @ ?t"
      by (rule encode_tunnel_loop_hides [OF _ split])
        (use assms(1,2) E lpad md5_secret_final3 [of s vector "[s0, s1]"] in auto)
    then show ?thesis by (simp add: h_def numeral_2_eq_2)
  qed
  have tk: "take (E + 2 - (E + 2 - min room 253)) (h @ ?t) = take room h"
    by (rule take_room [OF lh]) (use E in simp)
  have long: "\<not> ?n > 253 - 3" using assms(3) by simp
  have iff: "E + 2 - min room 253 > E - (?n + 1) \<longleftrightarrow> min room 253 < ?n + 3" using E by linarith
  have "encode_tunnel_password room pw ctx =
      (if min room 253 < ?n + 3 then (Inl (- (int ?n + 3)), ctx)
       else (Inr (take room h), ctx\<lparr>salt_offset := salt_offset ctx + 1, rand_ctx := snd r\<rparr>))"
    unfolding encode_tunnel_password_def Let_def if_not_P [OF long] E(3) iff
      fill_def [symmetric] r_def [symmetric] salt_byte_def [symmetric] s0_def [symmetric] s1_def [symmetric]
      assms(4,5) [symmetric] loop tk by (rule refl)
  then show ?thesis using lpad s0_def unfolding h_def by auto
qed

subsection \<open>Round trips\<close>

lemma tunnel_plain_encoded:
  assumes "data = take k (s0 # s1 # hide s (vector @ [s0, s1]) xs)" "2 \<le> k" "length vector = 16"
  shows "tunnel_plain s vector data = take (k - 2) xs"
proof -
  have "data = s0 # s1 # take (k - 2) (hide s (vector @ [s0, s1]) xs)"
    using assms(1,2) by (auto simp: take_Cons' numeral_2_eq_2)
  then show ?thesis using assms(3) by (simp add: tunnel_plain_def unhide_take unhide_hide numeral_2_eq_2)
qed

text \<open>A tunnel password comes back for every room that the encoder accepts, padding dropped or not.\<close>

lemma tunnel_password_roundtrip:
  assumes "fst (encode_tunnel_password room pw ctx) = Inr data" "length (common_secret ctx) + 18 < 2 ^ 29"
    "length (request_authenticator ctx) = 16" "pw \<noteq> []"
  shows "\<exists>buf. fr_radius_decode_tunnel_password False (data @ rest) (length data) (common_secret ctx) (request_authenticator ctx) =
      (int (length pw), buf, length pw) \<and> take (length pw) buf = pw"
    and "length data \<le> room" "length data \<le> 253" "3 < length data"
proof -
  let ?n = "length pw" and ?s = "common_secret ctx" and ?v = "request_authenticator ctx"
  have short: "?n \<le> 250" using assms(1) by (cases "?n > 250") (auto simp: encode_tunnel_password_def Let_def)
  note E = tunnel_encrypted_len [of ?n]
  note enc = encode_tunnel_hides [OF assms(2,3) short refl refl refl, of room]
  then have room: "?n + 3 \<le> room" using assms(1) by (cases "min room 253 < ?n + 3") auto
  with short have "\<not> min room 253 < ?n + 3" by simp
  with enc assms(1) obtain s0 s1 pad where pad: "length pad = tunnel_encrypted_len ?n - Suc ?n"
    and data: "data = take room (s0 # s1 # hide ?s (?v @ [s0, s1]) (of_nat ?n # pw @ pad))" by auto
  have len: "length data = min room (tunnel_encrypted_len ?n + 2)" using pad E short by (simp add: data)
  then show "length data \<le> room" "length data \<le> 253" using E by auto
  show l3: "3 < length data" using len E(1) short room assms(4) by (cases pw) auto
  have pl: "tunnel_plain ?s ?v data = of_nat ?n # pw @ take (room - 3 - ?n) pad"
    using tunnel_plain_encoded [OF data _ assms(3)] room by (simp add: take_Cons' numeral_3_eq_3)
  have n: "unat (of_nat ?n :: byte) = ?n" using short by (simp add: unat_of_nat)
  have "?n \<le> length data - 2" using len E(1) short room by simp
  then show "\<exists>buf. fr_radius_decode_tunnel_password False (data @ rest) (length data) ?s ?v =
      (int ?n, buf, ?n) \<and> take ?n buf = pw"
    unfolding decode_tunnel_spec [OF assms(2,3) l3] pl Let_def list.sel n
    by (simp add: tunnel_buffer_def pl)
qed

text \<open>The values that each style can carry: the padding of the first and the third cannot be told from zero bytes of the value.\<close>

fun recoverable :: "fr_radius_attr_flags_encrypt_t \<Rightarrow> bool \<Rightarrow> bytes \<Rightarrow> bool" where
  "recoverable RADIUS_FLAG_ENCRYPT_USER_PASSWORD has_tag pw \<longleftrightarrow> \<not> has_tag \<and> length pw \<le> 240 \<and> pw \<noteq> [] \<and> last pw \<noteq> 0"
| "recoverable RADIUS_FLAG_ENCRYPT_TUNNEL_PASSWORD has_tag pw \<longleftrightarrow> True"
| "recoverable RADIUS_FLAG_ENCRYPT_ASCEND_SECRET has_tag pw \<longleftrightarrow> \<not> has_tag \<and> length pw \<le> 16 \<and> 0 \<notin> set pw"

lemma put_at_0: "put_at junk 0 p = p @ drop (length p) junk"
  by (simp add: put_at_def)

lemma decrypt_tunnel:
  assumes "fst (encode_tunnel_password room pw ctx) = Inr d" "length (common_secret ctx) + 18 < 2 ^ 29"
    "length (request_authenticator ctx) = 16" "pw \<noteq> []" "data = (if has_tag then 0 # d else d)" "length data \<le> 253"
  shows "decrypt_value RADIUS_FLAG_ENCRYPT_TUNNEL_PASSWORD has_tag n False junk data
    (common_secret ctx) (Some (request_authenticator ctx)) = Value pw"
proof -
  note rt = tunnel_password_roundtrip [OF assms(1-4)]
  obtain buf where "fr_radius_decode_tunnel_password False (d @ drop (length d) junk) (length d) (common_secret ctx)
      (request_authenticator ctx) = (int (length pw), buf, length pw)" "take (length pw) buf = pw"
    using rt(1) by blast
  then show ?thesis
    using assms(5,6) rt(4) by (cases has_tag) (auto simp: decrypt_value_def strip_tag_def Let_def put_at_0)
qed

subsection \<open>The salts of a packet\<close>

text \<open>The tunnel passwords of one packet, encoded one after the other with the packet's context.\<close>

fun encode_tunnel_all :: "nat \<Rightarrow> bytes list \<Rightarrow> fr_radius_encode_ctx_t \<Rightarrow> (int + bytes) list" where
  "encode_tunnel_all room [] ctx = []"
| "encode_tunnel_all room (pw # pws) ctx =
     (let r = encode_tunnel_password room pw ctx in fst r # encode_tunnel_all room pws (snd r))"

lemma length_encode_tunnel_all [simp]: "length (encode_tunnel_all room pws ctx) = length pws"
  by (induction pws arbitrary: ctx) (simp_all add: Let_def)

definition encoded_before :: "(int + bytes) list \<Rightarrow> nat \<Rightarrow> nat" where
  "encoded_before rs i = length (filter (\<lambda>r. \<not> isl r) (take i rs))"

lemma encode_tunnel_step:
  assumes "length (common_secret ctx) + 18 < 2 ^ 29" "length (request_authenticator ctx) = 16"
    "encode_tunnel_password room pw ctx = (res, ctx')"
  shows "common_secret ctx' = common_secret ctx \<and> request_authenticator ctx' = request_authenticator ctx \<and>
    (case res of Inl e \<Rightarrow> salt_offset ctx' = salt_offset ctx
     | Inr d \<Rightarrow> salt_offset ctx' = salt_offset ctx + 1 \<and> (\<exists>rnd. d ! 0 = salt_byte (salt_offset ctx) rnd))"
proof (cases "length pw \<le> 250 \<and> length pw + 3 \<le> min room 253")
  case True
  then have fits: "length pw \<le> 250" "\<not> min room 253 < length pw + 3" by auto
  obtain s0 t r rnd where e: "s0 = salt_byte (salt_offset ctx) rnd" "encode_tunnel_password room pw ctx =
      (Inr (take room (s0 # t)), ctx\<lparr>salt_offset := salt_offset ctx + 1, rand_ctx := r\<rparr>)"
    using encode_tunnel_hides [OF assms(1,2) fits(1) refl refl refl, of room] fits(2) by auto
  have "take room (s0 # t) ! 0 = s0" using True by (cases room) auto
  with e assms(3) show ?thesis by auto
next
  case False
  then have "length pw > 250 \<or> length pw \<le> 250 \<and> min room 253 < length pw + 3" by linarith
  then have "encode_tunnel_password room pw ctx = (Inl (- (int (length pw) + 3)), ctx)"
  proof
    assume "length pw > 250"
    then show ?thesis by (simp add: encode_tunnel_password_def)
  next
    assume "length pw \<le> 250 \<and> min room 253 < length pw + 3"
    then show ?thesis using encode_tunnel_hides [OF assms(1,2) _ refl refl refl, of pw room] by simp
  qed
  with assms(3) show ?thesis by auto
qed

lemma encode_tunnel_all_salt:
  assumes "length (common_secret ctx) + 18 < 2 ^ 29" "length (request_authenticator ctx) = 16"
    "i < length pws" "encode_tunnel_all room pws ctx ! i = Inr d"
  shows "\<exists>rnd. d ! 0 = salt_byte (salt_offset ctx + of_nat (encoded_before (encode_tunnel_all room pws ctx) i)) rnd"
  using assms
proof (induction pws arbitrary: ctx i)
  case (Cons pw pws)
  obtain res ctx' where r: "encode_tunnel_password room pw ctx = (res, ctx')" by (cases "encode_tunnel_password room pw ctx")
  note st = encode_tunnel_step [OF Cons.prems(1,2) r]
  show ?case
  proof (cases i)
    case 0
    with Cons.prems(4) st show ?thesis by (auto simp: r encoded_before_def)
  next
    case (Suc k)
    with Cons.IH [of ctx' k] Cons.prems st show ?thesis
      by (auto simp: r encoded_before_def add.assoc split: sum.splits)
  qed
qed simp

lemma encoded_before_less:
  assumes "i < j" "j \<le> length rs" "rs ! i = Inr d"
  shows "encoded_before rs i < encoded_before rs j" "encoded_before rs j \<le> encoded_before rs i + (j - i)"
proof -
  have "take j rs = take i rs @ take (j - i) (drop i rs)"
    using take_add [of i "j - i" rs] assms(1) by simp
  also have "drop i rs = rs ! i # drop (Suc i) rs" using Cons_nth_drop_Suc [of i rs] assms(1,2) by simp
  also have "take (j - i) (rs ! i # drop (Suc i) rs) = rs ! i # take (j - Suc i) (drop (Suc i) rs)"
    using assms(1) by (simp add: take_Cons')
  finally have "take j rs = take i rs @ rs ! i # take (j - Suc i) (drop (Suc i) rs)" .
  then have eq: "encoded_before rs j = encoded_before rs i + Suc (length (filter (\<lambda>r. \<not> isl r) (take (j - Suc i) (drop (Suc i) rs))))"
    using assms(3) by (simp add: encoded_before_def)
  then show "encoded_before rs i < encoded_before rs j" by simp
  have "length (filter (\<lambda>r. \<not> isl r) (take (j - Suc i) (drop (Suc i) rs))) \<le> j - Suc i"
    by (rule order_trans [OF length_filter_le]) simp
  with eq assms(1) show "encoded_before rs j \<le> encoded_before rs i + (j - i)" by simp
qed

lemma salt_byte_neq:
  assumes "a < b" "b < a + 8"
  shows "salt_byte (off + of_nat a) r \<noteq> salt_byte (off + of_nat b) r'"
proof
  assume "salt_byte (off + of_nat a) r = salt_byte (off + of_nat b) r'"
  then have "(ucast ((off + of_nat a) AND 7) :: byte) = ucast ((off + of_nat b) AND 7)"
    using salt_byte_bits(2) by metis
  then have "unat (ucast (take_bit 3 (off + of_nat a)) :: byte) = unat (ucast (take_bit 3 (off + of_nat b)) :: byte)"
    by (simp add: take_bit_eq_mask mask_eq_exp_minus_1)
  moreover have "unat (ucast (take_bit 3 w) :: byte) = unat w mod 8" for w :: u32
    using take_bit_eq_mod [of 3 "unat w"] by (simp add: unsigned_ucast_eq unsigned_take_bit_eq)
  ultimately have "unat (off + of_nat a) mod 8 = unat (off + of_nat b) mod 8" by simp
  then have "(unat off + a) mod 8 = (unat off + b) mod 8"
    by (simp add: unat_word_ariths unat_of_nat mod_mod_cancel mod_simps)
  then have "8 dvd (unat off + b) - (unat off + a)" using assms(1) mod_eq_dvd_iff_nat [of "unat off + a" "unat off + b" 8] by simp
  then have "(b - a) mod 8 = 0" by simp
  with assms show False by simp
qed

subsection \<open>Properties\<close>

text \<open>
  C9: What a RADIUS encoder hides, a decoder with the same secret and authenticator recovers, in each of the
  three styles, whatever the stack buffer of the decoder held: a User-Password of at most 240 bytes that does not
  end in a zero, a Tunnel-Password of any content with or without tag and for every room the encoder accepts, and
  an Ascend secret of at most 16 bytes without zeros.
\<close>

theorem hidden_value_roundtrip:
  assumes "fst (encrypt_value encrypt has_tag room pw ctx) = Inr data" "data \<noteq> []" "room \<le> 253"
    "recoverable encrypt has_tag pw" "length (common_secret ctx) + 18 < 2 ^ 29"
    "length (request_authenticator ctx) = 16" "length junk = 256"
  shows "decrypt_value encrypt has_tag 0 False junk data (common_secret ctx) (Some (request_authenticator ctx)) = Value pw"
proof -
  have pw: "pw \<noteq> []" using assms(1,2) by (auto simp: encrypt_value_def)
  have sl: "length (common_secret ctx) + 16 < 2 ^ 29" using assms(5) by simp
  show ?thesis
  proof (cases encrypt)
    case RADIUS_FLAG_ENCRYPT_USER_PASSWORD
    then have "encode_password room pw (common_secret ctx) (request_authenticator ctx) = Inr data"
      using assms(1) pw by (simp add: encrypt_value_def)
    note rt = user_password_roundtrip [OF this pw _ _ assms(6) sl assms(7)]
    show ?thesis
      using rt assms(4) RADIUS_FLAG_ENCRYPT_USER_PASSWORD by (auto simp: decrypt_value_def strip_tag_def Let_def put_at_0)
  next
    case RADIUS_FLAG_ENCRYPT_TUNNEL_PASSWORD
    let ?room = "if has_tag then room - 1 else room"
    obtain d where d: "fst (encode_tunnel_password ?room pw ctx) = Inr d" "data = (if has_tag then 0 # d else d)"
      using assms(1,2) pw RADIUS_FLAG_ENCRYPT_TUNNEL_PASSWORD
      by (auto simp: encrypt_value_def Let_def split: sum.splits if_splits)
    note rt = tunnel_password_roundtrip [OF d(1) assms(5,6) pw]
    have "length data \<le> 253" using d(2) rt(2-4) assms(3) by (auto split: if_splits)
    then show ?thesis
      unfolding RADIUS_FLAG_ENCRYPT_TUNNEL_PASSWORD by (rule decrypt_tunnel [OF d(1) assms(5,6) pw d(2)])
  next
    case RADIUS_FLAG_ENCRYPT_ASCEND_SECRET
    then have "fr_radius_ascend_secret room pw (common_secret ctx) (request_authenticator ctx) = Inr data"
      using assms(1) pw by (simp add: encrypt_value_def)
    note rt = ascend_secret_roundtrip [OF this _ _ assms(6) sl assms(7)]
    show ?thesis
      using rt assms(4) RADIUS_FLAG_ENCRYPT_ASCEND_SECRET by (auto simp: decrypt_value_def strip_tag_def Let_def put_at_0)
  qed
qed

definition example_ctx :: fr_radius_encode_ctx_t where
  "example_ctx = \<lparr>common_secret = [0x73, 0x33], request_authenticator = replicate 16 7, salt_offset = 3,
     rand_ctx = \<lparr>ra = 17, rb = 99\<rparr>, disallow_tunnel_passwords = False\<rparr>"

theorem hidden_value_roundtrip_witness:
  "\<exists>data. fst (encrypt_value RADIUS_FLAG_ENCRYPT_TUNNEL_PASSWORD True 253 [0x61, 0, 0x62, 0] example_ctx) = Inr data \<and>
    decrypt_value RADIUS_FLAG_ENCRYPT_TUNNEL_PASSWORD True 0 False (replicate 256 0xff) data
      (common_secret example_ctx) (Some (request_authenticator example_ctx)) = Value [0x61, 0, 0x62, 0]"
proof -
  have "\<exists>d. fst (encode_tunnel_password 252 [0x61, 0, 0x62, 0] example_ctx) = Inr d"
    using encode_tunnel_hides [of "common_secret example_ctx" "request_authenticator example_ctx" "[0x61, 0, 0x62, 0]" example_ctx _ 252]
    by (auto simp: example_ctx_def)
  then obtain d where "fst (encrypt_value RADIUS_FLAG_ENCRYPT_TUNNEL_PASSWORD True 253 [0x61, 0, 0x62, 0] example_ctx) = Inr (0 # d)"
    by (auto simp: encrypt_value_def Let_def example_ctx_def)
  with hidden_value_roundtrip [OF this, of "replicate 256 0xff"] show ?thesis
    by (auto simp: example_ctx_def)
qed

text \<open>
  The check of the embedded length of a Tunnel-Password admits one byte more than was sent: when the length
  equals the size of the encrypted part, which counts the length byte itself, the password is delivered with one byte
  of the cipher text at its end, even with \<open>tunnel_password_zeros\<close>.
\<close>

theorem tunnel_password_extra_byte:
  assumes "3 < length data" "unat (hd (tunnel_plain secret vector data)) = length data - 2"
    "length secret + 18 < 2 ^ 29" "length vector = 16"
  shows "\<exists>buf. fr_radius_decode_tunnel_password zeros (data @ rest) (length data) secret vector =
      (int (length data - 2), buf, length data - 2) \<and>
    take (length data - 2) buf = tl (tunnel_plain secret vector data) @ [data ! (length data - 3)]"
proof -
  have "Suc (length data - 3) = length data - 2" using assms(1) by simp
  then have "drop (length data - 3) data = data ! (length data - 3) # drop (length data - 2) data"
    using assms(1) Cons_nth_drop_Suc [of "length data - 3" data] by simp
  then show ?thesis
    unfolding decode_tunnel_spec [OF assms(3,4,1)] Let_def assms(2) using assms(1)
    by (simp add: tunnel_buffer_def take_Cons')
qed

theorem tunnel_password_extra_byte_witness:
  "\<exists>data buf. length data = 6 \<and>
    fr_radius_decode_tunnel_password True (data @ replicate 250 0) (length data) [1] (replicate 16 7) = (4, buf, 4) \<and>
    take 4 buf = [0x61, 0x62, 0x63, data ! 3]"
proof -
  let ?data = "take 6 (0x80 # 1 # hide [1] (replicate 16 7 @ [0x80, 1]) [4, 0x61, 0x62, 0x63])"
  have len: "length ?data = 6" by simp
  have pl: "tunnel_plain [1] (replicate 16 7) ?data = [4, 0x61, 0x62, 0x63]"
    by (rule tunnel_plain_encoded [OF refl, THEN trans]) simp_all
  from len pl obtain data where "length data = 6" "tunnel_plain [1] (replicate 16 7) data = [4, 0x61, 0x62, 0x63]" by blast
  with tunnel_password_extra_byte [of data "[1]" "replicate 16 7" True "replicate 250 0"]
  show ?thesis by auto
qed

text \<open>
  Among any eight tunnel passwords that follow each other in a packet, those that are encoded have pairwise
  different salts, whatever the random generator yields, and every salt has its high bit set.
\<close>

theorem tunnel_salts_distinct:
  assumes "encode_tunnel_all room pws ctx ! i = Inr d" "encode_tunnel_all room pws ctx ! j = Inr e"
    "i < j" "j < i + 8" "j < length pws"
    "length (common_secret ctx) + 18 < 2 ^ 29" "length (request_authenticator ctx) = 16"
  shows "d ! 0 \<noteq> e ! 0 \<and> bit (d ! 0) 7 \<and> bit (e ! 0) 7"
proof -
  let ?rs = "encode_tunnel_all room pws ctx"
  have less: "encoded_before ?rs i < encoded_before ?rs j" "encoded_before ?rs j < encoded_before ?rs i + 8"
    using encoded_before_less [of i j ?rs d] assms(1,3-5) by simp_all
  obtain r where "d ! 0 = salt_byte (salt_offset ctx + of_nat (encoded_before ?rs i)) r"
    using encode_tunnel_all_salt [OF assms(6,7) _ assms(1)] assms(3,5) by auto
  moreover obtain r' where "e ! 0 = salt_byte (salt_offset ctx + of_nat (encoded_before ?rs j)) r'"
    using encode_tunnel_all_salt [OF assms(6,7) _ assms(2)] assms(5) by auto
  ultimately show ?thesis using salt_byte_neq [OF less] salt_byte_bits(1) by simp
qed

theorem tunnel_salts_distinct_witness:
  "\<exists>d e. encode_tunnel_all 253 [[1], [2]] example_ctx = [Inr d, Inr e] \<and> d ! 0 \<noteq> e ! 0"
proof -
  have ex: "length (common_secret c) + 18 < 2 ^ 29 \<and> length (request_authenticator c) = 16 \<Longrightarrow>
      \<exists>d r. encode_tunnel_password 253 [x] c = (Inr d, c\<lparr>salt_offset := salt_offset c + 1, rand_ctx := r\<rparr>)" for c x
    using encode_tunnel_hides [of "common_secret c" "request_authenticator c" "[x]" c _ 253] by auto
  obtain d r where d: "encode_tunnel_password 253 [1] example_ctx =
      (Inr d, example_ctx\<lparr>salt_offset := salt_offset example_ctx + 1, rand_ctx := r\<rparr>)"
    using ex [of example_ctx 1] by (auto simp: example_ctx_def)
  moreover obtain e where "fst (encode_tunnel_password 253 [2] (snd (encode_tunnel_password 253 [1] example_ctx))) = Inr e"
    using ex [of "example_ctx\<lparr>salt_offset := salt_offset example_ctx + 1, rand_ctx := r\<rparr>" 2] d
    by (fastforce simp: example_ctx_def)
  ultimately have "encode_tunnel_all 253 [[1], [2]] example_ctx = [Inr d, Inr e]" by (simp add: Let_def)
  with tunnel_salts_distinct [of 253 "[[1], [2]]" example_ctx 0 d 1 e] show ?thesis
    by (simp add: example_ctx_def)
qed

end
