(* ===== verification/Cmp.thy ===== *)
theory Cmp
  imports Prelude "HOL-Library.List_Lexorder"
begin

text \<open>
  Comparators.  The macros \<open>CMP\<close> and \<open>CMP_PREFER_LARGER\<close> and \<open>memcmp_return\<close> of
  \<open>src/include/build.h\<close>, and the comparison callbacks the server hands to its heaps and trees.  The
  locale \<open>total_cmp\<close> is what those containers rely on; it is proved for each callback through two
  combinators, comparing a key and comparing lexicographically.  An object's fields are functions of
  its address.
\<close>

subsection \<open>Macros\<close>

definition CMP_PREFER_SMALLER :: "'a :: linorder \<Rightarrow> 'a \<Rightarrow> int" where
  "CMP_PREFER_SMALLER a b = of_bool (a > b) - of_bool (a < b)"

definition CMP_PREFER_LARGER :: "'a :: linorder \<Rightarrow> 'a \<Rightarrow> int" where
  "CMP_PREFER_LARGER a b = of_bool (a < b) - of_bool (a > b)"

definition CMP :: "'a :: linorder \<Rightarrow> 'a \<Rightarrow> int" where
  "CMP a b = CMP_PREFER_SMALLER a b"

text \<open>A sequence of \<open>CMP_RETURN\<close>: the first comparison that is not 0 decides.\<close>

definition cmp_return :: "int \<Rightarrow> int \<Rightarrow> int" where
  "cmp_return ret rest = (if ret \<noteq> 0 then ret else rest)"

text \<open>\<open>memcmp\<close> on the first \<open>n\<close> bytes: the difference of the first bytes that differ.\<close>

fun c_memcmp :: "bytes \<Rightarrow> bytes \<Rightarrow> nat \<Rightarrow> int" where
  "c_memcmp (x # xs) (y # ys) (Suc n) = (if x = y then c_memcmp xs ys n else uint x - uint y)"
| "c_memcmp _ _ _ = 0"

definition memcmp_return :: "bytes \<Rightarrow> bytes \<Rightarrow> nat \<Rightarrow> nat \<Rightarrow> int" where
  "memcmp_return a b a_len b_len =
     (let cmp_len = (if a_len < b_len then a_len else b_len);
          l_ret = CMP a_len b_len;
          ret = CMP (c_memcmp a b cmp_len) 0
      in if ret \<noteq> 0 then ret else l_ret)"

subsection \<open>Callbacks\<close>

definition fr_pointer_cmp :: "ptr \<Rightarrow> ptr \<Rightarrow> int" where
  "fr_pointer_cmp a b = CMP a b"

text \<open>\<open>fr_time_t\<close> and \<open>fr_time_delta_t\<close> are signed, \<open>fr_unix_time_t\<close> is unsigned.\<close>

definition fr_time_cmp :: "int \<Rightarrow> int \<Rightarrow> int" where
  "fr_time_cmp a b = CMP a b"

definition fr_time_delta_cmp :: "int \<Rightarrow> int \<Rightarrow> int" where
  "fr_time_delta_cmp a b = CMP a b"

definition fr_unix_time_cmp :: "u64 \<Rightarrow> u64 \<Rightarrow> int" where
  "fr_unix_time_cmp a b = CMP a b"

definition timer_cmp :: "(ptr \<Rightarrow> int) \<Rightarrow> ptr \<Rightarrow> ptr \<Rightarrow> int" where
  "timer_cmp when_of a b = fr_time_cmp (when_of a) (when_of b)"

definition cache_heap_cmp :: "(ptr \<Rightarrow> u64) \<Rightarrow> ptr \<Rightarrow> ptr \<Rightarrow> int" where
  "cache_heap_cmp expires a b = fr_unix_time_cmp (expires a) (expires b)"

definition cache_entry_cmp :: "(ptr \<Rightarrow> bytes) \<Rightarrow> ptr \<Rightarrow> ptr \<Rightarrow> int" where
  "cache_entry_cmp key a b = memcmp_return (key a) (key b) (length (key a)) (length (key b))"

definition pending_packet_cmp :: "(ptr \<Rightarrow> u32) \<Rightarrow> (ptr \<Rightarrow> int) \<Rightarrow> ptr \<Rightarrow> ptr \<Rightarrow> int" where
  "pending_packet_cmp priority recv_time a b =
     (let ret = CMP_PREFER_LARGER (priority a) (priority b) in
      if ret \<noteq> 0 then ret else CMP_PREFER_SMALLER (recv_time a) (recv_time b))"

text \<open>Clients are compared by the packet at the top of their heap, \<open>pending_top\<close>.\<close>

definition pending_client_cmp ::
  "(ptr \<Rightarrow> ptr) \<Rightarrow> (ptr \<Rightarrow> u32) \<Rightarrow> (ptr \<Rightarrow> int) \<Rightarrow> ptr \<Rightarrow> ptr \<Rightarrow> int" where
  "pending_client_cmp pending_top priority recv_time c1 c2 = pending_packet_cmp priority recv_time (pending_top c1) (pending_top c2)"

text \<open>The priorities of \<open>channel.h\<close>.\<close>

definition PRIORITY_NOW :: u32 where "PRIORITY_NOW = push_bit 16 1"
definition PRIORITY_HIGH :: u32 where "PRIORITY_HIGH = push_bit 15 1"
definition PRIORITY_NORMAL :: u32 where "PRIORITY_NORMAL = push_bit 14 1"
definition PRIORITY_LOW :: u32 where "PRIORITY_LOW = push_bit 13 1"

definition reply_cmp :: "(ptr \<Rightarrow> u32) \<Rightarrow> (ptr \<Rightarrow> int) \<Rightarrow> ptr \<Rightarrow> ptr \<Rightarrow> int" where
  "reply_cmp priority when_of a b =
     (let ret = CMP (priority a) (priority b) in
      if ret \<noteq> 0 then ret else fr_time_cmp (when_of a) (when_of b))"

definition waiting_cmp :: "(ptr \<Rightarrow> u32) \<Rightarrow> (ptr \<Rightarrow> int) \<Rightarrow> ptr \<Rightarrow> ptr \<Rightarrow> int" where
  "waiting_cmp priority request_time a b =
     (let ret = CMP (priority a) (priority b) in
      if ret \<noteq> 0 then ret else fr_time_cmp (request_time a) (request_time b))"

definition worker_runnable_cmp ::
  "(ptr \<Rightarrow> u32) \<Rightarrow> (ptr \<Rightarrow> u32) \<Rightarrow> (ptr \<Rightarrow> int) \<Rightarrow> ptr \<Rightarrow> ptr \<Rightarrow> int" where
  "worker_runnable_cmp priority sequence recv_time a b =
     (let ret = CMP (priority b) (priority a) in
      if ret \<noteq> 0 then ret
      else let ret = CMP (sequence a) (sequence b) in
           if ret \<noteq> 0 then ret else fr_time_cmp (recv_time a) (recv_time b))"

definition worker_dedup_cmp :: "(ptr \<Rightarrow> ptr) \<Rightarrow> (ptr \<Rightarrow> ptr) \<Rightarrow> ptr \<Rightarrow> ptr \<Rightarrow> int" where
  "worker_dedup_cmp listen packet_ctx a b =
     (let ret = CMP (listen a) (listen b) in
      if ret \<noteq> 0 then ret else CMP (packet_ctx a) (packet_ctx b))"

definition last_reserved_cmp :: "(ptr \<Rightarrow> int) \<Rightarrow> ptr \<Rightarrow> ptr \<Rightarrow> int" where
  "last_reserved_cmp last_reserved a b = fr_time_cmp (last_reserved a) (last_reserved b)"

definition last_released_cmp :: "(ptr \<Rightarrow> int) \<Rightarrow> ptr \<Rightarrow> ptr \<Rightarrow> int" where
  "last_released_cmp last_released a b = fr_time_cmp (last_released a) (last_released b)"

definition timer_location_cmp :: "(ptr \<Rightarrow> ptr) \<Rightarrow> (ptr \<Rightarrow> u32) \<Rightarrow> ptr \<Rightarrow> ptr \<Rightarrow> int" where
  "timer_location_cmp file_of line_of a b =
     cmp_return (CMP (file_of a) (file_of b)) (CMP (line_of a) (line_of b))"

definition fr_event_fd_cmp :: "(ptr \<Rightarrow> int) \<Rightarrow> (ptr \<Rightarrow> int) \<Rightarrow> ptr \<Rightarrow> ptr \<Rightarrow> int" where
  "fr_event_fd_cmp fd filt a b = cmp_return (CMP (fd a) (fd b)) (CMP (filt a) (filt b))"

text \<open>The order of a trunk's connections, by the number of requests each has, with a fudge factor.\<close>

definition trunk_connection_order_by_shortest_queue :: "(ptr \<Rightarrow> u32) \<Rightarrow> ptr \<Rightarrow> ptr \<Rightarrow> int" where
  "trunk_connection_order_by_shortest_queue count a b =
     (let a_count = count a; b_count = count b in
      of_bool (a_count > b_count \<and> a_count - b_count > 1) - of_bool (b_count > a_count \<and> b_count - a_count > 1))"

subsection \<open>What a container relies on\<close>

locale total_cmp =
  fixes cmp :: "'a \<Rightarrow> 'a \<Rightarrow> int"
  assumes cmp_sym: "cmp x y < 0 \<longleftrightarrow> cmp y x > 0"
    and cmp_trans: "cmp x y \<le> 0 \<Longrightarrow> cmp y z \<le> 0 \<Longrightarrow> cmp x z \<le> 0"
begin

lemma cmp_refl: "cmp x x \<le> 0"
  using cmp_sym [of x x] by linarith

lemma cmp_not_less: "\<not> cmp x y < 0 \<Longrightarrow> cmp y x \<le> 0"
  using cmp_sym [of y x] cmp_sym [of x y] by linarith

lemma cmp_pos: "cmp x y > 0 \<Longrightarrow> cmp y x < 0"
  using cmp_sym [of y x] by blast

lemma cmp_zero: "cmp x y = 0 \<longleftrightarrow> cmp y x = 0"
  using cmp_sym [of x y] cmp_sym [of y x] by linarith

lemma cmp_less_trans: "cmp x y < 0 \<Longrightarrow> cmp y z \<le> 0 \<Longrightarrow> cmp x z < 0"
  using cmp_trans [of y z x] cmp_sym [of x y] cmp_sym [of x z] cmp_not_less [of x z] by linarith

lemma cmp_le_less_trans: "cmp x y \<le> 0 \<Longrightarrow> cmp y z < 0 \<Longrightarrow> cmp x z < 0"
  using cmp_trans [of z x y] cmp_sym [of y z] cmp_not_less [of x z] by linarith

end

lemma total_CMP: "total_cmp (CMP :: 'a :: linorder \<Rightarrow> 'a \<Rightarrow> int)"
  by unfold_locales (auto simp: CMP_def CMP_PREFER_SMALLER_def of_bool_def split: if_splits)

lemma total_cmp_key: "total_cmp cmp \<Longrightarrow> total_cmp (\<lambda>a b. cmp (f a) (f b))"
  unfolding total_cmp_def by blast

lemma total_cmp_swap: "total_cmp cmp \<Longrightarrow> total_cmp (\<lambda>a b. cmp b a)"
  unfolding total_cmp_def by blast

lemma total_cmp_lex:
  assumes "total_cmp c1" "total_cmp c2"
  shows "total_cmp (\<lambda>a b. if c1 a b \<noteq> 0 then c1 a b else c2 a b)"
proof (unfold_locales, goal_cases)
  case (1 x y)
  show ?case
    using total_cmp.cmp_zero [OF assms(1), of x y] total_cmp.cmp_sym [OF assms(1), of x y] total_cmp.cmp_sym [OF assms(2), of x y]
    by simp
next
  case (2 x y z)
  note c = total_cmp.cmp_less_trans [OF assms(1)] total_cmp.cmp_le_less_trans [OF assms(1)]
    total_cmp.cmp_trans [OF assms(1)] total_cmp.cmp_zero [OF assms(1)]
  show ?case
  proof (cases "c1 x y = 0 \<and> c1 y z = 0")
    case True
    then have "c1 x z = 0" using c(3) [of x y z] c(3) [of z y x] c(4) [of x y] c(4) [of y z] c(4) [of x z]
        total_cmp.cmp_sym [OF assms(1), of x z] by linarith
    with True 2 total_cmp.cmp_trans [OF assms(2), of x y z] show ?thesis by simp
  next
    case False
    with 2 have "c1 x z < 0" using c(1) [of x y z] c(2) [of x y z] by (auto split: if_splits)
    then show ?thesis by simp
  qed
qed

lemma larger_swap: "CMP_PREFER_LARGER a b = CMP b a"
  by (simp add: CMP_PREFER_LARGER_def CMP_def CMP_PREFER_SMALLER_def)

text \<open>\<open>memcmp_return\<close> on whole keys is the lexicographic order of byte strings.\<close>

lemma CMP_eq: "CMP a b = 0 \<longleftrightarrow> a = b"
  by (auto simp: CMP_def CMP_PREFER_SMALLER_def of_bool_def)

lemma memcmp_return_lex: "memcmp_return a b (length a) (length b) = CMP a b"
proof (induction a b rule: list_induct2')
  case (4 x xs y ys)
  have "memcmp_return (x # xs) (y # ys) (length (x # xs)) (length (y # ys)) =
      (if x = y then memcmp_return xs ys (length xs) (length ys) else CMP (uint x) (uint y))"
    by (auto simp: memcmp_return_def Let_def CMP_def CMP_PREFER_SMALLER_def of_bool_def dest: unsigned_word_eqI)
  with 4 show ?case by (auto simp: CMP_def CMP_PREFER_SMALLER_def of_bool_def word_less_def)
qed (simp_all add: memcmp_return_def CMP_def CMP_PREFER_SMALLER_def)

lemmas cmp_callbacks =
  fr_pointer_cmp_def fr_time_cmp_def fr_time_delta_cmp_def fr_unix_time_cmp_def timer_cmp_def
  cache_heap_cmp_def cache_entry_cmp_def memcmp_return_lex pending_packet_cmp_def pending_client_cmp_def
  reply_cmp_def waiting_cmp_def worker_runnable_cmp_def worker_dedup_cmp_def last_reserved_cmp_def
  last_released_cmp_def timer_location_cmp_def fr_event_fd_cmp_def cmp_return_def larger_swap
  CMP_def [symmetric] Let_def

lemmas total_cmp_intros = total_CMP total_cmp_key [OF total_CMP] total_cmp_swap [OF total_cmp_key, OF total_CMP] total_cmp_lex

interpretation ptr_tc: total_cmp fr_pointer_cmp
  unfolding cmp_callbacks by (intro total_cmp_intros)

interpretation timer_tc: total_cmp "timer_cmp when_of" for when_of
  unfolding cmp_callbacks by (intro total_cmp_intros)

interpretation cache_tc: total_cmp "cache_heap_cmp expires" for expires
  unfolding cmp_callbacks by (intro total_cmp_intros)

interpretation cache_key_tc: total_cmp "cache_entry_cmp key" for key
  unfolding cmp_callbacks by (intro total_cmp_intros)

interpretation pending_tc: total_cmp "pending_packet_cmp priority recv_time" for priority recv_time
  unfolding cmp_callbacks by (intro total_cmp_intros)

interpretation reply_tc: total_cmp "reply_cmp priority when_of" for priority when_of
  unfolding cmp_callbacks by (intro total_cmp_intros)

interpretation runnable_tc: total_cmp "worker_runnable_cmp priority sequence recv_time" for priority sequence recv_time
  unfolding cmp_callbacks by (intro total_cmp_intros)

subsection \<open>Properties\<close>


text \<open>
  The default order of a trunk's connections is not one: of three connections with \<open>n\<close>, \<open>n + 1\<close> and
  \<open>n + 2\<close> requests it finds the first two equal and the last two equal, and the third after the first.
\<close>

theorem trunk_order_not_transitive:
  assumes "count b = count a + 1" "count c = count a + 2" "count a < 4294967294"
  shows "trunk_connection_order_by_shortest_queue count c b = 0 \<and>
    trunk_connection_order_by_shortest_queue count b a = 0 \<and>
    trunk_connection_order_by_shortest_queue count c a = 1 \<and>
    \<not> total_cmp (trunk_connection_order_by_shortest_queue count)"
proof -
  have n: "unat (count a) < 4294967294" using assms(3) by (simp add: word_less_nat_alt)
  then have u: "unat (count a + 1) = unat (count a) + 1" "unat (count a + 2) = unat (count a) + 2"
    by (simp_all add: unat_word_ariths)
  have r: "trunk_connection_order_by_shortest_queue count c b = 0"
    "trunk_connection_order_by_shortest_queue count b a = 0"
    "trunk_connection_order_by_shortest_queue count c a = 1"
    by (simp_all add: trunk_connection_order_by_shortest_queue_def assms(1,2) word_less_nat_alt u)
  then have "\<not> total_cmp (trunk_connection_order_by_shortest_queue count)"
    using total_cmp.cmp_trans [of "trunk_connection_order_by_shortest_queue count" c b a] by auto
  with r show ?thesis by blast
qed

theorem trunk_order_not_transitive_witness:
  "\<not> total_cmp (trunk_connection_order_by_shortest_queue (\<lambda>x. of_nat x))"
  using trunk_order_not_transitive [of "\<lambda>x. of_nat x" 2 1 3] by simp

end
