(* ===== verification/Prio_Queue.thy ===== *)
theory Prio_Queue
  imports Prelude "HOL-Library.Multiset"
begin

text \<open>
  The contract of a priority queue and what its users get from it: taking entries until the queue is
  empty returns each of them once, in order, and entering a list of entries and taking them all sorts
  the list.
\<close>

primrec take_all :: "('s \<Rightarrow> ('a \<times> 's) option) \<Rightarrow> nat \<Rightarrow> 's \<Rightarrow> 'a list" where
  "take_all pop 0 s = []"
| "take_all pop (Suc n) s = (case pop s of None \<Rightarrow> [] | Some (x, s') \<Rightarrow> x # take_all pop n s')"

fun enter_all :: "('s \<Rightarrow> 'a \<Rightarrow> 's option) \<Rightarrow> 's \<Rightarrow> 'a list \<Rightarrow> 's option" where
  "enter_all enter s [] = Some s"
| "enter_all enter s (x # xs) = (case enter s x of None \<Rightarrow> None | Some s' \<Rightarrow> enter_all enter s' xs)"

text \<open>\<open>fits s x n\<close> says that \<open>n\<close> more entries, the first of them \<open>x\<close>, can be entered.\<close>

locale prio_queue =
  fixes ok :: "'s \<Rightarrow> bool" and items :: "'s \<Rightarrow> 'a set" and le :: "'a \<Rightarrow> 'a \<Rightarrow> bool"
    and pop :: "'s \<Rightarrow> ('a \<times> 's) option" and enter :: "'s \<Rightarrow> 'a \<Rightarrow> 's option"
    and may :: "'a \<Rightarrow> bool" and room :: nat
  assumes items_finite: "ok s \<Longrightarrow> finite (items s)"
    and pop_none: "ok s \<Longrightarrow> pop s = None \<longleftrightarrow> items s = {}"
    and pop_some: "ok s \<Longrightarrow> pop s = Some (x, s') \<Longrightarrow>
      ok s' \<and> x \<in> items s \<and> items s' = items s - {x} \<and> (\<forall>y \<in> items s. le x y)"
    and enter_ok: "ok s \<Longrightarrow> may x \<Longrightarrow> x \<notin> items s \<Longrightarrow> card (items s) < room \<Longrightarrow>
      \<exists>s'. enter s x = Some s' \<and> ok s' \<and> items s' = insert x (items s)"
begin

lemma take_all_sorted:
  assumes "ok s" "card (items s) \<le> n"
  shows "set (take_all pop n s) = items s \<and> distinct (take_all pop n s) \<and> sorted_wrt le (take_all pop n s)"
  using assms
proof (induction n arbitrary: s)
  case 0
  with items_finite show ?case by auto
next
  case (Suc n)
  show ?case
  proof (cases "pop s")
    case None
    with pop_none [OF Suc.prems(1)] show ?thesis by simp
  next
    case (Some r)
    then obtain x s' where r: "pop s = Some (x, s')" by (cases r) simp
    note p = pop_some [OF Suc.prems(1) r]
    have "card (items s') \<le> n" using p Suc.prems items_finite [OF Suc.prems(1)] by simp
    from Suc.IH [OF conjunct1 [OF p] this] p r show ?thesis by (auto simp: r)
  qed
qed

lemma enter_all_ok:
  assumes "ok s" "distinct xs" "set xs \<inter> items s = {}" "\<forall>x \<in> set xs. may x" "card (items s) + length xs \<le> room"
  shows "\<exists>s'. enter_all enter s xs = Some s' \<and> ok s' \<and> items s' = items s \<union> set xs"
  using assms
proof (induction xs arbitrary: s)
  case (Cons x xs)
  then obtain s1 where s1: "enter s x = Some s1" "ok s1" "items s1 = insert x (items s)"
    using enter_ok [of s x] by auto
  moreover have "card (items s1) + length xs \<le> room"
    using Cons.prems s1(3) items_finite [OF Cons.prems(1)] by simp
  ultimately show ?case using Cons.IH [of s1] Cons.prems by auto
qed simp

lemma enter_take_sorts:
  assumes "ok s" "items s = {}" "distinct xs" "\<forall>x \<in> set xs. may x" "length xs \<le> room"
  shows "\<exists>s'. enter_all enter s xs = Some s' \<and> mset (take_all pop (length xs) s') = mset xs \<and>
    sorted_wrt le (take_all pop (length xs) s')"
proof -
  obtain s' where s': "enter_all enter s xs = Some s'" "ok s'" "items s' = set xs"
    using enter_all_ok [OF assms(1,3)] assms(2,4,5) by auto
  then have "card (items s') \<le> length xs" by (simp add: card_length)
  from take_all_sorted [OF s'(2) this] s' assms(3) show ?thesis
    by (auto simp: set_eq_iff_mset_eq_distinct [symmetric])
qed

end

end
