(* ===== verification/Heap.thy ===== *)
theory Heap
  imports Prelude Cmp Prio_Queue
begin

text \<open>
  The binary heap of \<open>src/lib/util/heap.c\<close>: an array of pointers, numbered from 1, whose elements
  carry their own position (\<open>idx\<close>, the field at \<open>h->offset\<close> of an element; 0 means not inserted).
  The locale \<open>total_cmp\<close> states what a comparator must promise; it gives the contract of a priority
  queue (\<open>prio_queue\<close>), whose clients' facts are proved once.  The comparators \<open>fr_pointer_cmp\<close> and
  \<open>cache_heap_cmp\<close> of the sources are interpretations.  The count of elements wraps at 32 bits as in the
  code; the index of a left child, \<open>2 * i\<close>, does not, so \<open>fr_heap_extract\<close> is the code's on heaps of
  less than \<open>2\<^sup>3\<^sup>1\<close> elements.
\<close>

subsection \<open>Operations\<close>

record fr_heap =
  hp_size :: nat
  hp_min :: nat
  hp_num :: nat
  hp_p :: "ptr list"

type_synonym heap_idx = "ptr \<Rightarrow> nat"

type_synonym comparator = "ptr \<Rightarrow> ptr \<Rightarrow> int"

abbreviation (input) UINT_MAX :: nat where "UINT_MAX \<equiv> 4294967295"
abbreviation (input) UINTPTR_MAX :: ptr where "UINTPTR_MAX \<equiv> 18446744073709551615"

text \<open>\<open>ok\<close> is whether the allocation succeeds; the array's other entries are not initialised.\<close>

definition fr_heap_alloc :: "bool \<Rightarrow> nat \<Rightarrow> fr_heap option" where
  "fr_heap_alloc ok init =
     (let init' = (if init = 0 then 2048 else init) in
      if \<not> ok then None
      else Some \<lparr>hp_size = init', hp_min = init', hp_num = 0, hp_p = UINTPTR_MAX # replicate init' NULL\<rparr>)"

definition realloc_heap :: "bool \<Rightarrow> fr_heap \<Rightarrow> nat \<Rightarrow> fr_heap option" where
  "realloc_heap ok h n_size =
     (if \<not> ok then None
      else Some (h\<lparr>hp_size := n_size,
        hp_p := take (n_size + 1) (hp_p h) @ replicate (n_size + 1 - length (hp_p h)) NULL\<rparr>))"

function heap_bubble :: "comparator \<Rightarrow> ptr list \<Rightarrow> heap_idx \<Rightarrow> nat \<Rightarrow> ptr list \<times> heap_idx" where
  "heap_bubble cmp p idx child =
     (if child > 1 then
        let parent = child div 2 in
        if cmp (p ! parent) (p ! child) < 0 then (p, idx(p ! child := child))
        else let p' = p[child := p ! parent, parent := p ! child]
             in heap_bubble cmp p' (idx(p' ! child := child)) parent
      else (p, idx(p ! child := child)))"
  by pat_completeness auto
termination
  by (relation "measure (\<lambda>(cmp, p, idx, child). child)") auto

declare heap_bubble.simps [simp del]

definition fr_heap_bubble :: "comparator \<Rightarrow> fr_heap \<Rightarrow> heap_idx \<Rightarrow> nat \<Rightarrow> fr_heap \<times> heap_idx" where
  "fr_heap_bubble cmp h idx child =
     (if child = 0 then (h, idx)
      else let r = heap_bubble cmp (hp_p h) idx child in (h\<lparr>hp_p := fst r\<rparr>, snd r))"

text \<open>The size to grow to; \<open>None\<close> when the heap cannot grow.\<close>

definition heap_grow_size :: "nat \<Rightarrow> nat option" where
  "heap_grow_size n =
     (if n > UINT_MAX - n then (if n = UINT_MAX then None else Some UINT_MAX)
      else Some (n * 2))"

definition fr_heap_insert ::
  "bool \<Rightarrow> comparator \<Rightarrow> fr_heap option \<Rightarrow> heap_idx \<Rightarrow> ptr \<Rightarrow> int \<times> fr_heap option \<times> heap_idx" where
  "fr_heap_insert ok cmp hp idx data =
     (case hp of
        None \<Rightarrow> (- 1, hp, idx)
      | Some h \<Rightarrow>
          if idx data \<noteq> 0 then (- 1, hp, idx)
          else
            let child = (hp_num h + 1) mod 4294967296;
                grown = (if child > hp_size h
                         then (case heap_grow_size (hp_size h) of None \<Rightarrow> None | Some n_size \<Rightarrow> realloc_heap ok h n_size)
                         else Some h)
            in case grown of
                 None \<Rightarrow> (- 1, hp, idx)
               | Some h1 \<Rightarrow>
                   let h2 = h1\<lparr>hp_p := (hp_p h1)[child := data], hp_num := child\<rparr>;
                       r = fr_heap_bubble cmp h2 idx child
                   in (0, Some (fst r), snd r))"

text \<open>
  The loop of \<open>fr_heap_extract\<close> that moves children up into the hole, and where the hole ends; it is
  entered with \<open>child = 2 * parent\<close>, which is not 0.
\<close>

function heap_down :: "comparator \<Rightarrow> nat \<Rightarrow> ptr list \<Rightarrow> heap_idx \<Rightarrow> nat \<Rightarrow> nat \<Rightarrow> ptr list \<times> heap_idx \<times> nat" where
  "heap_down cmp mx p idx parent child =
     (if 0 < child \<and> child \<le> mx then
        let c = (if child \<noteq> mx \<and> cmp (p ! (child + 1)) (p ! child) < 0 then child + 1 else child)
        in heap_down cmp mx (p[parent := p ! c]) (idx(p ! c := parent)) c (2 * c)
      else (p, idx, parent))"
  by pat_completeness auto
termination
  by (relation "measure (\<lambda>(cmp, mx, p, idx, parent, child). Suc mx - child)") (auto simp: Let_def)

declare heap_down.simps [simp del]

text \<open>The array shrinks when less than half of it is used, and stays if the reallocation fails.\<close>

definition heap_shrink :: "bool \<Rightarrow> fr_heap \<Rightarrow> fr_heap" where
  "heap_shrink ok h =
     (let n_size = 1 + (hp_size h - 1) div 2 in
      if hp_num h * 2 < hp_size h \<and> n_size > hp_min h
      then (case realloc_heap ok h n_size of None \<Rightarrow> h | Some h' \<Rightarrow> h') else h)"

definition fr_heap_extract ::
  "bool \<Rightarrow> comparator \<Rightarrow> fr_heap option \<Rightarrow> heap_idx \<Rightarrow> ptr \<Rightarrow> int \<times> fr_heap option \<times> heap_idx" where
  "fr_heap_extract ok cmp hp idx data =
     (case hp of
        None \<Rightarrow> (- 1, hp, idx)
      | Some h \<Rightarrow>
          let parent = idx data in
          if parent = 0 \<or> parent > hp_num h then (- 1, hp, idx)
          else if data \<noteq> hp_p h ! parent then (- 1, hp, idx)
          else
            let mx = hp_num h;
                (p, idx1, hole) = heap_down cmp mx (hp_p h) (idx(hp_p h ! parent := 0)) parent (2 * parent);
                h1 = h\<lparr>hp_p := p, hp_num := hp_num h - 1\<rparr>;
                h2 = heap_shrink ok h1
            in if hole \<noteq> mx then
                 let r = fr_heap_bubble cmp (h2\<lparr>hp_p := (hp_p h2)[hole := hp_p h2 ! mx]\<rparr>) idx1 hole
                 in (0, Some (fst r), snd r)
               else (0, Some h2, idx1))"

text \<open>\<open>NULL\<close> is the result on an empty heap.\<close>

definition fr_heap_pop ::
  "bool \<Rightarrow> comparator \<Rightarrow> fr_heap option \<Rightarrow> heap_idx \<Rightarrow> ptr \<times> fr_heap option \<times> heap_idx" where
  "fr_heap_pop ok cmp hp idx =
     (case hp of
        None \<Rightarrow> (NULL, hp, idx)
      | Some h \<Rightarrow>
          if hp_num h = 0 then (NULL, hp, idx)
          else let data = hp_p h ! 1;
                   (rc, hp', idx') = fr_heap_extract ok cmp hp idx data
               in if rc < 0 then (NULL, hp', idx') else (data, hp', idx'))"

definition fr_heap_peek :: "fr_heap \<Rightarrow> ptr" where
  "fr_heap_peek h = (if hp_num h = 0 then NULL else hp_p h ! 1)"

definition fr_heap_peek_at :: "fr_heap \<Rightarrow> nat \<Rightarrow> ptr" where
  "fr_heap_peek_at h i = (if i > hp_num h then NULL else hp_p h ! i)"

definition fr_heap_peek_tail :: "fr_heap \<Rightarrow> ptr" where
  "fr_heap_peek_tail h = (if hp_num h = 0 then NULL else hp_p h ! hp_num h)"

text \<open>The iterator is the index of the entry returned last.\<close>

definition fr_heap_iter_init :: "fr_heap \<Rightarrow> ptr \<times> nat" where
  "fr_heap_iter_init h = (if hp_num h = 0 then NULL else hp_p h ! 1, 1)"

definition fr_heap_iter_next :: "fr_heap \<Rightarrow> nat \<Rightarrow> ptr \<times> nat" where
  "fr_heap_iter_next h iter =
     (if iter + 1 > hp_num h then (NULL, iter) else (hp_p h ! (iter + 1), iter + 1))"

text \<open>The assertions of \<open>fr_heap_verify\<close>.\<close>

definition fr_heap_verify :: "comparator \<Rightarrow> fr_heap \<Rightarrow> heap_idx \<Rightarrow> bool" where
  "fr_heap_verify cmp h idx \<longleftrightarrow>
     hp_num h \<le> hp_size h \<and> hp_p h ! 0 = UINTPTR_MAX \<and>
     list_all (\<lambda>i. hp_p h ! i \<noteq> NULL \<and> idx (hp_p h ! i) = i) [1..<hp_num h + 1] \<and>
     list_all (\<lambda>i. (2 * i \<le> hp_num h \<longrightarrow> cmp (hp_p h ! i) (hp_p h ! (2 * i)) \<le> 0) \<and>
                   (2 * i + 1 \<le> hp_num h \<longrightarrow> cmp (hp_p h ! i) (hp_p h ! (2 * i + 1)) \<le> 0)) [1..<hp_num h + 1]"

subsection \<open>The invariant\<close>

definition heap_items :: "fr_heap \<Rightarrow> ptr set" where
  "heap_items h = (\<lambda>i. hp_p h ! i) ` {1..hp_num h}"

text \<open>The elements' indexes, possibly stale at the position \<open>c\<close>; 0 is a position that is never used.\<close>

definition idx_ok :: "ptr list \<Rightarrow> nat \<Rightarrow> heap_idx \<Rightarrow> nat \<Rightarrow> bool" where
  "idx_ok p n idx c \<longleftrightarrow>
     inj_on ((!) p) {1..n} \<and>
     (\<forall>i \<in> {1..n}. p ! i \<noteq> NULL \<and> (i \<noteq> c \<longrightarrow> idx (p ! i) = i)) \<and>
     (\<forall>x. x \<notin> (!) p ` {1..n} \<longrightarrow> idx x = 0)"

definition heap_wf :: "fr_heap \<Rightarrow> bool" where
  "heap_wf h \<longleftrightarrow> length (hp_p h) = hp_size h + 1 \<and> hp_num h \<le> hp_size h \<and> 0 < hp_size h \<and>
     hp_size h \<le> UINT_MAX \<and> hp_p h ! 0 = UINTPTR_MAX"

subsection \<open>Positions\<close>

lemma swap_nth:
  assumes "c < length p" "q < length p" "i < length p"
  shows "p[c := p ! q, q := p ! c] ! i = p ! (if i = c then q else if i = q then c else i)"
  using assms by (auto simp: nth_list_update)

lemma idx_ok_swap:
  assumes "idx_ok p n idx c" "n < length p" "c \<in> {1..n}" "q \<in> {1..n}" "c \<noteq> q"
  defines "p' \<equiv> p[c := p ! q, q := p ! c]"
  shows "(!) p' ` {1..n} = (!) p ` {1..n}" "idx_ok p' n (idx(p' ! c := c)) q"
proof -
  let ?s = "\<lambda>i. if i = c then q else if i = q then c else i"
  have nth: "p' ! i = p ! ?s i" if "i \<in> {1..n}" for i
    unfolding p'_def using assms(2-4) that by (intro swap_nth) auto
  have s: "?s ` {1..n} = {1..n}" "inj_on ?s {1..n}"
    using assms(3,4) by (auto simp: inj_on_def image_iff)
  have "(!) p' ` {1..n} = (\<lambda>i. p ! ?s i) ` {1..n}" using nth by (auto intro!: image_cong)
  also have "\<dots> = (!) p ` (?s ` {1..n})" by (simp only: image_image)
  finally show img: "(!) p' ` {1..n} = (!) p ` {1..n}" by (simp only: s)
  have inj: "inj_on ((!) p) {1..n}" using assms(1) by (simp add: idx_ok_def)
  then have "inj_on ((!) p \<circ> ?s) {1..n}" using s by (intro comp_inj_on) simp_all
  moreover have "inj_on ((!) p') {1..n} = inj_on ((!) p \<circ> ?s) {1..n}"
    by (rule inj_on_cong) (simp only: nth o_def)
  ultimately have "inj_on ((!) p') {1..n}" by (simp only:)
  moreover have "idx x = 0" if "x \<notin> (!) p' ` {1..n}" for x
    using assms(1) that unfolding img idx_ok_def by blast
  moreover have "p' ! i \<noteq> NULL \<and> (i \<noteq> q \<longrightarrow> (idx(p' ! c := c)) (p' ! i) = i)" if i: "i \<in> {1..n}" for i
  proof (cases "i = c \<or> i = q")
    case True
    then show ?thesis using nth [OF i] nth [of c] assms(1,3,4) by (auto simp: idx_ok_def)
  next
    case False
    then have "p' ! i = p ! i" "p' ! c = p ! q" using nth [OF i] nth [of c] assms(3) by auto
    moreover have "p ! i \<noteq> p ! q" using inj_on_eq_iff [OF inj i assms(4)] False by simp
    moreover have "p ! i \<noteq> NULL" "idx (p ! i) = i" using assms(1) False i unfolding idx_ok_def by blast+
    ultimately show ?thesis by simp
  qed
  ultimately show "idx_ok p' n (idx(p' ! c := c)) q"
    using assms(3) unfolding idx_ok_def by (auto simp del: One_nat_def)
qed

lemma idx_ok_settle: "idx_ok p n idx c \<Longrightarrow> c \<in> {1..n} \<Longrightarrow> idx_ok p n (idx(p ! c := c)) 0"
  unfolding idx_ok_def by (auto simp: inj_on_eq_iff simp del: One_nat_def)

definition bubble_swap :: "ptr list \<Rightarrow> nat \<Rightarrow> ptr list" where
  "bubble_swap p c = p[c := p ! (c div 2), c div 2 := p ! c]"

lemma heap_bubble_step:
  assumes "1 < c" "\<not> cmp (p ! (c div 2)) (p ! c) < 0"
  shows "heap_bubble cmp p idx c = heap_bubble cmp (bubble_swap p c) (idx(bubble_swap p c ! c := c)) (c div 2)"
  using assms by (simp add: heap_bubble.simps [of cmp p idx c] bubble_swap_def Let_def)

lemma heap_bubble_stop:
  assumes "\<not> (1 < c \<and> \<not> cmp (p ! (c div 2)) (p ! c) < 0)"
  shows "heap_bubble cmp p idx c = (p, idx(p ! c := c))"
  using assms by (auto simp: heap_bubble.simps [of cmp p idx c] Let_def)

lemma bubble_swap_0: "1 < c \<Longrightarrow> bubble_swap p c ! 0 = p ! 0"
  by (simp add: bubble_swap_def nth_list_update)

lemma length_bubble_swap [simp]: "length (bubble_swap p c) = length p"
  by (simp add: bubble_swap_def)

lemma half_pos: "1 < (c :: nat) \<Longrightarrow> c \<in> {1..n} \<Longrightarrow> c div 2 \<in> {1..n} \<and> c \<noteq> c div 2"
  by auto

text \<open>Bubbling permutes the entries up to \<open>n\<close> and leaves every index right.\<close>

lemma heap_bubble_positions:
  assumes "idx_ok p n idx c" "n < length p" "c \<in> {1..n}"
  shows "length (fst (heap_bubble cmp p idx c)) = length p \<and> fst (heap_bubble cmp p idx c) ! 0 = p ! 0 \<and>
    (!) (fst (heap_bubble cmp p idx c)) ` {1..n} = (!) p ` {1..n} \<and>
    idx_ok (fst (heap_bubble cmp p idx c)) n (snd (heap_bubble cmp p idx c)) 0"
  using assms
proof (induction c arbitrary: p idx rule: less_induct)
  case (less c)
  show ?case
  proof (cases "1 < c \<and> \<not> cmp (p ! (c div 2)) (p ! c) < 0")
    case True
    then have q: "c div 2 \<in> {1..n}" "c \<noteq> c div 2" "c div 2 < c" using half_pos less.prems(3) by auto
    note sw = idx_ok_swap [OF less.prems q(1,2), folded bubble_swap_def]
    show ?thesis
      unfolding heap_bubble_step [of c cmp p idx, OF conjunct1 [OF True] conjunct2 [OF True]]
      using less.IH [OF q(3) sw(2)] less.prems(2) q(1) sw(1) bubble_swap_0 [of c p] True
      by (simp del: One_nat_def fun_upd_apply)
  next
    case False
    with idx_ok_settle [OF less.prems(1,3)] show ?thesis by (simp add: heap_bubble_stop del: One_nat_def fun_upd_apply)
  qed
qed

text \<open>
  The entries around the hole \<open>h\<close> of \<open>fr_heap_extract\<close>, and how they move when the entry at \<open>c\<close> goes
  into it.
\<close>

definition hole_ok :: "ptr list \<Rightarrow> nat \<Rightarrow> heap_idx \<Rightarrow> nat \<Rightarrow> bool" where
  "hole_ok p n idx h \<longleftrightarrow>
     inj_on ((!) p) ({1..n} - {h}) \<and>
     (\<forall>i \<in> {1..n} - {h}. p ! i \<noteq> NULL \<and> idx (p ! i) = i) \<and>
     (\<forall>x. x \<notin> (!) p ` ({1..n} - {h}) \<longrightarrow> idx x = 0)"

lemma hole_ok_move:
  assumes "hole_ok p n idx h" "n < length p" "h \<in> {1..n}" "c \<in> {1..n}" "c \<noteq> h"
  shows "(!) (p[h := p ! c]) ` ({1..n} - {c}) = (!) p ` ({1..n} - {h})"
    and "hole_ok (p[h := p ! c]) n (idx(p ! c := h)) c"
proof -
  let ?p = "p[h := p ! c]"
  let ?s = "\<lambda>i. if i = h then c else i"
  have nth: "?p ! i = p ! ?s i" if "i \<in> {1..n} - {c}" for i
    using assms(2,3) that by (auto simp: nth_list_update)
  have s: "?s ` ({1..n} - {c}) = {1..n} - {h}" using assms(3-5) by (auto simp: image_iff)
  have si: "inj_on ?s ({1..n} - {c})" using assms(5) by (auto simp: inj_on_def split: if_splits)
  have "(!) ?p ` ({1..n} - {c}) = (\<lambda>i. p ! ?s i) ` ({1..n} - {c})" using nth by (intro image_cong) simp_all
  also have "\<dots> = (!) p ` (?s ` ({1..n} - {c}))" by (simp only: image_image)
  finally show img: "(!) ?p ` ({1..n} - {c}) = (!) p ` ({1..n} - {h})" by (simp only: s)
  have inj: "inj_on ((!) p) ({1..n} - {h})" using assms(1) by (simp only: hole_ok_def)
  then have "inj_on ((!) p \<circ> ?s) ({1..n} - {c})" using s si by (intro comp_inj_on) simp_all
  moreover have "inj_on ((!) ?p) ({1..n} - {c}) = inj_on ((!) p \<circ> ?s) ({1..n} - {c})"
    by (rule inj_on_cong) (simp only: nth o_def)
  ultimately have "inj_on ((!) ?p) ({1..n} - {c})" by (simp only:)
  moreover have "(idx(p ! c := h)) x = 0" if "x \<notin> (!) ?p ` ({1..n} - {c})" for x
  proof -
    from that have x: "x \<notin> (!) p ` ({1..n} - {h})" unfolding img .
    moreover from assms(4,5) have "p ! c \<in> (!) p ` ({1..n} - {h})" by blast
    ultimately show ?thesis using assms(1) by (auto simp: hole_ok_def)
  qed
  moreover have "?p ! i \<noteq> NULL \<and> (idx(p ! c := h)) (?p ! i) = i" if i: "i \<in> {1..n} - {c}" for i
  proof (cases "i = h")
    case True
    then show ?thesis using nth [OF i] assms(1,4,5) by (simp add: hole_ok_def)
  next
    case False
    then have "?p ! i = p ! i" using nth [OF i] by simp
    moreover have "p ! i \<noteq> p ! c" using inj_on_eq_iff [OF inj, of i c] False i assms(4,5) by blast
    moreover have "p ! i \<noteq> NULL" "idx (p ! i) = i" using assms(1) False i unfolding hole_ok_def by blast+
    ultimately show ?thesis by simp
  qed
  ultimately show "hole_ok ?p n (idx(p ! c := h)) c" unfolding hole_ok_def by blast
qed

lemma minus_top: "0 < n \<Longrightarrow> {1..n} - {n} = {1..n - 1 :: nat}"
  by auto

lemma hole_ok_top: "0 < n \<Longrightarrow> hole_ok p n idx n \<longleftrightarrow> idx_ok p (n - 1) idx 0"
  unfolding hole_ok_def minus_top idx_ok_def by auto

lemma idx_ok_inj: "idx_ok p n idx c \<Longrightarrow> i \<in> {1..n} \<Longrightarrow> j \<in> {1..n} \<Longrightarrow> p ! i = p ! j \<longleftrightarrow> i = j"
  unfolding idx_ok_def by (metis inj_on_eq_iff)

lemma idx_okD: "idx_ok p n idx c \<Longrightarrow> i \<in> {1..n} \<Longrightarrow> i \<noteq> c \<Longrightarrow> idx (p ! i) = i"
  unfolding idx_ok_def by blast

lemma idx_ok_stale:
  assumes "idx_ok p n (idx(p ! c := k)) 0" "c \<in> {1..n}"
  shows "idx_ok p n idx c"
proof -
  have "idx x = 0" if "x \<notin> (!) p ` {1..n}" for x
  proof -
    from that assms(2) have "x \<noteq> p ! c" by blast
    with that assms(1) show ?thesis by (auto simp: idx_ok_def)
  qed
  moreover have "idx (p ! i) = i" if "i \<in> {1..n}" "i \<noteq> c" for i
  proof -
    from idx_ok_inj [OF assms(1) that(1) assms(2)] that have "p ! i \<noteq> p ! c" by simp
    with idx_okD [OF assms(1) that(1)] that(1) show ?thesis by simp
  qed
  ultimately show ?thesis using assms(1) unfolding idx_ok_def by blast
qed

lemma idx_ok_hole:
  assumes "idx_ok p n idx 0" "h \<in> {1..n}"
  shows "hole_ok p n (idx(p ! h := 0)) h" "(!) p ` ({1..n} - {h}) = (!) p ` {1..n} - {p ! h}"
proof -
  have inj: "inj_on ((!) p) {1..n}" using assms(1) by (simp only: idx_ok_def)
  show img: "(!) p ` ({1..n} - {h}) = (!) p ` {1..n} - {p ! h}"
    using inj_on_image_set_diff [OF inj, of "{1..n}" "{h}"] assms(2) by simp
  have "p ! i \<noteq> p ! h" if "i \<in> {1..n} - {h}" for i using inj_on_eq_iff [OF inj, of i h] that assms(2) by blast
  moreover have "inj_on ((!) p) ({1..n} - {h})" by (rule inj_on_subset [OF inj]) blast
  ultimately show "hole_ok p n (idx(p ! h := 0)) h"
    using assms(1) unfolding hole_ok_def idx_ok_def img by auto
qed

definition down_child :: "comparator \<Rightarrow> nat \<Rightarrow> ptr list \<Rightarrow> nat \<Rightarrow> nat" where
  "down_child cmp mx p h = (if 2 * h \<noteq> mx \<and> cmp (p ! (2 * h + 1)) (p ! (2 * h)) < 0 then 2 * h + 1 else 2 * h)"

lemma heap_down_step:
  assumes "0 < h" "2 * h \<le> mx"
  shows "heap_down cmp mx p idx h (2 * h) =
    heap_down cmp mx (p[h := p ! down_child cmp mx p h]) (idx(p ! down_child cmp mx p h := h))
      (down_child cmp mx p h) (2 * down_child cmp mx p h)"
  using assms by (simp add: heap_down.simps [of cmp mx p idx h "2 * h"] down_child_def Let_def)

lemma heap_down_stop: "mx < 2 * h \<Longrightarrow> heap_down cmp mx p idx h (2 * h) = (p, idx, h)"
  by (simp add: heap_down.simps [of cmp mx p idx h "2 * h"])

lemma down_child_pos:
  assumes "0 < h" "2 * h \<le> mx"
  shows "down_child cmp mx p h \<in> {1..mx}" "h < down_child cmp mx p h" "down_child cmp mx p h div 2 = h"
  using assms by (auto simp: down_child_def)

lemma heap_down_positions:
  assumes "hole_ok p n idx h" "n < length p" "h \<in> {1..n}" "heap_down cmp n p idx h (2 * h) = (p', idx', h')"
  shows "length p' = length p \<and> p' ! 0 = p ! 0 \<and> h' \<in> {1..n} \<and> n < 2 * h' \<and>
    (!) p' ` ({1..n} - {h'}) = (!) p ` ({1..n} - {h}) \<and> hole_ok p' n idx' h'"
  using assms
proof (induction "n - h" arbitrary: p idx h rule: less_induct)
  case less
  show ?case
  proof (cases "2 * h \<le> n")
    case True
    let ?c = "down_child cmp n p h"
    have h: "0 < h" using less.prems(3) by simp
    note c = down_child_pos [OF h True, of cmp p]
    have ch: "?c \<noteq> h" "n - ?c < n - h" using c(1,2) by auto
    note mv = hole_ok_move [OF less.prems(1-3) c(1) ch(1)]
    show ?thesis
      using less.hyps [OF ch(2) mv(2) _ c(1)] less.prems(2,4) mv(1) h
      unfolding heap_down_step [OF h True] by (simp del: One_nat_def fun_upd_apply)
  next
    case False
    with less.prems show ?thesis by (simp add: heap_down_stop del: One_nat_def fun_upd_apply)
  qed
qed

subsection \<open>Comparators\<close>

text \<open>
  The order of the heap: every entry but \<open>c\<close> is not before its parent, and the children of \<open>c\<close>
  are not before the parent of \<open>c\<close>.
\<close>

definition heap_except :: "comparator \<Rightarrow> ptr list \<Rightarrow> nat \<Rightarrow> nat \<Rightarrow> bool" where
  "heap_except cmp p n c \<longleftrightarrow>
     (\<forall>i \<in> {2..n}. i \<noteq> c \<longrightarrow> cmp (p ! (i div 2)) (p ! i) \<le> 0) \<and>
     (\<forall>i \<in> {2..n}. i div 2 = c \<longrightarrow> 1 < c \<longrightarrow> cmp (p ! (c div 2)) (p ! i) \<le> 0)"

definition heap_order :: "comparator \<Rightarrow> ptr list \<Rightarrow> nat \<Rightarrow> bool" where
  "heap_order cmp p n \<longleftrightarrow> (\<forall>i \<in> {2..n}. cmp (p ! (i div 2)) (p ! i) \<le> 0)"

text \<open>
  The order while \<open>fr_heap_extract\<close> moves a hole down: entries that do not touch the hole are ordered,
  and the children of the hole are not before its parent.
\<close>

definition heap_hole :: "comparator \<Rightarrow> ptr list \<Rightarrow> nat \<Rightarrow> nat \<Rightarrow> bool" where
  "heap_hole cmp p n h \<longleftrightarrow>
     (\<forall>i \<in> {2..n}. i \<noteq> h \<and> i div 2 \<noteq> h \<longrightarrow> cmp (p ! (i div 2)) (p ! i) \<le> 0) \<and>
     (\<forall>i \<in> {2..n}. i div 2 = h \<longrightarrow> 1 < h \<longrightarrow> cmp (p ! (h div 2)) (p ! i) \<le> 0)"

text \<open>A comparator of heap elements.\<close>

locale heap_cmp = total_cmp cmp for cmp :: comparator
begin

lemma heap_except_swap:
  assumes "heap_except cmp p n c" "n < length p" "c \<in> {1..n}" "1 < c" "\<not> cmp (p ! (c div 2)) (p ! c) < 0"
  shows "heap_except cmp (bubble_swap p c) n (c div 2)"
proof -
  let ?q = "c div 2"
  let ?p = "bubble_swap p c"
  have q: "?q \<in> {1..n}" "c \<noteq> ?q" using half_pos [OF assms(4,3)] by auto
  have nth: "?p ! i = p ! (if i = c then ?q else if i = ?q then c else i)" if "i \<le> n" for i
    unfolding bubble_swap_def using assms(2,3) q that by (intro swap_nth) auto
  have cq: "cmp (p ! c) (p ! ?q) \<le> 0" by (rule cmp_not_less [OF assms(5)])
  have ord: "cmp (p ! (i div 2)) (p ! i) \<le> 0" if "i \<in> {2..n}" "i \<noteq> c" for i
    using assms(1) that by (simp add: heap_except_def)
  have gr: "cmp (p ! ?q) (p ! i) \<le> 0" if "i \<in> {2..n}" "i div 2 = c" for i
    using assms(1,4) that by (simp add: heap_except_def)
  have sib: "cmp (p ! c) (p ! i) \<le> 0" if "i \<in> {2..n}" "i div 2 = ?q" "i \<noteq> c" for i
    using cmp_trans [OF cq] ord [OF that(1,3)] that(2) by simp
  have "cmp (?p ! (i div 2)) (?p ! i) \<le> 0" if i: "i \<in> {2..n}" "i \<noteq> ?q" for i
  proof -
    have le: "i div 2 \<le> n" "i \<le> n" using i by auto
    consider "i = c" | "i div 2 = ?q" "i \<noteq> c" | "i div 2 = c" | "i \<noteq> c" "i div 2 \<noteq> ?q" "i div 2 \<noteq> c"
      by blast
    then show ?thesis
      using nth [OF le(1)] nth [OF le(2)] i q(2) cq sib gr ord by cases auto
  qed
  moreover have "cmp (?p ! (?q div 2)) (?p ! i) \<le> 0" if i: "i \<in> {2..n}" "i div 2 = ?q" "1 < ?q" for i
  proof -
    have "?q div 2 \<noteq> ?q" "?q div 2 \<noteq> c" "?q div 2 \<le> n" using i(3) q by auto
    then have par: "?p ! (?q div 2) = p ! (?q div 2)" using nth by simp
    have up: "cmp (p ! (?q div 2)) (p ! ?q) \<le> 0" using ord [of ?q] i(3) q by auto
    show ?thesis
    proof (cases "i = c")
      case True
      with par up nth [of c] assms(3) show ?thesis by simp
    next
      case False
      moreover from i(2) i(3) have "i \<noteq> ?q" by auto
      ultimately have "?p ! i = p ! i" using nth [of i] i(1) by auto
      with par cmp_trans [OF up] ord [OF i(1) False] i(2) show ?thesis by simp
    qed
  qed
  ultimately show ?thesis by (auto simp: heap_except_def)
qed

lemma heap_bubble_order:
  assumes "heap_except cmp p n c" "n < length p" "c \<in> {1..n}"
  shows "heap_order cmp (fst (heap_bubble cmp p idx c)) n"
  using assms
proof (induction c arbitrary: p idx rule: less_induct)
  case (less c)
  show ?case
  proof (cases "1 < c \<and> \<not> cmp (p ! (c div 2)) (p ! c) < 0")
    case True
    then have q: "c div 2 \<in> {1..n}" "c div 2 < c" using half_pos less.prems(3) by auto
    show ?thesis
      unfolding heap_bubble_step [of c cmp p idx, OF conjunct1 [OF True] conjunct2 [OF True]]
      using True less.prems(2) q by (intro less.IH heap_except_swap less.prems) auto
  next
    case False
    then have "cmp (p ! (c div 2)) (p ! c) \<le> 0" if "1 < c" using that by auto
    with less.prems(1) False show ?thesis
      by (auto simp: heap_bubble_stop heap_order_def heap_except_def)
  qed
qed

lemma heap_hole_move:
  assumes "heap_hole cmp p n h" "n < length p" "h \<in> {1..n}" "2 * h \<le> n"
  defines "c \<equiv> down_child cmp n p h"
  shows "heap_hole cmp (p[h := p ! c]) n c"
proof -
  let ?p = "p[h := p ! c]"
  have h: "0 < h" using assms(3) by simp
  have c: "c \<in> {1..n}" "h < c" "c div 2 = h" unfolding c_def by (rule down_child_pos [OF h assms(4)])+
  have nth: "?p ! i = (if i = h then p ! c else p ! i)" if "i \<le> n" for i
    using assms(2) that by (auto simp: nth_list_update)
  have ord: "cmp (p ! (i div 2)) (p ! i) \<le> 0" if "i \<in> {2..n}" "i \<noteq> h" "i div 2 \<noteq> h" for i
    using assms(1) that by (simp add: heap_hole_def)
  have gr: "cmp (p ! (h div 2)) (p ! c) \<le> 0" if "1 < h"
    using assms(1) that c by (auto simp: heap_hole_def)
  have sib: "cmp (p ! c) (p ! i) \<le> 0" if "i \<in> {2..n}" "i div 2 = h" for i
  proof -
    from that(2) have "i = 2 * h \<or> i = 2 * h + 1" by auto
    then show ?thesis
      using that(1) cmp_refl cmp_not_less [of "p ! (2 * h + 1)" "p ! (2 * h)"] unfolding c_def down_child_def
      by (auto intro: order_less_imp_le)
  qed
  have "cmp (?p ! (i div 2)) (?p ! i) \<le> 0" if i: "i \<in> {2..n}" "i \<noteq> c" "i div 2 \<noteq> c" for i
  proof -
    have le: "i div 2 \<le> n" "i \<le> n" using i(1) by auto
    consider "i = h" | "i div 2 = h" "i \<noteq> h" | "i \<noteq> h" "i div 2 \<noteq> h" by blast
    then show ?thesis
      using nth [OF le(1)] nth [OF le(2)] i gr sib ord by cases auto
  qed
  moreover have "cmp (?p ! (c div 2)) (?p ! i) \<le> 0" if i: "i \<in> {2..n}" "i div 2 = c" for i
  proof -
    have "i \<noteq> h" "i \<le> n" "h \<le> n" using i c by auto
    then show ?thesis using ord [of i] nth [of i] nth [of h] i c by auto
  qed
  ultimately show ?thesis by (auto simp: heap_hole_def)
qed

lemma heap_down_order:
  assumes "heap_hole cmp p n h" "n < length p" "h \<in> {1..n}" "heap_down cmp n p idx h (2 * h) = (p', idx', h')"
  shows "heap_hole cmp p' n h'"
  using assms
proof (induction "n - h" arbitrary: p idx h rule: less_induct)
  case less
  show ?case
  proof (cases "2 * h \<le> n")
    case True
    let ?c = "down_child cmp n p h"
    have h: "0 < h" using less.prems(3) by simp
    note c = down_child_pos [OF h True, of cmp p]
    have ch: "n - ?c < n - h" using c(1,2) by auto
    show ?thesis
      using less.hyps [OF ch heap_hole_move [OF less.prems(1-3) True] _ c(1)] less.prems(2,4)
      unfolding heap_down_step [OF h True] by (simp del: One_nat_def fun_upd_apply)
  next
    case False
    with less.prems show ?thesis by (simp add: heap_down_stop)
  qed
qed

lemma heap_hole_fill:
  assumes "heap_hole cmp p n h" "n < length p" "h \<in> {1..n - 1}" "n < 2 * h"
  shows "heap_except cmp (p[h := x]) (n - 1) h"
  using assms by (auto simp: heap_hole_def heap_except_def nth_list_update)

lemma heap_hole_top:
  assumes "heap_hole cmp p n n" "0 < n"
  shows "heap_order cmp p (n - 1)"
  unfolding heap_order_def
proof
  fix i assume "i \<in> {2..n - 1}"
  then have "i \<in> {2..n}" "i \<noteq> n" "i div 2 \<noteq> n" by auto
  with assms(1) show "cmp (p ! (i div 2)) (p ! i) \<le> 0" by (simp add: heap_hole_def)
qed

lemma heap_order_hole:
  assumes "heap_order cmp p n" "h \<in> {1..n}"
  shows "heap_hole cmp p n h"
proof -
  have "cmp (p ! (h div 2)) (p ! i) \<le> 0" if "i \<in> {2..n}" "i div 2 = h" "1 < h" for i
    using cmp_trans [of "p ! (h div 2)" "p ! h" "p ! i"] assms that by (auto simp: heap_order_def)
  with assms(1) show ?thesis by (auto simp: heap_hole_def heap_order_def)
qed

lemma heap_order_root:
  assumes "heap_order cmp p n" "i \<in> {1..n}"
  shows "cmp (p ! 1) (p ! i) \<le> 0"
  using assms(2)
proof (induction i rule: less_induct)
  case (less i)
  show ?case
  proof (cases "i = 1")
    case True
    with cmp_refl show ?thesis by simp
  next
    case False
    with less.prems have i: "i \<in> {2..n}" "i div 2 \<in> {1..n}" "i div 2 < i" by auto
    with cmp_trans [OF less.IH [OF i(3,2)]] assms(1) show ?thesis by (simp add: heap_order_def)
  qed
qed

end

subsection \<open>Insertion and extraction\<close>

definition heap_ok :: "comparator \<Rightarrow> fr_heap \<Rightarrow> heap_idx \<Rightarrow> bool" where
  "heap_ok cmp h idx \<longleftrightarrow>
     heap_wf h \<and> idx_ok (hp_p h) (hp_num h) idx 0 \<and> heap_order cmp (hp_p h) (hp_num h)"

lemma grow_size_larger: "heap_grow_size n = Some m \<Longrightarrow> 0 < n \<Longrightarrow> n \<le> UINT_MAX \<Longrightarrow> n < m \<and> m \<le> UINT_MAX"
  by (auto simp: heap_grow_size_def split: if_splits)

lemma realloc_heap_keeps:
  assumes "realloc_heap al h m = Some h1" "length (hp_p h) = hp_size h + 1"
  shows "length (hp_p h1) = m + 1 \<and> hp_size h1 = m \<and> hp_num h1 = hp_num h \<and> hp_min h1 = hp_min h \<and>
    (\<forall>i. i \<le> m \<and> i \<le> hp_size h \<longrightarrow> hp_p h1 ! i = hp_p h ! i)"
  using assms by (auto simp: realloc_heap_def nth_append split: if_splits)

text \<open>The array entries that are in use determine the order and the indexes.\<close>

lemma idx_ok_cong:
  assumes "\<And>i. i \<in> {1..n} \<Longrightarrow> q ! i = p ! i"
  shows "idx_ok q n idx c = idx_ok p n idx c" "(!) q ` {1..n} = (!) p ` {1..n}"
proof -
  show img: "(!) q ` {1..n} = (!) p ` {1..n}" using assms by (intro image_cong) simp_all
  have "inj_on ((!) q) {1..n} = inj_on ((!) p) {1..n}" by (intro inj_on_cong assms)
  then show "idx_ok q n idx c = idx_ok p n idx c" unfolding idx_ok_def img using assms by auto
qed

lemma heap_except_cong:
  assumes "\<And>i. i \<in> {1..n} \<Longrightarrow> q ! i = p ! i"
  shows "heap_except cmp q n c = heap_except cmp p n c" "heap_order cmp q n = heap_order cmp p n"
proof -
  have eq: "q ! i = p ! i \<and> q ! (i div 2) = p ! (i div 2) \<and> q ! (i div 2 div 2) = (if i div 2 div 2 = 0 then q ! 0 else p ! (i div 2 div 2))" if "i \<in> {2..n}" for i
  proof -
    have "i \<in> {1..n}" "i div 2 \<in> {1..n}" "i div 2 div 2 = 0 \<or> i div 2 div 2 \<in> {1..n}" using that by auto
    then show ?thesis using assms by auto
  qed
  show "heap_order cmp q n = heap_order cmp p n" using eq unfolding heap_order_def by (metis (lifting))
  show "heap_except cmp q n c = heap_except cmp p n c" using eq unfolding heap_except_def by (intro arg_cong2 [where f = "(\<and>)"] ball_cong) auto
qed

lemma fr_heap_bubble_ok:
  assumes "0 < hp_num h" "c \<in> {1..hp_num h}" "heap_wf h" "idx_ok (hp_p h) (hp_num h) idx c"
    "fr_heap_bubble cmp h idx c = (h', idx')"
  shows "heap_wf h' \<and> idx_ok (hp_p h') (hp_num h') idx' 0 \<and> hp_num h' = hp_num h \<and> heap_items h' = heap_items h"
proof -
  have "hp_num h < length (hp_p h)" using assms(3) by (simp add: heap_wf_def)
  from heap_bubble_positions [OF assms(4) this assms(2), of cmp] assms(2,3,5) show ?thesis
    by (auto simp: fr_heap_bubble_def heap_wf_def heap_items_def Let_def simp del: One_nat_def)
qed

lemma idx_ok_items: "idx_ok p n idx 0 \<Longrightarrow> x \<in> (!) p ` {1..n} \<longleftrightarrow> idx x \<noteq> 0"
  unfolding idx_ok_def by fastforce

lemma idx_ok_snoc:
  assumes "idx_ok p n idx 0" "idx x = 0" "x \<noteq> NULL" "n + 1 < length p"
  shows "idx_ok (p[n + 1 := x]) (n + 1) idx (n + 1)"
    and "(!) (p[n + 1 := x]) ` {1..n + 1} = insert x ((!) p ` {1..n})"
proof -
  let ?p = "p[n + 1 := x]"
  have same: "?p ! i = p ! i" if "i \<in> {1..n}" for i using that by auto
  have top: "?p ! (n + 1) = x" using assms(4) by simp
  have split: "{1..n + 1} = insert (n + 1) {1..n}" by auto
  have cong: "idx_ok ?p n idx 0 = idx_ok p n idx 0" "(!) ?p ` {1..n} = (!) p ` {1..n}"
    by (rule idx_ok_cong, erule same)+
  show img: "(!) ?p ` {1..n + 1} = insert x ((!) p ` {1..n})"
    unfolding split image_insert top cong(2) ..
  have new: "x \<notin> (!) p ` {1..n}" using idx_ok_items [OF assms(1)] assms(2) by blast
  have p: "idx_ok ?p n idx 0" using assms(1) cong(1) by blast
  then have "inj_on ((!) ?p) {1..n + 1}"
    unfolding split inj_on_insert top using new cong(2) by (auto simp: idx_ok_def simp del: One_nat_def)
  moreover have "?p ! i \<noteq> NULL \<and> (i \<noteq> n + 1 \<longrightarrow> idx (?p ! i) = i)" if "i \<in> {1..n + 1}" for i
    using p that top assms(3) unfolding split idx_ok_def by auto
  moreover have "idx y = 0" if "y \<notin> (!) ?p ` {1..n + 1}" for y
    using assms(1) that unfolding img idx_ok_def by blast
  ultimately show "idx_ok ?p (n + 1) idx (n + 1)" unfolding idx_ok_def by blast
qed

lemma heap_order_snoc:
  assumes "heap_order cmp p n"
  shows "heap_except cmp (p[n + 1 := x]) (n + 1) (n + 1)"
proof -
  have "heap_order cmp (p[n + 1 := x]) n" using assms heap_except_cong(2) [of n "p[n + 1 := x]" p cmp] by auto
  then show ?thesis unfolding heap_order_def heap_except_def by auto
qed

lemma heap_insert_room:
  assumes "heap_wf h" "hp_num h < UINT_MAX"
    "(if hp_num h + 1 > hp_size h
      then (case heap_grow_size (hp_size h) of None \<Rightarrow> None | Some n_size \<Rightarrow> realloc_heap al h n_size)
      else Some h) = r"
  shows "case r of None \<Rightarrow> \<not> al
    | Some h1 \<Rightarrow> heap_wf h1 \<and> hp_num h1 = hp_num h \<and> hp_num h + 1 \<le> hp_size h1 \<and> hp_num h1 + 1 < length (hp_p h1) \<and>
        (\<forall>i \<in> {1..hp_num h}. hp_p h1 ! i = hp_p h ! i)"
proof (cases "hp_num h + 1 > hp_size h")
  case True
  with assms have sz: "hp_size h = hp_num h" "hp_size h < UINT_MAX" "0 < hp_size h" "length (hp_p h) = hp_size h + 1"
    by (auto simp: heap_wf_def)
  then obtain m where m: "heap_grow_size (hp_size h) = Some m"
    by (cases "heap_grow_size (hp_size h)") (auto simp: heap_grow_size_def split: if_splits)
  then have m': "hp_size h < m" "m \<le> UINT_MAX" using grow_size_larger sz by auto
  have r: "r = realloc_heap al h m" using assms(3) True m by simp
  show ?thesis
  proof (cases r)
    case None
    with r show ?thesis by (simp add: realloc_heap_def split: if_splits)
  next
    case (Some h1)
    note k = realloc_heap_keeps [OF r [symmetric, unfolded Some] sz(4)]
    have "hp_p h1 ! i = hp_p h ! i" if "i \<le> hp_num h" for i using k m' sz(1) that by simp
    with k m' sz(1) Some assms(1) show ?thesis by (simp add: heap_wf_def)
  qed
next
  case False
  with assms show ?thesis by (auto simp: heap_wf_def)
qed

context heap_cmp begin

lemma insert_ok:
  assumes "heap_ok cmp h idx" "x \<noteq> NULL" "hp_num h < UINT_MAX" "fr_heap_insert al cmp (Some h) idx x = (rc, hp', idx')"
  shows "(rc = 0 \<and> idx x = 0 \<and> (\<exists>h'. hp' = Some h' \<and> heap_ok cmp h' idx' \<and> heap_items h' = insert x (heap_items h) \<and> hp_num h' = hp_num h + 1)) \<or>
    (rc = - 1 \<and> hp' = Some h \<and> idx' = idx \<and> (idx x \<noteq> 0 \<or> \<not> al))"
proof (cases "idx x = 0")
  case True
  have child: "(hp_num h + 1) mod 4294967296 = hp_num h + 1" using assms(3) by simp
  obtain r where r: "(if hp_num h + 1 > hp_size h
      then (case heap_grow_size (hp_size h) of None \<Rightarrow> None | Some n_size \<Rightarrow> realloc_heap al h n_size)
      else Some h) = r" by blast
  note ins = assms(4) [unfolded fr_heap_insert_def option.case Let_def, unfolded child r]
  from assms(1) have h: "heap_wf h" "idx_ok (hp_p h) (hp_num h) idx 0" "heap_order cmp (hp_p h) (hp_num h)"
    by (simp_all add: heap_ok_def)
  note room = heap_insert_room [OF h(1) assms(3) r]
  show ?thesis
  proof (cases r)
    case None
    with ins True room show ?thesis by simp
  next
    case (Some h1)
    let ?n = "hp_num h + 1"
    let ?h2 = "h1\<lparr>hp_p := (hp_p h1)[?n := x], hp_num := ?n\<rparr>"
    obtain h' where b: "fr_heap_bubble cmp ?h2 idx ?n = (h', idx')" "rc = 0" "hp' = Some h'"
      using ins True Some by (cases "fr_heap_bubble cmp ?h2 idx ?n") simp
    have h1: "heap_wf h1" "hp_num h1 = hp_num h" "?n \<le> hp_size h1" "?n < length (hp_p h1)"
      "\<And>i. i \<in> {1..hp_num h} \<Longrightarrow> hp_p h1 ! i = hp_p h ! i"
      using room Some by simp_all
    have p1: "idx_ok (hp_p h1) (hp_num h) idx 0" "heap_order cmp (hp_p h1) (hp_num h)"
      "(!) (hp_p h1) ` {1..hp_num h} = heap_items h"
      using h idx_ok_cong [OF h1(5)] heap_except_cong(2) [OF h1(5)] unfolding heap_items_def by blast+
    note sn = idx_ok_snoc [OF p1(1) True assms(2) h1(4)]
    have "heap_wf ?h2" using h1 by (simp add: heap_wf_def)
    moreover have "heap_items ?h2 = insert x (heap_items h)" using sn(2) p1(3) by (simp add: heap_items_def)
    ultimately have "heap_wf h' \<and> idx_ok (hp_p h') (hp_num h') idx' 0 \<and> hp_num h' = ?n \<and>
        heap_items h' = insert x (heap_items h)"
      using fr_heap_bubble_ok [OF _ _ _ _ b(1)] sn(1) by auto
    moreover have "heap_order cmp (hp_p h') ?n"
      using heap_bubble_order [OF heap_order_snoc [OF p1(2), of x], of idx] h1(4) b(1)
      by (auto simp: fr_heap_bubble_def Let_def)
    ultimately show ?thesis using b(2,3) True by (auto simp: heap_ok_def)
  qed
next
  case False
  with assms(4) show ?thesis by (auto simp: fr_heap_insert_def)
qed

end


lemma heap_shrink_keeps:
  assumes "heap_wf h" "hp_num h + 1 \<le> hp_size h" "heap_shrink al h = h2"
  shows "heap_wf h2 \<and> hp_num h2 = hp_num h \<and> hp_num h + 1 \<le> hp_size h2 \<and>
    (\<forall>i \<in> {1..hp_num h + 1}. hp_p h2 ! i = hp_p h ! i)"
proof -
  let ?m = "1 + (hp_size h - 1) div 2"
  consider (same) "h2 = h" | (smaller) "hp_num h * 2 < hp_size h" "realloc_heap al h ?m = Some h2"
    using assms(3) by (auto simp: heap_shrink_def Let_def split: if_splits option.splits)
  then show ?thesis
  proof cases
    case same
    with assms show ?thesis by simp
  next
    case smaller
    have len: "length (hp_p h) = hp_size h + 1" using assms(1) by (simp add: heap_wf_def)
    note k = realloc_heap_keeps [OF smaller(2) len]
    have m: "hp_num h + 1 \<le> ?m" "?m \<le> hp_size h" using smaller(1) assms(2) by auto
    then have "hp_p h2 ! i = hp_p h ! i" if "i \<le> hp_num h + 1" for i using k that by simp
    with k m assms(1) show ?thesis by (simp add: heap_wf_def)
  qed
qed

text \<open>Filling the hole with the last entry leaves its index alone stale.\<close>

lemma hole_ok_fill:
  assumes "hole_ok p n idx h" "n < length p" "h \<in> {1..n - 1}"
  shows "idx_ok (p[h := p ! n]) (n - 1) idx h" "(!) (p[h := p ! n]) ` {1..n - 1} = (!) p ` ({1..n} - {h})"
proof -
  have n: "0 < n" "h \<in> {1..n}" "n \<in> {1..n}" "n \<noteq> h" using assms(3) by auto
  note mv = hole_ok_move [OF assms(1,2) n(2-4)]
  have "(p[h := p ! n]) ! h = p ! n" using assms(2) n(2) by simp
  with mv(2) have "idx_ok (p[h := p ! n]) (n - 1) (idx((p[h := p ! n]) ! h := h)) 0"
    using hole_ok_top [OF n(1)] by simp
  then show "idx_ok (p[h := p ! n]) (n - 1) idx h" by (rule idx_ok_stale [OF _ assms(3)])
  show "(!) (p[h := p ! n]) ` {1..n - 1} = (!) p ` ({1..n} - {h})"
    using mv(1) unfolding minus_top [OF n(1)] .
qed

lemma hole_cong:
  assumes "\<forall>i \<in> {1..n}. q ! i = p ! i"
  shows "hole_ok q n idx k = hole_ok p n idx k" "(!) q ` ({1..n} - {k}) = (!) p ` ({1..n} - {k})"
    "heap_hole cmp q n k = heap_hole cmp p n k"
proof -
  show img: "(!) q ` ({1..n} - {k}) = (!) p ` ({1..n} - {k})" using assms by (intro image_cong) simp_all
  have "inj_on ((!) q) ({1..n} - {k}) = inj_on ((!) p) ({1..n} - {k})" using assms by (intro inj_on_cong) simp
  then show "hole_ok q n idx k = hole_ok p n idx k" unfolding hole_ok_def img using assms by auto
  have "i \<in> {1..n} \<and> i div 2 \<in> {1..n} \<and> (1 < i div 2 \<longrightarrow> i div 2 div 2 \<in> {1..n})" if "i \<in> {2..n}" for i
    using that by auto
  with assms show "heap_hole cmp q n k = heap_hole cmp p n k"
    unfolding heap_hole_def by (intro arg_cong2 [where f = "(\<and>)"] ball_cong) auto
qed

context heap_cmp begin

text \<open>The end of \<open>fr_heap_extract\<close>: the last entry fills the hole, or the hole is the last entry.\<close>

lemma refill_ok:
  assumes "heap_wf h" "hp_num h = n - 1" "n \<le> hp_size h" "hole_ok (hp_p h) n idx k" "heap_hole cmp (hp_p h) n k"
    "k \<in> {1..n}" "n < 2 * k"
  shows "\<exists>h' idx'. (if k \<noteq> n then
        let r = fr_heap_bubble cmp (h\<lparr>hp_p := (hp_p h)[k := hp_p h ! n]\<rparr>) idx k in (0, Some (fst r), snd r)
      else (0, Some h, idx)) = (0 :: int, Some h', idx') \<and> heap_ok cmp h' idx' \<and>
    heap_items h' = (!) (hp_p h) ` ({1..n} - {k}) \<and> hp_num h' = n - 1"
proof (cases "k = n")
  case True
  with assms(6) have n: "0 < n" by simp
  have "heap_ok cmp h idx"
    using assms(1,2,4,5) n hole_ok_top [of n] heap_hole_top [of "hp_p h" n] True by (simp add: heap_ok_def)
  then show ?thesis using assms(2) True minus_top [OF n] by (auto simp: heap_items_def)
next
  case False
  then have k: "k \<in> {1..n - 1}" using assms(6) by auto
  let ?h = "h\<lparr>hp_p := (hp_p h)[k := hp_p h ! n]\<rparr>"
  obtain h' idx' where b: "fr_heap_bubble cmp ?h idx k = (h', idx')" by force
  have len: "n < length (hp_p h)" using assms(1,3) by (simp add: heap_wf_def)
  note fill = hole_ok_fill [OF assms(4) len k]
  have h: "0 < hp_num ?h" "k \<in> {1..hp_num ?h}" "heap_wf ?h" "idx_ok (hp_p ?h) (hp_num ?h) idx k"
    using assms(1,2) k fill(1) by (auto simp: heap_wf_def simp del: One_nat_def)
  have "heap_items ?h = (!) (hp_p h) ` ({1..n} - {k})" using fill(2) assms(2) by (simp add: heap_items_def)
  with fr_heap_bubble_ok [OF h b] assms(2)
  have "heap_items h' = (!) (hp_p h) ` ({1..n} - {k})" "hp_num h' = n - 1" by simp_all
  moreover have "heap_wf h'" "idx_ok (hp_p h') (hp_num h') idx' 0" using fr_heap_bubble_ok [OF h b] by blast+
  moreover have "heap_order cmp (hp_p h') (n - 1)"
    using heap_bubble_order [OF heap_hole_fill [OF assms(5) len k assms(7)] _ k, of "hp_p h ! n" idx] len b k
    by (auto simp: fr_heap_bubble_def Let_def)
  ultimately show ?thesis using False b by (auto simp: heap_ok_def)
qed

lemma extract_found:
  assumes "heap_ok cmp h idx" "idx x \<noteq> 0"
  shows "\<exists>h' idx'. fr_heap_extract al cmp (Some h) idx x = (0, Some h', idx') \<and> heap_ok cmp h' idx' \<and>
    heap_items h' = heap_items h - {x} \<and> hp_num h' = hp_num h - 1"
proof -
  let ?n = "hp_num h"
  from assms(1) have h: "heap_wf h" "idx_ok (hp_p h) ?n idx 0" "heap_order cmp (hp_p h) ?n"
    by (simp_all add: heap_ok_def)
  have "x \<in> (!) (hp_p h) ` {1..?n}" using idx_ok_items [OF h(2)] assms(2) by blast
  with idx_okD [OF h(2)] have x: "idx x \<in> {1..?n}" "hp_p h ! idx x = x" by auto
  then have n: "0 < ?n" "?n < length (hp_p h)" using h(1) by (auto simp: heap_wf_def)
  obtain p idx1 k where dn: "heap_down cmp ?n (hp_p h) (idx(x := 0)) (idx x) (2 * idx x) = (p, idx1, k)"
    by (metis prod_cases3)
  note hole = idx_ok_hole [OF h(2) x(1), unfolded x(2)]
  have d: "length p = length (hp_p h)" "p ! 0 = hp_p h ! 0" "k \<in> {1..?n}" "?n < 2 * k"
      "(!) p ` ({1..?n} - {k}) = heap_items h - {x}" "hole_ok p ?n idx1 k" "heap_hole cmp p ?n k"
    using heap_down_positions [OF hole(1) n(2) x(1) dn] hole(2)
      heap_down_order [OF heap_order_hole [OF h(3) x(1)] n(2) x(1) dn]
    by (auto simp: heap_items_def simp del: One_nat_def)
  let ?h1 = "h\<lparr>hp_p := p, hp_num := ?n - 1\<rparr>"
  obtain h2 where h2: "heap_shrink al ?h1 = h2" by blast
  have "heap_wf ?h1" "hp_num ?h1 + 1 \<le> hp_size ?h1" using h(1) d(1,2) n by (auto simp: heap_wf_def)
  note sh = heap_shrink_keeps [OF this h2]
  let ?p = "hp_p h2"
  have s: "heap_wf h2" "hp_num h2 = ?n - 1" "?n \<le> hp_size h2" "\<forall>i \<in> {1..?n}. ?p ! i = p ! i"
    using sh n by auto
  have ex: "fr_heap_extract al cmp (Some h) idx x =
     (if k \<noteq> ?n then
        let r = fr_heap_bubble cmp (h2\<lparr>hp_p := ?p[k := ?p ! ?n]\<rparr>) idx1 k in (0, Some (fst r), snd r)
      else (0, Some h2, idx1))"
    using x n(1) dn h2 by (simp add: fr_heap_extract_def Let_def)
  have p: "hole_ok ?p ?n idx1 k" "(!) ?p ` ({1..?n} - {k}) = heap_items h - {x}" "heap_hole cmp ?p ?n k"
    unfolding hole_cong [where n = ?n and q = ?p and p = p, OF s(4)] by (rule d)+
  show ?thesis unfolding ex p(2) [symmetric] by (rule refill_ok [OF s(1-3) p(1,3) d(3,4)])
qed

lemma pop_ok:
  assumes "heap_ok cmp h idx" "hp_num h \<noteq> 0"
  shows "\<exists>h' idx'. fr_heap_pop al cmp (Some h) idx = (hp_p h ! 1, Some h', idx') \<and> heap_ok cmp h' idx' \<and>
    hp_p h ! 1 \<in> heap_items h \<and> hp_p h ! 1 \<noteq> NULL \<and> heap_items h' = heap_items h - {hp_p h ! 1} \<and>
    hp_num h' = hp_num h - 1 \<and> (\<forall>y \<in> heap_items h. cmp (hp_p h ! 1) y \<le> 0)"
proof -
  have one: "1 \<in> {1..hp_num h}" using assms(2) by simp
  have h: "idx_ok (hp_p h) (hp_num h) idx 0" "heap_order cmp (hp_p h) (hp_num h)"
    using assms(1) by (simp_all add: heap_ok_def)
  from idx_okD [OF h(1) one] have "idx (hp_p h ! 1) \<noteq> 0" by simp
  from extract_found [OF assms(1) this, of al] obtain h' idx' where
    e: "fr_heap_extract al cmp (Some h) idx (hp_p h ! 1) = (0, Some h', idx')" "heap_ok cmp h' idx'"
      "heap_items h' = heap_items h - {hp_p h ! 1}" "hp_num h' = hp_num h - 1" by blast
  moreover have "hp_p h ! 1 \<in> heap_items h" unfolding heap_items_def using one by (rule imageI)
  moreover have "hp_p h ! 1 \<noteq> NULL" using h(1) one unfolding idx_ok_def by blast
  moreover have "\<forall>y \<in> heap_items h. cmp (hp_p h ! 1) y \<le> 0"
    unfolding heap_items_def using heap_order_root [OF h(2)] by blast
  ultimately show ?thesis using assms(2) by (simp add: fr_heap_pop_def del: One_nat_def)
qed

end

subsection \<open>A priority queue\<close>

lemma card_heap_items: "heap_ok cmp h idx \<Longrightarrow> card (heap_items h) = hp_num h"
  unfolding heap_items_def heap_ok_def idx_ok_def by (simp add: card_image)

lemma finite_heap_items: "finite (heap_items h)"
  by (simp add: heap_items_def)

lemma heap_items_idx: "heap_ok cmp h idx \<Longrightarrow> x \<in> heap_items h \<longleftrightarrow> idx x \<noteq> 0"
  unfolding heap_ok_def heap_items_def using idx_ok_items by blast

lemma heap_empty: "heap_items h = {} \<longleftrightarrow> hp_num h = 0"
  by (auto simp: heap_items_def)

text \<open>How the code that owns a heap takes and adds elements.\<close>

definition heap_take :: "bool \<Rightarrow> comparator \<Rightarrow> fr_heap \<times> heap_idx \<Rightarrow> (ptr \<times> fr_heap \<times> heap_idx) option" where
  "heap_take al cmp s =
     (case fr_heap_pop al cmp (Some (fst s)) (snd s) of
        (x, Some h', idx') \<Rightarrow> if x = NULL then None else Some (x, h', idx')
      | (x, None, idx') \<Rightarrow> None)"

definition heap_enter :: "bool \<Rightarrow> comparator \<Rightarrow> fr_heap \<times> heap_idx \<Rightarrow> ptr \<Rightarrow> (fr_heap \<times> heap_idx) option" where
  "heap_enter al cmp s x =
     (case fr_heap_insert al cmp (Some (fst s)) (snd s) x of
        (rc, Some h', idx') \<Rightarrow> if rc = 0 then Some (h', idx') else None
      | (rc, None, idx') \<Rightarrow> None)"

lemma pop_empty: "hp_num h = 0 \<Longrightarrow> fr_heap_pop al cmp (Some h) idx = (NULL, Some h, idx)"
  by (simp add: fr_heap_pop_def)

context heap_cmp begin

lemma heap_take_some:
  assumes "heap_ok cmp (fst s) (snd s)" "heap_take al cmp s = Some (x, s')"
  shows "heap_ok cmp (fst s') (snd s') \<and> x \<in> heap_items (fst s) \<and> heap_items (fst s') = heap_items (fst s) - {x} \<and>
    (\<forall>y \<in> heap_items (fst s). cmp x y \<le> 0)"
proof (cases "hp_num (fst s) = 0")
  case True
  with assms(2) show ?thesis by (simp add: heap_take_def pop_empty)
next
  case False
  from pop_ok [OF assms(1) False, of al] assms(2) show ?thesis
    by (auto simp: heap_take_def simp del: One_nat_def)
qed

lemma heap_take_none:
  assumes "heap_ok cmp (fst s) (snd s)"
  shows "heap_take al cmp s = None \<longleftrightarrow> heap_items (fst s) = {}"
proof (cases "hp_num (fst s) = 0")
  case True
  then show ?thesis by (simp add: heap_take_def pop_empty heap_empty)
next
  case False
  from pop_ok [OF assms(1) False, of al] False show ?thesis
    by (auto simp: heap_take_def heap_empty simp del: One_nat_def)
qed

lemma heap_enter_some:
  assumes "heap_ok cmp (fst s) (snd s)" "x \<noteq> NULL" "x \<notin> heap_items (fst s)" "card (heap_items (fst s)) < UINT_MAX"
  shows "\<exists>s'. heap_enter True cmp s x = Some s' \<and> heap_ok cmp (fst s') (snd s') \<and>
    heap_items (fst s') = insert x (heap_items (fst s))"
proof -
  obtain rc hp' idx' where r: "fr_heap_insert True cmp (Some (fst s)) (snd s) x = (rc, hp', idx')"
    by (metis prod_cases3)
  have "snd s x = 0" "hp_num (fst s) < UINT_MAX"
    using heap_items_idx [OF assms(1)] assms(3,4) card_heap_items [OF assms(1)] by auto
  with insert_ok [OF assms(1,2) _ r] r show ?thesis by (auto simp: heap_enter_def)
qed

end

sublocale heap_cmp \<subseteq> pq: prio_queue "\<lambda>s. heap_ok cmp (fst s) (snd s)" "\<lambda>s. heap_items (fst s)"
    "\<lambda>x y. cmp x y \<le> 0" "heap_take al cmp" "heap_enter True cmp" "\<lambda>x. x \<noteq> NULL" UINT_MAX for al
  by unfold_locales
    (rule finite_heap_items heap_take_none heap_take_some heap_enter_some; assumption)+

interpretation ptr_heap: heap_cmp fr_pointer_cmp
  by unfold_locales

interpretation cache_heap: heap_cmp "cache_heap_cmp expires" for expires
  by unfold_locales

interpretation reply_heap: heap_cmp "reply_cmp priority when_of" for priority when_of
  by unfold_locales
subsection \<open>Every heap the code can build\<close>

text \<open>
  The heaps that the operations can reach from an allocation, in any order; an element's index field
  starts at 0.
\<close>

inductive heap_run :: "comparator \<Rightarrow> fr_heap \<Rightarrow> heap_idx \<Rightarrow> bool" for cmp where
  run_alloc: "fr_heap_alloc al init = Some h \<Longrightarrow> init \<le> UINT_MAX \<Longrightarrow> heap_run cmp h (\<lambda>_. 0)"
| run_insert: "heap_run cmp h idx \<Longrightarrow> data \<noteq> NULL \<Longrightarrow> hp_num h < UINT_MAX \<Longrightarrow>
    fr_heap_insert al cmp (Some h) idx data = (rc, Some h', idx') \<Longrightarrow> heap_run cmp h' idx'"
| run_extract: "heap_run cmp h idx \<Longrightarrow>
    fr_heap_extract al cmp (Some h) idx data = (rc, Some h', idx') \<Longrightarrow> heap_run cmp h' idx'"
| run_pop: "heap_run cmp h idx \<Longrightarrow>
    fr_heap_pop al cmp (Some h) idx = (x, Some h', idx') \<Longrightarrow> heap_run cmp h' idx'"

lemma alloc_ok:
  assumes "fr_heap_alloc al init = Some h" "init \<le> UINT_MAX"
  shows "heap_ok cmp h (\<lambda>_. 0) \<and> heap_items h = {} \<and> hp_num h = 0"
  using assms by (auto simp: fr_heap_alloc_def heap_ok_def heap_wf_def idx_ok_def heap_order_def heap_items_def Let_def split: if_splits)

lemma extract_missing:
  "idx x = 0 \<Longrightarrow> fr_heap_extract al cmp (Some h) idx x = (- 1, Some h, idx)"
  by (simp add: fr_heap_extract_def)

lemma heap_ok_verify:
  assumes "heap_ok cmp h idx"
  shows "fr_heap_verify cmp h idx"
proof -
  from assms have h: "heap_wf h" "idx_ok (hp_p h) (hp_num h) idx 0" "heap_order cmp (hp_p h) (hp_num h)"
    by (simp_all add: heap_ok_def)
  have "hp_p h ! i \<noteq> NULL \<and> idx (hp_p h ! i) = i" if "i \<in> {1..hp_num h}" for i
    using h(2) that unfolding idx_ok_def by auto
  moreover have "cmp (hp_p h ! i) (hp_p h ! (2 * i)) \<le> 0" if "0 < i" "2 * i \<le> hp_num h" for i
    using h(3) that unfolding heap_order_def by (auto dest: bspec [of _ _ "2 * i"])
  moreover have "cmp (hp_p h ! i) (hp_p h ! (2 * i + 1)) \<le> 0" if "0 < i" "2 * i + 1 \<le> hp_num h" for i
    using h(3) that unfolding heap_order_def by (auto dest: bspec [of _ _ "2 * i + 1"])
  ultimately show ?thesis using h(1) unfolding fr_heap_verify_def heap_wf_def by (auto simp: list_all_iff)
qed

context heap_cmp begin

lemma run_ok: "heap_run cmp h idx \<Longrightarrow> heap_ok cmp h idx"
proof (induction rule: heap_run.induct)
  case (run_alloc al init h)
  then show ?case using alloc_ok by blast
next
  case (run_insert h idx data al rc h' idx')
  from insert_ok [OF run_insert.IH run_insert.hyps(2-4)] run_insert.IH show ?case by auto
next
  case (run_extract h idx al data rc h' idx')
  then show ?case
    using extract_found [OF run_extract.IH, of data al] extract_missing [of idx data al cmp h]
    by (cases "idx data = 0") auto
next
  case (run_pop h idx al x h' idx')
  then show ?case
    using pop_ok [OF run_pop.IH, of al] pop_empty [of h al cmp idx]
    by (cases "hp_num h = 0") auto
qed

end

subsection \<open>Properties\<close>

lemma heap_cmpI: "total_cmp cmp \<Longrightarrow> heap_cmp cmp"
  by (simp add: heap_cmp_def)

text \<open>A heap with the elements 5 and 7, for examples.\<close>

lemma sample_heap:
  "heap_run fr_pointer_cmp \<lparr>hp_size = 2, hp_min = 2, hp_num = 2, hp_p = [UINTPTR_MAX, 5, 7]\<rparr> ((\<lambda>_. 0)(7 := 2, 5 := 1))"
proof -
  have 0: "heap_run fr_pointer_cmp \<lparr>hp_size = 2, hp_min = 2, hp_num = 0, hp_p = [UINTPTR_MAX, 0, 0]\<rparr> (\<lambda>_. 0)"
    by (rule run_alloc [of True 2]) (simp_all add: fr_heap_alloc_def numeral_2_eq_2)
  have 1: "heap_run fr_pointer_cmp \<lparr>hp_size = 2, hp_min = 2, hp_num = 1, hp_p = [UINTPTR_MAX, 7, 0]\<rparr> ((\<lambda>_. 0)(7 := 1))"
    by (rule run_insert [OF 0, of 7 True 0])
      (simp_all add: fr_heap_insert_def fr_heap_bubble_def heap_bubble.simps Let_def)
  show ?thesis
    by (rule run_insert [OF 1, of 5 True 0])
      (simp_all add: fr_heap_insert_def fr_heap_bubble_def heap_bubble.simps Let_def fr_pointer_cmp_def CMP_def
        CMP_PREFER_SMALLER_def fun_upd_twist, simp add: numeral_2_eq_2)
qed







text \<open>
  The heap of replies that \<open>network.c\<close> keeps gives out a reply with the smallest priority value, so
  a reply with \<open>PRIORITY_LOW\<close> goes before every waiting reply with \<open>PRIORITY_NOW\<close>.
\<close>

theorem reply_heap_smallest_first:
  assumes "heap_ok (reply_cmp priority when_of) h idx" "hp_num h \<noteq> 0"
  shows "\<exists>x h' idx'. fr_heap_pop al (reply_cmp priority when_of) (Some h) idx = (x, Some h', idx') \<and>
    x \<in> heap_items h \<and> heap_items h' = heap_items h - {x} \<and> (\<forall>y \<in> heap_items h. priority x \<le> priority y)"
proof -
  have "priority x \<le> priority y" if "reply_cmp priority when_of x y \<le> 0" for x y
    using that by (auto simp: reply_cmp_def Let_def CMP_def CMP_PREFER_SMALLER_def of_bool_def not_le split: if_splits)
  with reply_heap.pop_ok [OF assms, of al] show ?thesis by blast
qed

theorem reply_heap_smallest_first_witness:
  "\<exists>h idx h' idx'. heap_items h = {5, 6} \<and>
     fr_heap_pop True (reply_cmp (\<lambda>x. if x = 5 then PRIORITY_NOW else PRIORITY_LOW) (\<lambda>_. 0)) (Some h) idx = (6, Some h', idx') \<and>
     heap_items h' = {5}"
proof -
  let ?cmp = "reply_cmp (\<lambda>x. if x = 5 then PRIORITY_NOW else PRIORITY_LOW) (\<lambda>_. 0)"
  obtain h0 where h0: "fr_heap_alloc True 4 = Some h0" by (simp add: fr_heap_alloc_def)
  have a: "heap_ok ?cmp h0 (\<lambda>_. 0)" "heap_items h0 = {}" using alloc_ok [OF h0, of ?cmp] by simp_all
  have "\<exists>s. enter_all (heap_enter True ?cmp) (h0, \<lambda>_. 0) [5, 6] = Some s \<and> heap_ok ?cmp (fst s) (snd s) \<and>
      heap_items (fst s) = heap_items (fst (h0, (\<lambda>_. 0) :: heap_idx)) \<union> set [5, 6]"
    by (rule reply_heap.pq.enter_all_ok) (simp_all add: a)
  then obtain s where s: "heap_ok ?cmp (fst s) (snd s)" "heap_items (fst s) = {5, 6}"
    unfolding fst_conv a(2) by auto
  then have n: "hp_num (fst s) \<noteq> 0" using heap_empty [of "fst s"] by auto
  from reply_heap_smallest_first [OF s(1) n, of True] s(2) obtain x h' idx' where
    r: "fr_heap_pop True ?cmp (Some (fst s)) (snd s) = (x, Some h', idx')" "x \<in> {5, 6}" "heap_items h' = {5, 6} - {x}"
    "(if x = 5 then PRIORITY_NOW else PRIORITY_LOW :: u32) \<le> PRIORITY_LOW"
    by auto
  from r(2,4) have x: "x = 6" by (auto simp: PRIORITY_NOW_def PRIORITY_LOW_def)
  have "heap_items h' = {5}" unfolding r(3) x by auto
  with r(1) s(2) show ?thesis unfolding x by blast
qed

text \<open>
  At \<open>UINT_MAX\<close> elements the element count of \<open>fr_heap_insert\<close> wraps: the insertion reports success,
  writes the element over the reserved entry 0 and leaves a heap that claims to be empty.
\<close>

theorem fr_heap_insert_wraps:
  assumes "hp_num h = UINT_MAX" "idx data = 0"
  shows "fr_heap_insert al cmp (Some h) idx data = (0, Some (h\<lparr>hp_p := (hp_p h)[0 := data], hp_num := 0\<rparr>), idx)"
  using assms by (simp add: fr_heap_insert_def fr_heap_bubble_def)

theorem fr_heap_insert_wraps_witness:
  "fr_heap_insert True fr_pointer_cmp
     (Some \<lparr>hp_size = UINT_MAX, hp_min = 2048, hp_num = UINT_MAX, hp_p = replicate 4294967296 3\<rparr>) (\<lambda>_. 0) 7 =
   (0, Some \<lparr>hp_size = UINT_MAX, hp_min = 2048, hp_num = 0, hp_p = (replicate 4294967296 3)[0 := 7]\<rparr>, \<lambda>_. 0)"
  using fr_heap_insert_wraps [of "\<lparr>hp_size = UINT_MAX, hp_min = 2048, hp_num = UINT_MAX, hp_p = replicate 4294967296 3\<rparr>"
      "\<lambda>_. 0" 7 True fr_pointer_cmp] by simp

end
