(* ===== verification/Quick_Sort.thy ===== *)
theory Quick_Sort
  imports Cmp "HOL-Library.Multiset"
begin

text \<open>
  \<open>fr_quick_sort\<close> of \<open>src/lib/util/misc.c\<close>, for any comparator of the contract \<open>total_cmp\<close>, and its
  use by \<open>rs_build_dict_list\<close> of \<open>src/bin/radsniff.c\<close>.  \<open>None\<close> is an access outside the array.
\<close>

subsection \<open>The sort\<close>

definition qs_swap :: "'a list \<Rightarrow> int \<Rightarrow> int \<Rightarrow> 'a list" where
  "qs_swap xs a b = xs[nat a := xs ! nat b, nat b := xs ! nat a]"

text \<open>The loop over \<open>i\<close>, up to \<open>hi\<close>; the indexes stay between \<open>pi\<close> at entry and \<open>hi\<close>.\<close>

function qs_loop :: "('a \<Rightarrow> 'a \<Rightarrow> int) \<Rightarrow> 'a list \<Rightarrow> 'a \<Rightarrow> int \<Rightarrow> int \<Rightarrow> int \<Rightarrow> 'a list \<times> int" where
  "qs_loop cmp xs pivot i pi hi =
     (if i < hi then
        if cmp (xs ! nat i) pivot < 0 then qs_loop cmp (qs_swap xs i pi) pivot (i + 1) (pi + 1) hi
        else qs_loop cmp xs pivot (i + 1) pi hi
      else (xs, pi))"
  by pat_completeness auto
termination
  by (relation "measure (\<lambda>(cmp, xs, pivot, i, pi, hi). nat (hi - i))") auto

declare qs_loop.simps [simp del]

lemma qs_loop_pi: "pi \<le> i \<Longrightarrow> i \<le> hi \<Longrightarrow> pi \<le> snd (qs_loop cmp xs pivot i pi hi) \<and> snd (qs_loop cmp xs pivot i pi hi) \<le> hi"
proof (induction cmp xs pivot i pi hi rule: qs_loop.induct)
  case (1 cmp xs pivot i pi hi)
  then show ?case by (subst (1 2) qs_loop.simps) fastforce
qed

function fr_quick_sort :: "('a \<Rightarrow> 'a \<Rightarrow> int) \<Rightarrow> 'a list \<Rightarrow> int \<Rightarrow> int \<Rightarrow> 'a list option" where
  "fr_quick_sort cmp to_sort start hi =
     (if start \<ge> hi then Some to_sort
      else if start < 0 \<or> hi \<ge> int (length to_sort) then None
      else let r = qs_loop cmp to_sort (to_sort ! nat hi) start start hi;
               xs = qs_swap (fst r) hi (snd r)
           in case fr_quick_sort cmp xs start (snd r - 1) of
                None \<Rightarrow> None
              | Some ys \<Rightarrow> fr_quick_sort cmp ys (snd r + 1) hi)"
  by pat_completeness auto
termination
proof (relation "measure (\<lambda>(cmp, xs, start, hi). nat (hi - start))", goal_cases)
  case (2 cmp xs start hi r ys)
  then show ?case using qs_loop_pi [of start start hi cmp xs "xs ! nat hi"] by auto
next
  case (3 cmp xs start hi r ys)
  then show ?case using qs_loop_pi [of start start hi cmp xs "xs ! nat hi"] by auto
qed simp

declare fr_quick_sort.simps [simp del]

subsection \<open>Segments\<close>

text \<open>\<open>ys\<close> has the elements of \<open>xs\<close>, in another order between the positions \<open>a\<close> and \<open>b\<close>.\<close>

definition shuffled :: "'a list \<Rightarrow> 'a list \<Rightarrow> nat \<Rightarrow> nat \<Rightarrow> bool" where
  "shuffled xs ys a b \<longleftrightarrow>
     length ys = length xs \<and> mset ys = mset xs \<and> (\<forall>j. j < a \<or> b < j \<longrightarrow> ys ! j = xs ! j) \<and>
     (!) ys ` {a..b} = (!) xs ` {a..b}"

definition seg_sorted :: "('a \<Rightarrow> 'a \<Rightarrow> int) \<Rightarrow> 'a list \<Rightarrow> nat \<Rightarrow> nat \<Rightarrow> bool" where
  "seg_sorted cmp xs a b \<longleftrightarrow> (\<forall>j k. a \<le> j \<and> j \<le> k \<and> k \<le> b \<longrightarrow> cmp (xs ! j) (xs ! k) \<le> 0)"

lemma shuffled_refl: "shuffled xs xs a b"
  by (simp add: shuffled_def)

lemma shuffled_trans: "shuffled xs ys a b \<Longrightarrow> shuffled ys zs a b \<Longrightarrow> shuffled xs zs a b"
  by (simp add: shuffled_def)

lemma shuffled_mono:
  assumes "shuffled xs ys a b" "c \<le> a" "b \<le> d"
  shows "shuffled xs ys c d"
proof -
  have "{c..d} = {a..b} \<union> ({c..d} - {a..b})" using assms(2,3) by auto
  moreover have "(!) ys ` ({c..d} - {a..b}) = (!) xs ` ({c..d} - {a..b})"
    using assms(1) by (intro image_cong) (auto simp: shuffled_def not_le)
  ultimately have "(!) ys ` {c..d} = (!) xs ` {c..d}"
    using assms(1) unfolding shuffled_def by (metis image_Un)
  with assms show ?thesis by (auto simp: shuffled_def)
qed

lemma shuffled_swap:
  assumes "a \<le> i" "i \<le> b" "a \<le> j" "j \<le> b" "b < length xs"
  shows "shuffled xs (xs[i := xs ! j, j := xs ! i]) a b"
proof -
  let ?s = "\<lambda>k. if k = i then j else if k = j then i else k"
  let ?ys = "xs[i := xs ! j, j := xs ! i]"
  have nth: "?ys ! k = xs ! ?s k" if "k < length xs" for k using assms that by (auto simp: nth_list_update)
  have "?s ` {a..b} = {a..b}" using assms(1-4) by (auto simp: image_iff)
  moreover have "(!) ?ys ` {a..b} = (\<lambda>k. xs ! ?s k) ` {a..b}" using nth assms(5) by (intro image_cong) simp_all
  then have "(!) ?ys ` {a..b} = (!) xs ` (?s ` {a..b})" by (simp only: image_image)
  ultimately have "(!) ?ys ` {a..b} = (!) xs ` {a..b}" by (simp only:)
  moreover have "mset ?ys = mset xs" using assms mset_swap [of j xs i] by (simp add: list_update_swap)
  ultimately show ?thesis using assms by (auto simp: shuffled_def)
qed

subsection \<open>Partition\<close>

lemma qs_swap_int: "qs_swap xs (int i) (int j) = xs[i := xs ! j, j := xs ! i]"
  by (simp add: qs_swap_def)

text \<open>What the loop has established when it looks at position \<open>i\<close>.\<close>

definition split_at :: "('a \<Rightarrow> 'a \<Rightarrow> int) \<Rightarrow> 'a list \<Rightarrow> 'a \<Rightarrow> nat \<Rightarrow> nat \<Rightarrow> nat \<Rightarrow> bool" where
  "split_at cmp xs pivot a p i \<longleftrightarrow>
     (\<forall>j. a \<le> j \<and> j < p \<longrightarrow> cmp (xs ! j) pivot < 0) \<and> (\<forall>j. p \<le> j \<and> j < i \<longrightarrow> \<not> cmp (xs ! j) pivot < 0)"

lemma split_at_swap:
  assumes "split_at cmp xs pivot a p i" "a \<le> p" "p \<le> i" "i < length xs" "cmp (xs ! i) pivot < 0"
  shows "split_at cmp (xs[i := xs ! p, p := xs ! i]) pivot a (p + 1) (i + 1)"
  using assms by (auto simp: split_at_def nth_list_update less_Suc_eq)

lemma qs_loop_split:
  assumes "split_at cmp xs (xs ! b) a p i" "a \<le> p" "p \<le> i" "i \<le> b" "b < length xs"
  shows "\<exists>ys q. qs_loop cmp xs (xs ! b) (int i) (int p) (int b) = (ys, int q) \<and> p \<le> q \<and> q \<le> b \<and>
    split_at cmp ys (xs ! b) a q b \<and> ys ! b = xs ! b \<and> shuffled xs ys a b"
  using assms
proof (induction "b - i" arbitrary: xs p i)
  case 0
  then show ?case by (auto simp: qs_loop.simps [of _ _ _ "int i"] shuffled_refl)
next
  case (Suc n)
  then have i: "i < b" "n = b - (i + 1)" "i + 1 \<le> b" by auto
  show ?case
  proof (cases "cmp (xs ! i) (xs ! b) < 0")
    case True
    let ?xs = "xs[i := xs ! p, p := xs ! i]"
    have b: "?xs ! b = xs ! b" using i Suc.prems by (auto simp: nth_list_update)
    have sp: "split_at cmp ?xs (?xs ! b) a (p + 1) (i + 1)"
      unfolding b using Suc.prems i True by (intro split_at_swap) auto
    have sh: "shuffled xs ?xs a b" using Suc.prems i by (intro shuffled_swap) auto
    have st: "qs_loop cmp xs (xs ! b) (int i) (int p) (int b) = qs_loop cmp ?xs (?xs ! b) (int (i + 1)) (int (p + 1)) (int b)"
      unfolding b using i True by (simp add: qs_loop.simps [of cmp xs _ "int i"] qs_swap_int add.commute)
    show ?thesis
      using Suc.hyps(1) [OF i(2) sp _ _ i(3)] Suc.prems(2,3,5) shuffled_trans [OF sh] unfolding st b by fastforce
  next
    case False
    then have sp: "split_at cmp xs (xs ! b) a p (i + 1)"
      using Suc.prems(1) by (auto simp: split_at_def less_Suc_eq)
    have st: "qs_loop cmp xs (xs ! b) (int i) (int p) (int b) = qs_loop cmp xs (xs ! b) (int (i + 1)) (int p) (int b)"
      using i False by (simp add: qs_loop.simps [of cmp xs _ "int i"] add.commute)
    show ?thesis
      using Suc.hyps(1) [OF i(2) sp _ _ i(3)] Suc.prems(2,3,5) unfolding st by fastforce
  qed
qed

text \<open>After the last swap the pivot is at \<open>q\<close>, smaller elements before it and no smaller ones after it.\<close>

lemma partition_ok:
  assumes "a < b" "b < length xs"
  shows "\<exists>ys q zs. qs_loop cmp xs (xs ! b) (int a) (int a) (int b) = (ys, int q) \<and>
    qs_swap ys (int b) (int q) = zs \<and> a \<le> q \<and> q \<le> b \<and> shuffled xs zs a b \<and>
    (\<forall>j. a \<le> j \<and> j < q \<longrightarrow> cmp (zs ! j) (zs ! q) < 0) \<and> (\<forall>j. q < j \<and> j \<le> b \<longrightarrow> \<not> cmp (zs ! j) (zs ! q) < 0)"
proof -
  have "split_at cmp xs (xs ! b) a a a" by (simp add: split_at_def)
  then obtain ys q where q: "qs_loop cmp xs (xs ! b) (int a) (int a) (int b) = (ys, int q)" "a \<le> q" "q \<le> b"
      "split_at cmp ys (xs ! b) a q b" "ys ! b = xs ! b" "shuffled xs ys a b"
    using qs_loop_split [of cmp xs b a a a] assms by auto
  let ?zs = "ys[b := ys ! q, q := ys ! b]"
  have len: "b < length ys" using q(6) assms(2) by (simp add: shuffled_def)
  have zq: "?zs ! q = xs ! b" using q(3,5) len by simp
  have "shuffled ys ?zs a b" using q(2,3) len assms(1) by (intro shuffled_swap) auto
  with q(6) have "shuffled xs ?zs a b" by (rule shuffled_trans)
  moreover have "cmp (?zs ! j) (?zs ! q) < 0" if "a \<le> j" "j < q" for j
    unfolding zq using that q(3,4) by (auto simp: split_at_def)
  moreover have "\<not> cmp (?zs ! j) (?zs ! q) < 0" if "q < j" "j \<le> b" for j
    unfolding zq using that q(4) len by (cases "j = b") (auto simp: split_at_def)
  ultimately show ?thesis using q(1-3) qs_swap_int [of ys b q] by blast
qed

context total_cmp begin

text \<open>Sorting the part below the pivot at \<open>q\<close>, then the part above it, sorts the segment.\<close>

lemma left_sorted:
  assumes "a \<le> q" "\<forall>j. a \<le> j \<and> j < q \<longrightarrow> cmp (zs ! j) (zs ! q) < 0" "\<forall>j. q < j \<and> j \<le> b \<longrightarrow> \<not> cmp (zs ! j) (zs ! q) < 0"
    and "ws = zs \<and> q = a \<or> a < q \<and> shuffled zs ws a (q - 1) \<and> seg_sorted cmp ws a (q - 1)"
  shows "\<forall>j k. a \<le> j \<and> j \<le> k \<and> k \<le> q \<longrightarrow> cmp (ws ! j) (ws ! k) \<le> 0"
    and "\<forall>j. q < j \<and> j \<le> b \<longrightarrow> cmp (ws ! q) (ws ! j) \<le> 0"
proof -
  have out: "ws ! j = zs ! j" if "q \<le> j" for j using assms(4) that by (auto simp: shuffled_def)
  show "\<forall>j. q < j \<and> j \<le> b \<longrightarrow> cmp (ws ! q) (ws ! j) \<le> 0" using assms(3) out cmp_not_less by auto
  have low: "cmp (ws ! j) (ws ! q) \<le> 0" if j: "a \<le> j" "j < q" for j
  proof -
    have "(!) ws ` {a..q - 1} = (!) zs ` {a..q - 1}" using assms(4) j by (auto simp: shuffled_def)
    moreover have "j \<in> {a..q - 1}" using j by auto
    ultimately have "ws ! j \<in> (!) zs ` {a..q - 1}" by blast
    then obtain k where "k \<in> {a..q - 1}" "ws ! j = zs ! k" by blast
    with assms(2) j out [of q] show ?thesis by (auto intro: order_less_imp_le)
  qed
  show "\<forall>j k. a \<le> j \<and> j \<le> k \<and> k \<le> q \<longrightarrow> cmp (ws ! j) (ws ! k) \<le> 0"
  proof (intro allI impI)
    fix j k assume jk: "a \<le> j \<and> j \<le> k \<and> k \<le> q"
    show "cmp (ws ! j) (ws ! k) \<le> 0"
    proof (cases "k = q")
      case True
      with low jk cmp_refl show ?thesis by (cases "j = q") auto
    next
      case False
      with jk assms(4) show ?thesis by (auto simp: seg_sorted_def)
    qed
  qed
qed

lemma right_sorted:
  assumes "\<forall>j k. a \<le> j \<and> j \<le> k \<and> k \<le> q \<longrightarrow> cmp (ws ! j) (ws ! k) \<le> 0" "\<forall>j. q < j \<and> j \<le> b \<longrightarrow> cmp (ws ! q) (ws ! j) \<le> 0"
    and "a \<le> q" "shuffled ws vs (q + 1) b" "seg_sorted cmp vs (q + 1) b"
  shows "seg_sorted cmp vs a b"
  unfolding seg_sorted_def
proof (intro allI impI)
  fix j k assume jk: "a \<le> j \<and> j \<le> k \<and> k \<le> b"
  have out: "vs ! i = ws ! i" if "i \<le> q" for i using assms(4) that by (simp add: shuffled_def)
  consider "k \<le> q" | "q < j" | "j \<le> q" "q < k" by linarith
  then show "cmp (vs ! j) (vs ! k) \<le> 0"
  proof cases
    case 1
    with jk out assms(1) show ?thesis by simp
  next
    case 2
    with jk assms(5) show ?thesis by (simp add: seg_sorted_def)
  next
    case 3
    have "k \<in> {q + 1..b}" using 3 jk by auto
    then have "vs ! k \<in> (!) ws ` {q + 1..b}" using assms(4) unfolding shuffled_def by blast
    then obtain m where "m \<in> {q + 1..b}" "vs ! k = ws ! m" by blast
    with assms(2) have "cmp (ws ! q) (vs ! k) \<le> 0" by simp
    moreover have "cmp (vs ! j) (ws ! q) \<le> 0" using assms(1,3) jk 3 out by simp
    ultimately show ?thesis using cmp_trans by blast
  qed
qed

lemma quick_sort_segment:
  assumes "b < length xs"
  shows "\<exists>ys. fr_quick_sort cmp xs (int a) (int b) = Some ys \<and> shuffled xs ys a b \<and> seg_sorted cmp ys a b"
  using assms
proof (induction "b - a" arbitrary: xs a b rule: less_induct)
  case less
  show ?case
  proof (cases "a < b")
    case True
    obtain ys q zs where q: "qs_loop cmp xs (xs ! b) (int a) (int a) (int b) = (ys, int q)"
        "qs_swap ys (int b) (int q) = zs" "a \<le> q" "q \<le> b" "shuffled xs zs a b"
        "\<forall>j. a \<le> j \<and> j < q \<longrightarrow> cmp (zs ! j) (zs ! q) < 0" "\<forall>j. q < j \<and> j \<le> b \<longrightarrow> \<not> cmp (zs ! j) (zs ! q) < 0"
      using partition_ok [OF True less.prems, of cmp] by blast
    have len: "b < length zs" using q(5) less.prems by (simp add: shuffled_def)
    have "\<exists>ws. fr_quick_sort cmp zs (int a) (int q - 1) = Some ws \<and>
        (ws = zs \<and> q = a \<or> a < q \<and> shuffled zs ws a (q - 1) \<and> seg_sorted cmp ws a (q - 1))"
    proof (cases "a < q")
      case True
      then show ?thesis using less.hyps [of "q - 1" a zs] q(4) len by (simp add: of_nat_diff)
    next
      case False
      with q(3) show ?thesis by (simp add: fr_quick_sort.simps [of cmp zs "int q"])
    qed
    then obtain ws where ws: "fr_quick_sort cmp zs (int a) (int q - 1) = Some ws"
      "ws = zs \<and> q = a \<or> a < q \<and> shuffled zs ws a (q - 1) \<and> seg_sorted cmp ws a (q - 1)" by blast
    then have sw: "shuffled zs ws a b" using q(3,4) shuffled_refl shuffled_mono [of zs ws a "q - 1" a b] by auto
    have "b < length ws" "b - (q + 1) < b - a" using sw len q(3,4) True by (auto simp: shuffled_def)
    then obtain vs where vs: "fr_quick_sort cmp ws (int (q + 1)) (int b) = Some vs" "shuffled ws vs (q + 1) b"
      "seg_sorted cmp vs (q + 1) b" using less.hyps [of b "q + 1" ws] by auto
    have "fr_quick_sort cmp xs (int a) (int b) = Some vs"
      using True less.prems q(1,2) ws(1) vs(1)
      by (simp add: fr_quick_sort.simps [of cmp xs "int a"] Let_def add.commute)
    moreover have "shuffled xs vs a b"
      using q(3,5) sw shuffled_mono [OF vs(2), of a b] by (auto intro: shuffled_trans)
    moreover have "seg_sorted cmp vs a b"
      by (rule right_sorted [OF left_sorted [OF q(3,6,7) ws(2)] q(3) vs(2,3)])
    ultimately show ?thesis by blast
  next
    case False
    then have "j = k" if "a \<le> j \<and> j \<le> k \<and> k \<le> b" for j k using that by linarith
    then have "seg_sorted cmp xs a b" using cmp_refl unfolding seg_sorted_def by metis
    with False shuffled_refl show ?thesis by (auto simp: fr_quick_sort.simps [of cmp xs "int a"])
  qed
qed

end

subsection \<open>Attribute lists of radsniff\<close>

text \<open>\<open>strsep\<close> with the delimiters of \<open>rs_build_dict_list\<close>: the tokens, empty ones included.\<close>

fun strsep_all :: "string \<Rightarrow> string list" where
  "strsep_all [] = [[]]"
| "strsep_all (c # cs) =
     (if c = CHR 0x09 \<or> c = CHR '' '' \<or> c = CHR '','' then [] # strsep_all cs
      else (c # hd (strsep_all cs)) # tl (strsep_all cs))"

datatype 'a dict_list = List_Ok "'a list" nat | List_Error "'a list" | List_Overrun

text \<open>
  \<open>find\<close> is the lookup of an attribute name in the two dictionaries, and \<open>out\<close> the array of \<open>len\<close>
  entries that is filled.
\<close>

fun dict_list_loop :: "(string \<Rightarrow> 'a option) \<Rightarrow> nat \<Rightarrow> string list \<Rightarrow> 'a list \<Rightarrow> nat \<Rightarrow> 'a list + 'a list \<times> nat" where
  "dict_list_loop find_da len [] out i = Inr (out, i)"
| "dict_list_loop find_da len (tok # toks) out i =
     (if tok = [] then dict_list_loop find_da len toks out i
      else if i = len then Inl out
      else case find_da tok of
             None \<Rightarrow> Inl out
           | Some da \<Rightarrow> dict_list_loop find_da len toks (out[i := da]) (i + 1))"

definition rs_build_dict_list ::
  "(string \<Rightarrow> ptr option) \<Rightarrow> (string \<Rightarrow> ptr option) \<Rightarrow> ptr list \<Rightarrow> nat \<Rightarrow> string \<Rightarrow> ptr dict_list" where
  "rs_build_dict_list radius freeradius out len lst =
     (case dict_list_loop (\<lambda>tok. case radius tok of None \<Rightarrow> freeradius tok | Some da \<Rightarrow> Some da) len
             (strsep_all lst) out 0 of
        Inl out' \<Rightarrow> List_Error out'
      | Inr (out', i) \<Rightarrow>
          if i > 1 then (case fr_quick_sort fr_pointer_cmp out' 0 (int i) of
                           None \<Rightarrow> List_Overrun
                         | Some out'' \<Rightarrow> List_Ok out'' i)
          else List_Ok out' i)"

lemma dict_list_loop_fills:
  assumes "\<forall>t \<in> set toks. find_da t = None \<longrightarrow> t = []" "i + length (filter (\<lambda>t. t \<noteq> []) toks) \<le> len" "length out = len"
  shows "dict_list_loop find_da len toks out i =
    Inr (put_at out i (map (\<lambda>t. the (find_da t)) (filter (\<lambda>t. t \<noteq> []) toks)), i + length (filter (\<lambda>t. t \<noteq> []) toks))"
  using assms
proof (induction toks arbitrary: i out)
  case Nil
  then show ?case by (simp add: put_at_def)
next
  case (Cons t toks)
  show ?case
  proof (cases "t = []")
    case True
    with Cons show ?thesis by simp
  next
    case False
    with Cons.prems obtain da where da: "find_da t = Some da" by auto
    have "put_at (out[i := da]) (i + 1) ys = put_at out i (da # ys)" for ys
      using Cons.prems False by (simp add: put_at_def take_Suc_conv_app_nth list_update_beyond)
    with False Cons.IH [of "i + 1" "out[i := da]"] Cons.prems da show ?thesis by simp
  qed
qed

lemma sort_null_first:
  assumes "n < length xs" "xs ! n = NULL"
  shows "\<exists>ys. fr_quick_sort fr_pointer_cmp xs 0 (int n) = Some ys \<and> ys ! 0 = NULL"
proof -
  obtain ys where ys: "fr_quick_sort fr_pointer_cmp xs 0 (int n) = Some ys" "shuffled xs ys 0 n"
      "seg_sorted fr_pointer_cmp ys 0 n"
    using ptr_tc.quick_sort_segment [OF assms(1), of 0] by auto
  have "NULL \<in> (!) xs ` {0..n}" using assms(2) by (intro image_eqI [of _ _ n]) simp_all
  then have "NULL \<in> (!) ys ` {0..n}" using ys(2) by (simp add: shuffled_def)
  then obtain k where k: "k \<le> n" "ys ! k = NULL" by auto
  from ys(3) k(1) have "fr_pointer_cmp (ys ! 0) (ys ! k) \<le> 0" by (simp add: seg_sorted_def)
  with k(2) have "ys ! 0 = NULL"
    by (simp add: fr_pointer_cmp_def CMP_def CMP_PREFER_SMALLER_def of_bool_def split: if_splits)
  with ys(1) show ?thesis by blast
qed

subsection \<open>Properties\<close>

text \<open>
  C15: \<open>fr_quick_sort\<close> returns for every array and every pair of positions inside it, and its
  result has the same elements, sorted between the two positions, both included, and unchanged outside them.
\<close>

theorem fr_quick_sort_sorts:
  assumes "total_cmp cmp" "hi < length xs"
  shows "\<exists>ys. fr_quick_sort cmp xs (int start) (int hi) = Some ys \<and> mset ys = mset xs \<and>
    (\<forall>j k. start \<le> j \<and> j \<le> k \<and> k \<le> hi \<longrightarrow> cmp (ys ! j) (ys ! k) \<le> 0) \<and>
    (\<forall>j. j < start \<or> hi < j \<longrightarrow> ys ! j = xs ! j)"
  using total_cmp.quick_sort_segment [OF assms, of start] unfolding shuffled_def seg_sorted_def by blast

theorem fr_quick_sort_sorts_witness:
  "\<exists>ys. fr_quick_sort fr_pointer_cmp [9, 4, 6, 1] (int 0) (int 2) = Some ys \<and> mset ys = {#9, 4, 6, 1#} \<and> ys ! 3 = 1"
  using fr_quick_sort_sorts [OF ptr_tc.total_cmp_axioms, of 2 "[9, 4, 6, 1]" 0] by auto

text \<open>
  \<open>rs_build_dict_list\<close> passes the number of attributes as the last position to sort.  When the names
  fill the array, which the code accepts, the sort runs past its end.
\<close>

theorem rs_build_dict_list_overruns:
  assumes "length out = len" "1 < len" "length (filter (\<lambda>t. t \<noteq> []) (strsep_all lst)) = len"
    "\<forall>t \<in> set (strsep_all lst). t \<noteq> [] \<longrightarrow> radius t \<noteq> None"
  shows "rs_build_dict_list radius freeradius out len lst = List_Overrun"
proof -
  let ?find = "\<lambda>tok. case radius tok of None \<Rightarrow> freeradius tok | Some da \<Rightarrow> Some da"
  have "dict_list_loop ?find len (strsep_all lst) out 0 =
      Inr (put_at out 0 (map (\<lambda>t. the (?find t)) (filter (\<lambda>t. t \<noteq> []) (strsep_all lst))), 0 + len)"
    unfolding assms(3) [symmetric] using assms by (intro dict_list_loop_fills) (auto split: option.splits)
  then show ?thesis
    using assms(1-3) by (simp add: rs_build_dict_list_def fr_quick_sort.simps)
qed

theorem rs_build_dict_list_overruns_witness:
  "rs_build_dict_list (\<lambda>t. Some (length t)) (\<lambda>_. None) [0, 0, 0] 3 ''abc,a,xy'' = List_Overrun"
  using rs_build_dict_list_overruns [of "[0, 0, 0]" 3 "''abc,a,xy''" "\<lambda>t. Some (length t)" "\<lambda>_. None"] by simp

text \<open>
  With room left in the array, the sort takes in the entry after the last attribute, a null pointer,
  which moves to the front and pushes the last attribute out of the list.
\<close>

theorem rs_build_dict_list_loses_last:
  assumes "length out = len" "n = length (filter (\<lambda>t. t \<noteq> []) (strsep_all lst))" "1 < n" "n < len" "out ! n = NULL"
    "\<forall>t \<in> set (strsep_all lst). t \<noteq> [] \<longrightarrow> (\<exists>da. radius t = Some da \<and> da \<noteq> NULL)"
  shows "\<exists>out'. rs_build_dict_list radius freeradius out len lst = List_Ok out' n \<and> out' ! 0 = NULL"
proof -
  let ?find = "\<lambda>tok. case radius tok of None \<Rightarrow> freeradius tok | Some da \<Rightarrow> Some da"
  let ?das = "map (\<lambda>t. the (?find t)) (filter (\<lambda>t. t \<noteq> []) (strsep_all lst))"
  have loop: "dict_list_loop ?find len (strsep_all lst) out 0 = Inr (put_at out 0 ?das, 0 + n)"
    unfolding assms(2) using assms by (intro dict_list_loop_fills) (auto split: option.splits)
  let ?o = "put_at out 0 ?das"
  have o: "length ?o = len" "?o ! n = NULL" using assms by (simp_all add: put_at_def nth_append)
  from sort_null_first [of n ?o] o assms(4) obtain ys where
    "fr_quick_sort fr_pointer_cmp ?o 0 (int n) = Some ys" "ys ! 0 = NULL" by auto
  with loop assms(3) show ?thesis by (simp add: rs_build_dict_list_def)
qed

theorem rs_build_dict_list_loses_last_witness:
  "\<exists>out'. rs_build_dict_list (\<lambda>t. Some (length t)) (\<lambda>_. None) [0, 0, 0, 0] 4 ''abc,a,xy'' = List_Ok out' 3 \<and> out' ! 0 = NULL"
  using rs_build_dict_list_loses_last [of "[0, 0, 0, 0]" 4 3 "''abc,a,xy''" "\<lambda>t. Some (length t)" "\<lambda>_. None"] by simp

end
