(* ===== verification/Base_N.thy ===== *)
theory Base_N
  imports Prelude
begin

text \<open>
  What the base 16, 32 and 64 codecs of \<open>src/lib/util\<close> share: character tables as C array initialisers,
  text buffers of a fixed size, the results of the decoders, and the locale \<open>alphabet\<close>, the contract
  between an encoding table and a decoding table.  Characters are bytes.
\<close>

unbundle bit_operations_syntax

subsection \<open>Tables\<close>

text \<open>
  An initialiser \<open>(lo, n, v, d)\<close> sets the \<open>n\<close> entries from \<open>lo\<close> on to \<open>v\<close>, \<open>v + d\<close>, \<open>v + 2 * d\<close>, and so
  on; \<open>d\<close> is 0 for the fill macros \<open>F1\<close> to \<open>F128\<close> of \<open>build.h\<close>.  The initialisers of a table do not
  overlap, and an entry none of them sets is 0.
\<close>

type_synonym init_run = "int \<times> int \<times> int \<times> int"

fun run_get :: "init_run list \<Rightarrow> int \<Rightarrow> int" where
  "run_get [] i = 0"
| "run_get ((lo, n, v, d) # rs) i = (if lo \<le> i \<and> i < lo + n then v + d * (i - lo) else run_get rs i)"

definition table_get :: "init_run list \<Rightarrow> byte \<Rightarrow> byte" where
  "table_get rs i = of_int (run_get rs (uint i))"

text \<open>A table of \<open>UINT8_MAX\<close> entries has none for the index 255: reading there is \<open>None\<close>.\<close>

definition table_255 :: "init_run list \<Rightarrow> byte \<Rightarrow> byte option" where
  "table_255 rs i = (if uint i < 255 then Some (table_get rs i) else None)"

definition table_256 :: "init_run list \<Rightarrow> byte \<Rightarrow> byte option" where
  "table_256 rs i = Some (table_get rs i)"

text \<open>Character literals.\<close>

abbreviation (input) ch :: "char \<Rightarrow> 'a :: comm_semiring_1" where
  "ch c \<equiv> of_char c"

text \<open>Whether all of a list of characters are in the alphabet, read in order up to the first that is not.\<close>

fun all_in :: "(byte \<Rightarrow> byte option) \<Rightarrow> byte \<Rightarrow> bytes \<Rightarrow> bool option" where
  "all_in al lim [] = Some True"
| "all_in al lim (c # cs) =
     (case al c of None \<Rightarrow> None | Some v \<Rightarrow> if v < lim then all_in al lim cs else Some False)"

text \<open>The number of characters before the first that is not in the alphabet.\<close>

fun span_in :: "(byte \<Rightarrow> byte option) \<Rightarrow> byte \<Rightarrow> bytes \<Rightarrow> nat option" where
  "span_in al lim [] = Some 0"
| "span_in al lim (c # cs) =
     (case al c of
        None \<Rightarrow> None
      | Some v \<Rightarrow> if v < lim then map_option Suc (span_in al lim cs) else Some 0)"

definition al_val :: "(byte \<Rightarrow> byte option) \<Rightarrow> byte \<Rightarrow> byte" where
  "al_val al c = (case al c of None \<Rightarrow> 0 | Some v \<Rightarrow> v)"

subsection \<open>Buffers and results\<close>

text \<open>
  \<open>FR_SBUFF_IN_CHAR_RETURN\<close> on a buffer with \<open>room\<close> characters left: the characters are appended and the
  rest of the function goes on, or it returns how many are missing, negated.
\<close>

definition sbuff_in :: "nat \<Rightarrow> bytes \<Rightarrow> (nat \<Rightarrow> int + bytes) \<Rightarrow> int + bytes" where
  "sbuff_in room cs k =
     (if room < length cs then Inl (- int (length cs - room))
      else case k (room - length cs) of Inl e \<Rightarrow> Inl e | Inr t \<Rightarrow> Inr (cs @ t))"

lemma sbuff_in_text:
  assumes "\<And>r. (r < length t \<longrightarrow> (\<exists>e < 0. k r = Inl e)) \<and> (length t \<le> r \<longrightarrow> k r = Inr t)"
  shows "(room < length (cs @ t) \<longrightarrow> (\<exists>e < 0. sbuff_in room cs k = Inl e)) \<and>
    (length (cs @ t) \<le> room \<longrightarrow> sbuff_in room cs k = Inr (cs @ t))"
proof (cases "room < length cs")
  case True
  then show ?thesis by (auto simp: sbuff_in_def)
next
  case False
  then show ?thesis using assms [of "room - length cs"] by (auto simp: sbuff_in_def)
qed

datatype sbuff_parse_error = Parse_OK | Parse_Trailing | Parse_Format | Parse_Out_Of_Space

text \<open>
  \<open>Base_Ok\<close> holds the decoded bytes, how far the input was read, and what was written to \<open>*err\<close>, if
  anything; \<open>Base_Err\<close> the error and the offset it is reported at; \<open>Base_Short\<close> how many bytes were
  missing from the output buffer; \<open>Base_Overrun\<close> is a read past the end of the table.
\<close>

datatype base_result =
    Base_Ok bytes nat "sbuff_parse_error option"
  | Base_Err sbuff_parse_error nat
  | Base_Short nat
  | Base_Overrun

text \<open>The padding characters still expected, and where the input is after them.\<close>

fun pad_loop :: "nat \<Rightarrow> bytes \<Rightarrow> nat \<Rightarrow> nat + bytes \<times> nat" where
  "pad_loop 0 inp off = Inr (inp, off)"
| "pad_loop (Suc n) [] off = Inl off"
| "pad_loop (Suc n) (c # cs) off = (if c = ch (CHR ''='') then pad_loop n cs (off + 1) else Inl off)"

text \<open>The end of a decoder: padding, then what is left of the input.\<close>

definition decode_end ::
  "bool \<Rightarrow> bool \<Rightarrow> sbuff_parse_error option \<Rightarrow> nat \<Rightarrow> bytes \<Rightarrow> bytes \<Rightarrow> nat \<Rightarrow> base_result" where
  "decode_end expect_padding no_trailing err pad out inp off =
     (case (if expect_padding then pad_loop pad inp off else Inr (inp, off)) of
        Inl off' \<Rightarrow> Base_Err Parse_Format off'
      | Inr (inp', off') \<Rightarrow>
          if no_trailing \<and> inp' \<noteq> [] then Base_Err Parse_Trailing off' else Base_Ok out off' err)"

subsection \<open>Alphabets\<close>

text \<open>
  An encoding table and a decoding table for digits below \<open>lim\<close>: decoding undoes encoding, and the
  padding character is not a digit.
\<close>

locale alphabet =
  fixes enc :: "byte \<Rightarrow> byte" and dec :: "byte \<Rightarrow> byte option" and lim :: byte
  assumes dec_enc: "v < lim \<Longrightarrow> dec (enc v) = Some v"
    and pad_not_digit: "\<exists>v. dec (ch (CHR ''='')) = Some v \<and> \<not> v < lim"
begin

lemma al_val_enc: "v < lim \<Longrightarrow> al_val dec (enc v) = v"
  by (simp add: al_val_def dec_enc)

lemma all_in_enc: "\<forall>v \<in> set vs. v < lim \<Longrightarrow> all_in dec lim (map enc vs @ cs) = all_in dec lim cs"
  by (induction vs) (simp_all add: dec_enc)

lemma all_in_enc_all: "\<forall>v \<in> set vs. v < lim \<Longrightarrow> all_in dec lim (map enc vs) = Some True"
  using all_in_enc [of vs "[]"] by simp

lemma all_in_pad: "\<forall>v \<in> set vs. v < lim \<Longrightarrow> all_in dec lim (map enc vs @ ch (CHR ''='') # cs) = Some False"
  using pad_not_digit by (auto simp: all_in_enc)

lemma span_in_enc: "\<forall>v \<in> set vs. v < lim \<Longrightarrow>
    span_in dec lim (map enc vs @ cs) = map_option ((+) (length vs)) (span_in dec lim cs)"
  by (cases "span_in dec lim cs"; induction vs) (simp_all add: dec_enc)

lemma span_in_pads: "span_in dec lim (replicate n (ch (CHR ''=''))) = Some 0"
  using pad_not_digit by (cases n) auto

end

lemma pad_loop_all: "pad_loop n (replicate n (ch (CHR ''='')) @ cs) off = Inr (cs, off + n)"
  by (induction n arbitrary: off) simp_all

text \<open>A fact about all bytes, or all digits, from its instances.\<close>

lemma all_below:
  assumes "n \<le> 256"
  shows "(\<forall>c :: byte. uint c < n \<longrightarrow> P c) \<longleftrightarrow> list_all P (map of_int [0..n - 1])"
proof
  assume all: "list_all P (map of_int [0..n - 1])"
  show "\<forall>c. uint c < n \<longrightarrow> P c"
  proof (intro allI impI)
    fix c :: byte
    assume "uint c < n"
    then have "uint c \<in> {0..n - 1}" by simp
    then have "of_int (uint c) \<in> (of_int :: int \<Rightarrow> byte) ` {0..n - 1}" by (rule imageI)
    with all show "P c" by (auto simp: list_all_iff)
  qed
next
  assume all: "\<forall>c. uint c < n \<longrightarrow> P c"
  have "P (of_int i)" if "0 \<le> i" "i \<le> n - 1" for i
  proof -
    have "uint (of_int i :: byte) = i" using that assms by (simp add: uint_word_of_int)
    with all that show ?thesis by simp
  qed
  then show "list_all P (map of_int [0..n - 1])" by (simp add: list_all_iff)
qed

lemma all_bytes: "(\<forall>c :: byte. P c) \<longleftrightarrow> list_all P (map of_int [0..255])"
proof -
  have "uint c < 256" for c :: byte using unsigned_less [of c, where 'a = int] by simp
  with all_below [of 256 P] show ?thesis by simp
qed

lemma all_digits64: "(\<forall>c :: byte. c < 64 \<longrightarrow> P c) \<longleftrightarrow> list_all P (map of_int [0..63])"
  using all_below [of 64 P] by (simp add: word_less_def)

lemma all_digits32: "(\<forall>c :: byte. c < 32 \<longrightarrow> P c) \<longleftrightarrow> list_all P (map of_int [0..31])"
  using all_below [of 32 P] by (simp add: word_less_def)

lemma all_digits16: "(\<forall>c :: byte. c < 16 \<longrightarrow> P c) \<longleftrightarrow> list_all P (map of_int [0..15])"
  using all_below [of 16 P] by (simp add: word_less_def)

lemma and_less_64: "(x :: byte) AND 0x3f < 64"
proof -
  have "\<forall>x :: byte. x AND 0x3f < 64" unfolding all_bytes by code_simp
  then show ?thesis by blast
qed

lemma and_less_32: "(x :: byte) AND 0x1f < 32"
proof -
  have "\<forall>x :: byte. x AND 0x1f < 32" unfolding all_bytes by code_simp
  then show ?thesis by blast
qed

end
