(* ===== verification/Base16.thy ===== *)
theory Base16
  imports Base_N
begin

text \<open>
  Base 16, \<open>src/lib/util/base16.c\<close>: the tables, \<open>fr_base16_encode_nstd\<close> and
  \<open>fr_base16_decode_nstd\<close>.
\<close>

unbundle bit_operations_syntax

subsection \<open>Tables\<close>

definition fr_base16_alphabet_encode_lc :: "byte \<Rightarrow> byte" where
  "fr_base16_alphabet_encode_lc = table_get [(0, 10, ch (CHR ''0''), 1), (10, 6, ch (CHR ''a''), 1)]"

definition fr_base16_alphabet_encode_uc :: "byte \<Rightarrow> byte" where
  "fr_base16_alphabet_encode_uc = table_get [(0, 10, ch (CHR ''0''), 1), (10, 6, ch (CHR ''A''), 1)]"

definition fr_base16_alphabet_decode_mc :: "byte \<Rightarrow> byte option" where
  "fr_base16_alphabet_decode_mc =
     table_256 [(0, 32, 255, 0), (32, 16, 255, 0), (ch (CHR ''0''), 10, 0, 1), (58, 4, 255, 0), (62, 2, 255, 0),
                (64, 1, 255, 0), (ch (CHR ''A''), 6, 10, 1), (71, 16, 255, 0), (87, 8, 255, 0), (95, 2, 255, 0),
                (ch (CHR ''a''), 6, 10, 1), (103, 128, 255, 0), (231, 16, 255, 0), (247, 8, 255, 0), (255, 1, 255, 0)]"

subsection \<open>Operations\<close>

fun fr_base16_encode_nstd :: "nat \<Rightarrow> bytes \<Rightarrow> (byte \<Rightarrow> byte) \<Rightarrow> int + bytes" where
  "fr_base16_encode_nstd room [] al = Inr []"
| "fr_base16_encode_nstd room (a # rest) al =
     sbuff_in room [al (drop_bit 4 a), al (a AND 0x0f)] (\<lambda>room. fr_base16_encode_nstd room rest al)"

definition fr_is_base16_nstd :: "byte \<Rightarrow> (byte \<Rightarrow> byte option) \<Rightarrow> bool" where
  "fr_is_base16_nstd c al \<longleftrightarrow> al_val al c < 16"

text \<open>The loop of the decoder, with what it has decoded and how far it has read.\<close>

fun base16_loop :: "nat \<Rightarrow> bytes \<Rightarrow> bool \<Rightarrow> (byte \<Rightarrow> byte option) \<Rightarrow> bytes \<Rightarrow> nat \<Rightarrow> base_result" where
  "base16_loop room (p0 # p1 # rest) no_trailing al out off =
     (let a = fr_is_base16_nstd p0 al; b = fr_is_base16_nstd p1 al in
      if \<not> a \<or> \<not> b then
        if a \<and> \<not> b \<and> no_trailing then Base_Err Parse_Trailing off else Base_Ok out off (Some Parse_OK)
      else if room < 1 then Base_Short (1 - room)
      else base16_loop (room - 1) rest no_trailing al
             (out @ [push_bit 4 (al_val al p0) OR al_val al p1]) (off + 2))"
| "base16_loop room p no_trailing al out off = Base_Ok out off (Some Parse_OK)"

definition fr_base16_decode_nstd :: "nat \<Rightarrow> bytes \<Rightarrow> bool \<Rightarrow> (byte \<Rightarrow> byte option) \<Rightarrow> base_result" where
  "fr_base16_decode_nstd room inp no_trailing al = base16_loop room inp no_trailing al [] 0"

subsection \<open>Round trip\<close>

definition base16_text :: "(byte \<Rightarrow> byte) \<Rightarrow> bytes \<Rightarrow> bytes" where
  "base16_text al xs = concat (map (\<lambda>a. [al (drop_bit 4 a), al (a AND 0x0f)]) xs)"

lemma base16_text_simps [simp]:
  "base16_text al [] = []" "base16_text al (a # xs) = [al (drop_bit 4 a), al (a AND 0x0f)] @ base16_text al xs"
  by (simp_all add: base16_text_def)

lemma length_base16_text: "length (base16_text al xs) = 2 * length xs"
  by (induction xs) simp_all

lemma base16_encode_text:
  "(room < length (base16_text al xs) \<longrightarrow> (\<exists>e < 0. fr_base16_encode_nstd room xs al = Inl e)) \<and>
   (length (base16_text al xs) \<le> room \<longrightarrow> fr_base16_encode_nstd room xs al = Inr (base16_text al xs))"
proof (induction xs arbitrary: room)
  case (Cons a xs)
  show ?case unfolding fr_base16_encode_nstd.simps base16_text_simps by (rule sbuff_in_text) (rule Cons)
qed simp

lemma nibbles: "push_bit 4 (drop_bit 4 a) OR (a AND 0x0f) = (a :: byte)"
  unfolding byte_eq_bits by (simp add: bit_simps)

lemma nibble_less: "drop_bit 4 (a :: byte) < 16" "(a :: byte) AND 0x0f < 16"
proof -
  have "\<forall>a :: byte. drop_bit 4 a < 16 \<and> a AND 0x0f < 16" unfolding all_bytes by code_simp
  then show "drop_bit 4 a < 16" "a AND 0x0f < 16" by blast+
qed

locale alphabet16 = alphabet enc dec 16 for enc dec
begin

lemma decode_text:
  assumes "length xs \<le> room" "cs = [] \<or> \<not> fr_is_base16_nstd (hd cs) dec"
  shows "base16_loop room (base16_text enc xs @ cs) nt dec out off = Base_Ok (out @ xs) (off + 2 * length xs) (Some Parse_OK)"
  using assms(1)
proof (induction xs arbitrary: room out off)
  case Nil
  with assms(2) show ?case by (cases cs rule: remdups_adj.cases) (auto simp: Let_def)
next
  case (Cons a xs)
  have v: "al_val dec (enc (drop_bit 4 a)) = drop_bit 4 a" "al_val dec (enc (a AND 0x0f)) = a AND 0x0f"
    by (rule al_val_enc, rule nibble_less)+
  have "base16_loop room (base16_text enc (a # xs) @ cs) nt dec out off =
      base16_loop (room - 1) (base16_text enc xs @ cs) nt dec (out @ [a]) (off + 2)"
    using Cons.prems
    unfolding base16_text_simps append_Cons append_Nil base16_loop.simps fr_is_base16_nstd_def v nibbles Let_def
    by (simp add: nibble_less)
  with Cons show ?case by simp
qed

lemmas decode_whole = decode_text [of _ _ "[]", simplified]

end

lemma base16_lc: "\<forall>v. v < 16 \<longrightarrow> fr_base16_alphabet_decode_mc (fr_base16_alphabet_encode_lc v) = Some v"
  unfolding all_digits16 by code_simp

lemma base16_uc: "\<forall>v. v < 16 \<longrightarrow> fr_base16_alphabet_decode_mc (fr_base16_alphabet_encode_uc v) = Some v"
  unfolding all_digits16 by code_simp

interpretation lc16: alphabet16 fr_base16_alphabet_encode_lc fr_base16_alphabet_decode_mc
  by unfold_locales (use base16_lc in blast, simp add: fr_base16_alphabet_decode_mc_def table_256_def table_get_def)

interpretation uc16: alphabet16 fr_base16_alphabet_encode_uc fr_base16_alphabet_decode_mc
  by unfold_locales (use base16_uc in blast, simp add: fr_base16_alphabet_decode_mc_def table_256_def table_get_def)

subsection \<open>Properties\<close>

text \<open>
  C33: A buffer of twice the input's length is enough to encode it, in either case, and
  \<open>fr_base16_decode\<close> returns the bytes that were encoded.
\<close>

theorem base16_roundtrip:
  assumes "2 * length xs \<le> room" "length xs \<le> room'"
  shows "\<exists>t u. fr_base16_encode_nstd room xs fr_base16_alphabet_encode_lc = Inr t \<and>
    fr_base16_encode_nstd room xs fr_base16_alphabet_encode_uc = Inr u \<and>
    fr_base16_decode_nstd room' t no_trailing fr_base16_alphabet_decode_mc = Base_Ok xs (2 * length xs) (Some Parse_OK) \<and>
    fr_base16_decode_nstd room' u no_trailing fr_base16_alphabet_decode_mc = Base_Ok xs (2 * length xs) (Some Parse_OK)"
  using base16_encode_text [of room fr_base16_alphabet_encode_lc xs] base16_encode_text [of room fr_base16_alphabet_encode_uc xs]
    lc16.decode_whole [OF assms(2), of no_trailing "[]" 0] uc16.decode_whole [OF assms(2), of no_trailing "[]" 0] assms(1)
  by (auto simp: length_base16_text fr_base16_decode_nstd_def)

theorem base16_roundtrip_witness:
  "\<exists>t. fr_base16_encode_nstd 4 [0xde, 0xad] fr_base16_alphabet_encode_lc = Inr t \<and>
     fr_base16_decode_nstd 2 t True fr_base16_alphabet_decode_mc = Base_Ok [0xde, 0xad] 4 (Some Parse_OK)"
  using base16_roundtrip [of "[0xde, 0xad]" 4 2 True] by auto

text \<open>
  With \<open>no_trailing\<close> set, \<open>fr_base16_decode_nstd\<close> still accepts a text that is followed by anything which
  starts with a character that is not a hex digit.
\<close>

theorem base16_trailing_accepted:
  assumes "length xs \<le> room" "\<not> fr_is_base16_nstd c fr_base16_alphabet_decode_mc"
  shows "fr_base16_decode_nstd room (base16_text fr_base16_alphabet_encode_lc xs @ c # rest) True
    fr_base16_alphabet_decode_mc = Base_Ok xs (2 * length xs) (Some Parse_OK)"
  using lc16.decode_text [OF assms(1), of "c # rest" True "[]" 0] assms(2) by (simp add: fr_base16_decode_nstd_def)

theorem base16_trailing_accepted_witness:
  "fr_base16_decode_nstd 4 (base16_text fr_base16_alphabet_encode_lc [0xde] @ [ch (CHR ''z''), ch (CHR ''z'')]) True
    fr_base16_alphabet_decode_mc = Base_Ok [0xde] 2 (Some Parse_OK)"
proof -
  have "\<not> fr_is_base16_nstd (ch (CHR ''z'')) fr_base16_alphabet_decode_mc" by code_simp
  from base16_trailing_accepted [OF _ this, of "[0xde]" 4 "[ch (CHR ''z'')]"] show ?thesis by simp
qed

end
