(* ===== verification/Base32.thy ===== *)
theory Base32
  imports Base_N
begin

text \<open>
  Base 32, \<open>src/lib/util/base32.c\<close>: the four tables, \<open>fr_base32_encode_nstd\<close> and
  \<open>fr_base32_decode_nstd\<close>.  Shifts are taken modulo \<open>2\<^sup>8\<close> as in \<open>Base64\<close>.
\<close>

unbundle bit_operations_syntax

subsection \<open>Tables\<close>

definition fr_base32_alphabet_encode :: "byte \<Rightarrow> byte" where
  "fr_base32_alphabet_encode = table_get [(26, 6, ch (CHR ''2''), 1), (0, 26, ch (CHR ''A''), 1)]"

definition fr_base32_alphabet_decode :: "byte \<Rightarrow> byte option" where
  "fr_base32_alphabet_decode =
     table_255 [(0, 32, 255, 0), (32, 16, 255, 0), (48, 2, 255, 0), (ch (CHR ''2''), 6, 26, 1), (56, 8, 255, 0),
                (64, 1, 255, 0), (ch (CHR ''A''), 26, 0, 1), (91, 128, 255, 0), (219, 32, 255, 0), (251, 4, 255, 0)]"

definition fr_base32_hex_alphabet_encode :: "byte \<Rightarrow> byte" where
  "fr_base32_hex_alphabet_encode = table_get [(0, 10, ch (CHR ''0''), 1), (10, 22, ch (CHR ''A''), 1)]"

definition fr_base32_hex_alphabet_decode :: "byte \<Rightarrow> byte option" where
  "fr_base32_hex_alphabet_decode =
     table_255 [(0, 32, 255, 0), (32, 16, 255, 0), (ch (CHR ''0''), 10, 0, 1), (58, 4, 255, 0), (62, 2, 255, 0),
                (64, 1, 255, 0), (ch (CHR ''A''), 22, 10, 1), (87, 128, 255, 0), (215, 32, 255, 0), (247, 8, 255, 0)]"

subsection \<open>Encoding\<close>

fun fr_base32_encode_nstd :: "nat \<Rightarrow> bytes \<Rightarrow> bool \<Rightarrow> (byte \<Rightarrow> byte) \<Rightarrow> int + bytes" where
  "fr_base32_encode_nstd room (a # b # c # d # e # rest) add_padding al =
     sbuff_in room
       [al (drop_bit 3 a AND 0x1f), al ((push_bit 2 a OR drop_bit 6 b) AND 0x1f), al (drop_bit 1 b AND 0x1f),
        al ((push_bit 4 b OR drop_bit 4 c) AND 0x1f), al ((push_bit 1 c OR drop_bit 7 d) AND 0x1f),
        al (drop_bit 2 d AND 0x1f), al ((push_bit 3 d OR drop_bit 5 e) AND 0x1f), al (e AND 0x1f)]
       (\<lambda>room. fr_base32_encode_nstd room rest add_padding al)"
| "fr_base32_encode_nstd room [a, b, c, d] add_padding al =
     sbuff_in room
       [al (drop_bit 3 a AND 0x1f), al ((push_bit 2 a OR drop_bit 6 b) AND 0x1f), al (drop_bit 1 b AND 0x1f),
        al ((push_bit 4 b OR drop_bit 4 c) AND 0x1f), al ((push_bit 1 c OR drop_bit 7 d) AND 0x1f),
        al (drop_bit 2 d AND 0x1f), al (push_bit 3 d AND 0x1f)]
       (\<lambda>room. if add_padding then sbuff_in room (replicate 1 (ch (CHR ''=''))) (\<lambda>_. Inr []) else Inr [])"
| "fr_base32_encode_nstd room [a, b, c] add_padding al =
     sbuff_in room
       [al (drop_bit 3 a AND 0x1f), al ((push_bit 2 a OR drop_bit 6 b) AND 0x1f), al (drop_bit 1 b AND 0x1f),
        al ((push_bit 4 b OR drop_bit 4 c) AND 0x1f), al (push_bit 1 c AND 0x1f)]
       (\<lambda>room. if add_padding then sbuff_in room (replicate 3 (ch (CHR ''=''))) (\<lambda>_. Inr []) else Inr [])"
| "fr_base32_encode_nstd room [a, b] add_padding al =
     sbuff_in room
       [al (drop_bit 3 a AND 0x1f), al ((push_bit 2 a OR drop_bit 6 b) AND 0x1f), al (drop_bit 1 b AND 0x1f),
        al (push_bit 4 b AND 0x1f)]
       (\<lambda>room. if add_padding then sbuff_in room (replicate 4 (ch (CHR ''=''))) (\<lambda>_. Inr []) else Inr [])"
| "fr_base32_encode_nstd room [a] add_padding al =
     sbuff_in room [al (drop_bit 3 a AND 0x1f), al (push_bit 2 a AND 0x1f)]
       (\<lambda>room. if add_padding then sbuff_in room (replicate 6 (ch (CHR ''=''))) (\<lambda>_. Inr []) else Inr [])"
| "fr_base32_encode_nstd room [] add_padding al = Inr []"

subsection \<open>Decoding\<close>

text \<open>The bytes that the code computes from the values of the digits of a quantum.\<close>

definition base32_byte :: "nat \<Rightarrow> (nat \<Rightarrow> byte) \<Rightarrow> byte" where
  "base32_byte i v =
     (if i = 0 then push_bit 3 (v 0) OR drop_bit 2 (v 1)
      else if i = 1 then push_bit 6 (v 1) OR push_bit 1 (v 2) OR drop_bit 4 (v 3)
      else if i = 2 then push_bit 4 (v 3) OR drop_bit 1 (v 4)
      else if i = 3 then push_bit 7 (v 4) OR push_bit 2 (v 5) OR drop_bit 3 (v 6)
      else push_bit 5 (v 6) OR v 7)"

definition base32_bytes :: "nat \<Rightarrow> (byte \<Rightarrow> byte option) \<Rightarrow> bytes \<Rightarrow> bytes" where
  "base32_bytes n al p = map (\<lambda>i. base32_byte i (\<lambda>k. al_val al (p ! k))) [0..<n]"

function base32_quanta :: "(byte \<Rightarrow> byte option) \<Rightarrow> nat \<Rightarrow> bytes \<Rightarrow> bytes \<Rightarrow> nat \<Rightarrow> base_result + bytes \<times> bytes \<times> nat \<times> nat" where
  "base32_quanta al room p out off =
     (if length p < 8 then Inr (out, p, room, off)
      else case all_in al 32 (take 8 p) of
        None \<Rightarrow> Inl Base_Overrun
      | Some False \<Rightarrow> Inr (out, p, room, off)
      | Some True \<Rightarrow>
          if room < 5 then Inl (Base_Err Parse_Out_Of_Space off)
          else base32_quanta al (room - 5) (drop 8 p) (out @ base32_bytes 5 al p) (off + 8))"
  by pat_completeness auto
termination
  by (relation "measure (\<lambda>(al, room, p, out, off). length p)") auto

declare base32_quanta.simps [simp del]

text \<open>The final quantum of \<open>n\<close> digits: its bytes and the padding to expect.\<close>

definition base32_final :: "(byte \<Rightarrow> byte option) \<Rightarrow> nat \<Rightarrow> bytes \<Rightarrow> (bytes \<times> nat) option" where
  "base32_final al n p =
     (if n = 0 then Some ([], 0)
      else if n = 2 then Some (base32_bytes 1 al p, 6)
      else if n = 4 then Some (base32_bytes 2 al p, 4)
      else if n = 5 then Some (base32_bytes 3 al p, 3)
      else if n = 7 then Some (base32_bytes 4 al p, 1)
      else None)"

text \<open>What follows the loop.\<close>

definition base32_finish ::
  "bool \<Rightarrow> bool \<Rightarrow> (byte \<Rightarrow> byte option) \<Rightarrow> base_result + bytes \<times> bytes \<times> nat \<times> nat \<Rightarrow> base_result" where
  "base32_finish expect_padding no_trailing al r =
     (case r of
        Inl e \<Rightarrow> e
      | Inr (out, p, room, off) \<Rightarrow>
          (case span_in al 32 p of
             None \<Rightarrow> Base_Overrun
           | Some n \<Rightarrow>
               (case base32_final al n p of
                  None \<Rightarrow> Base_Err Parse_Format (off + n)
                | Some (bs, pad) \<Rightarrow>
                    if room < length bs then Base_Err Parse_Out_Of_Space (off + n)
                    else decode_end expect_padding no_trailing (Some Parse_OK) pad (out @ bs) (drop n p) (off + n))))"

definition fr_base32_decode_nstd :: "nat \<Rightarrow> bytes \<Rightarrow> bool \<Rightarrow> bool \<Rightarrow> (byte \<Rightarrow> byte option) \<Rightarrow> base_result" where
  "fr_base32_decode_nstd room inp expect_padding no_trailing al =
     base32_finish expect_padding no_trailing al (base32_quanta al room inp [] 0)"

subsection \<open>The encoding as a whole\<close>

text \<open>The digits of up to five bytes, the bytes that are missing taken as 0.\<close>

definition digits32 :: "byte \<Rightarrow> byte \<Rightarrow> byte \<Rightarrow> byte \<Rightarrow> byte \<Rightarrow> bytes" where
  "digits32 a b c d e =
     [drop_bit 3 a AND 0x1f, (push_bit 2 a OR drop_bit 6 b) AND 0x1f, drop_bit 1 b AND 0x1f,
      (push_bit 4 b OR drop_bit 4 c) AND 0x1f, (push_bit 1 c OR drop_bit 7 d) AND 0x1f,
      drop_bit 2 d AND 0x1f, (push_bit 3 d OR drop_bit 5 e) AND 0x1f, e AND 0x1f]"

fun base32_text :: "bool \<Rightarrow> (byte \<Rightarrow> byte) \<Rightarrow> bytes \<Rightarrow> bytes" where
  "base32_text pad al (a # b # c # d # e # rest) = map al (digits32 a b c d e) @ base32_text pad al rest"
| "base32_text pad al [a, b, c, d] = map al (take 7 (digits32 a b c d 0)) @ (if pad then replicate 1 (ch (CHR ''='')) else [])"
| "base32_text pad al [a, b, c] = map al (take 5 (digits32 a b c 0 0)) @ (if pad then replicate 3 (ch (CHR ''='')) else [])"
| "base32_text pad al [a, b] = map al (take 4 (digits32 a b 0 0 0)) @ (if pad then replicate 4 (ch (CHR ''='')) else [])"
| "base32_text pad al [a] = map al (take 2 (digits32 a 0 0 0 0)) @ (if pad then replicate 6 (ch (CHR ''='')) else [])"
| "base32_text pad al [] = []"

lemma digits32_take:
  "take 7 (digits32 a b c d 0) =
     [drop_bit 3 a AND 0x1f, (push_bit 2 a OR drop_bit 6 b) AND 0x1f, drop_bit 1 b AND 0x1f,
      (push_bit 4 b OR drop_bit 4 c) AND 0x1f, (push_bit 1 c OR drop_bit 7 d) AND 0x1f,
      drop_bit 2 d AND 0x1f, push_bit 3 d AND 0x1f]"
  "take 5 (digits32 a b c 0 0) =
     [drop_bit 3 a AND 0x1f, (push_bit 2 a OR drop_bit 6 b) AND 0x1f, drop_bit 1 b AND 0x1f,
      (push_bit 4 b OR drop_bit 4 c) AND 0x1f, push_bit 1 c AND 0x1f]"
  "take 4 (digits32 a b 0 0 0) =
     [drop_bit 3 a AND 0x1f, (push_bit 2 a OR drop_bit 6 b) AND 0x1f, drop_bit 1 b AND 0x1f, push_bit 4 b AND 0x1f]"
  "take 2 (digits32 a 0 0 0 0) = [drop_bit 3 a AND 0x1f, push_bit 2 a AND 0x1f]"
  by (simp_all add: digits32_def)

lemma pad_in_text:
  "(r < length (if pad then cs else []) \<longrightarrow> (\<exists>e < 0. (if pad then sbuff_in r cs (\<lambda>_. Inr []) else Inr []) = Inl e)) \<and>
   (length (if pad then cs else []) \<le> r \<longrightarrow> (if pad then sbuff_in r cs (\<lambda>_. Inr []) else Inr []) = Inr (if pad then cs else []))"
  by (auto simp: sbuff_in_def)

lemma base32_encode_text:
  "(room < length (base32_text pad al xs) \<longrightarrow> (\<exists>e < 0. fr_base32_encode_nstd room xs pad al = Inl e)) \<and>
   (length (base32_text pad al xs) \<le> room \<longrightarrow> fr_base32_encode_nstd room xs pad al = Inr (base32_text pad al xs))"
proof (induction pad al xs arbitrary: room rule: base32_text.induct)
  case (1 pad al a b c d e rest)
  show ?case unfolding fr_base32_encode_nstd.simps base32_text.simps digits32_def list.map by (rule sbuff_in_text) (rule 1)
next
  case (2 pad al a b c d)
  show ?case unfolding fr_base32_encode_nstd.simps base32_text.simps digits32_take list.map
    by (rule sbuff_in_text) (rule pad_in_text)
next
  case (3 pad al a b c)
  show ?case unfolding fr_base32_encode_nstd.simps base32_text.simps digits32_take list.map
    by (rule sbuff_in_text) (rule pad_in_text)
next
  case (4 pad al a b)
  show ?case unfolding fr_base32_encode_nstd.simps base32_text.simps digits32_take list.map
    by (rule sbuff_in_text) (rule pad_in_text)
next
  case (5 pad al a)
  show ?case unfolding fr_base32_encode_nstd.simps base32_text.simps digits32_take list.map
    by (rule sbuff_in_text) (rule pad_in_text)
qed simp

subsection \<open>Round trip\<close>

text \<open>The bits of five bytes, cut into digits and put together again.\<close>

lemma bit_times_2: "bit ((x :: byte) * 2) n \<longleftrightarrow> n \<noteq> 0 \<and> n < 8 \<and> bit x (n - 1)"
  using bit_double_iff [of x n] by (auto simp: mult.commute)

lemma quantum32_bits:
  "base32_byte 0 ((!) (digits32 a b c d e)) = a" "base32_byte (Suc 0) ((!) (digits32 a b c d e)) = b"
  "base32_byte 2 ((!) (digits32 a b c d e)) = c" "base32_byte 3 ((!) (digits32 a b c d e)) = d"
  "base32_byte 4 ((!) (digits32 a b c d e)) = e"
  unfolding byte_eq_bits by (simp_all add: base32_byte_def digits32_def bit_simps bit_times_2 nth_Cons')
    (simp_all add: numeral_2_eq_2 numeral_3_eq_3)

lemma quantum32_map:
  assumes "n \<le> 5"
  shows "map (\<lambda>i. base32_byte i ((!) (digits32 a b c d e))) [0..<n] = take n [a, b, c, d, e]"
proof -
  have five: "[0..<5] = [0, Suc 0, 2, 3, 4]" by code_simp
  have "map (\<lambda>i. base32_byte i ((!) (digits32 a b c d e))) [0..<5] = [a, b, c, d, e]"
    unfolding five by (simp only: list.map quantum32_bits)
  moreover have "[0..<n] = take n [0..<5]" using assms by simp
  ultimately show ?thesis by (simp only: take_map [symmetric])
qed

lemma digits32_less: "\<forall>v \<in> set (digits32 a b c d e). v < 32"
  by (simp add: digits32_def and_less_32)

lemma length_digits32: "length (digits32 a b c d e) = 8"
  by (simp add: digits32_def)

definition digits_needed :: "nat \<Rightarrow> nat" where
  "digits_needed n = [0, 2, 4, 5, 7, 8] ! n"

lemma base32_byte_cong:
  assumes "i < n" "n \<le> 5" "\<And>k. k < digits_needed n \<Longrightarrow> v k = w k"
  shows "base32_byte i v = base32_byte i w"
proof -
  have "n = 1 \<or> n = 2 \<or> n = 3 \<or> n = 4 \<or> n = 5" using assms(1,2) by auto
  then show ?thesis using assms(1,3) by (auto simp: base32_byte_def digits_needed_def)
qed

lemma fives_induct [case_names Five Four Three Two One Nil]:
  assumes "\<And>a b c d e rest. P rest \<Longrightarrow> P (a # b # c # d # e # rest)" "\<And>a b c d. P [a, b, c, d]" "\<And>a b c. P [a, b, c]"
    "\<And>a b. P [a, b]" "\<And>a. P [a]" "P []"
  shows "P (xs :: bytes)"
  by (rule base32_text.induct [where P = "\<lambda>_ _. P"]) (use assms in auto)

locale alphabet32 = alphabet enc dec 32 for enc dec
begin

lemma bytes_digits:
  assumes "\<forall>v \<in> set vs. v < 32" "digits_needed n \<le> length vs" "n \<le> 5"
  shows "base32_bytes n dec (map enc vs @ cs) = map (\<lambda>i. base32_byte i ((!) vs)) [0..<n]"
proof -
  have "base32_byte i (\<lambda>k. al_val dec ((map enc vs @ cs) ! k)) = base32_byte i ((!) vs)" if "i < n" for i
    by (rule base32_byte_cong [OF that assms(3)]) (use assms in \<open>simp add: nth_append al_val_enc\<close>)
  then show ?thesis by (simp add: base32_bytes_def)
qed

lemma quanta_step:
  assumes "\<forall>v \<in> set vs. v < 32" "length vs = 8" "5 \<le> room"
  shows "base32_quanta dec room (map enc vs @ rest) out off =
    base32_quanta dec (room - 5) rest (out @ map (\<lambda>i. base32_byte i ((!) vs)) [0..<5]) (off + 8)"
proof -
  have "base32_bytes 5 dec (map enc vs @ rest) = map (\<lambda>i. base32_byte i ((!) vs)) [0..<5]"
    by (rule bytes_digits [OF assms(1)]) (simp_all add: assms(2) digits_needed_def)
  moreover have "all_in dec 32 (take 8 (map enc vs @ rest)) = Some True"
    using all_in_enc_all [OF assms(1)] assms(2) by simp
  ultimately show ?thesis
    using assms by (simp add: base32_quanta.simps [of dec room "map enc vs @ rest"])
qed

lemma finish_digits:
  assumes "\<forall>v \<in> set vs. v < 32" "(length vs, n, m) \<in> {(2, 1, 6), (4, 2, 4), (5, 3, 3), (7, 4, 1)}" "n \<le> room"
  shows "base32_finish pad nt dec
      (base32_quanta dec room (map enc vs @ (if pad then replicate m (ch (CHR ''='')) else [])) out off) =
    Base_Ok (out @ map (\<lambda>i. base32_byte i ((!) vs)) [0..<n]) (off + length vs + (if pad then m else 0)) (Some Parse_OK)"
proof -
  let ?pads = "if pad then replicate m (ch (CHR ''='')) else []"
  let ?p = "map enc vs @ ?pads"
  have m: "length vs + m = 8" "0 < m" "n \<le> 5" "digits_needed n \<le> length vs"
    using assms(2) by (auto simp: digits_needed_def)
  have m8: "8 - length vs = m" using m(1) by simp
  obtain m' where m': "m = Suc m'" using m(2) by (cases m) auto
  have "all_in dec 32 ?p = Some False" if pad using all_in_pad [OF assms(1), of "replicate m' (ch (CHR ''=''))"] that m' by simp
  then have q: "base32_quanta dec room ?p out off = Inr (out, ?p, room, off)"
    using m(1,2) m8 by (cases pad) (simp_all add: base32_quanta.simps [of dec room])
  have sp: "span_in dec 32 ?p = Some (length vs)"
    using span_in_enc [OF assms(1), of ?pads] span_in_pads [of m] by (cases pad) simp_all
  have "base32_final dec (length vs) ?p = Some (base32_bytes n dec ?p, m)"
    using assms(2) by (auto simp: base32_final_def)
  then have fin: "base32_final dec (length vs) ?p = Some (map (\<lambda>i. base32_byte i ((!) vs)) [0..<n], m)"
    using bytes_digits [OF assms(1) m(4,3)] by simp
  have "decode_end pad nt err m bs (drop (length vs) ?p) f = Base_Ok bs (f + (if pad then m else 0)) err" for err bs f
    using pad_loop_all [of m "[]" f] by (simp add: decode_end_def)
  then show ?thesis unfolding q using sp fin assms(3) by (simp add: base32_finish_def)
qed

text \<open>The last quantum, of \<open>n\<close> bytes as \<open>k\<close> digits and \<open>m\<close> padding characters.\<close>

lemma finish_short:
  assumes "(k, n, m) \<in> {(2, 1, 6), (4, 2, 4), (5, 3, 3), (7, 4, 1)}" "n \<le> room"
  shows "base32_finish pad nt dec (base32_quanta dec room
      (map enc (take k (digits32 a b c d e)) @ (if pad then replicate m (ch (CHR ''='')) else [])) out off) =
    Base_Ok (out @ take n [a, b, c, d, e]) (off + k + (if pad then m else 0)) (Some Parse_OK)"
proof -
  let ?ds = "digits32 a b c d e"
  have k: "k \<le> 8" "n \<le> 5" "digits_needed n \<le> k" using assms(1) by (auto simp: digits_needed_def)
  have vs: "\<forall>v \<in> set (take k ?ds). v < 32" using digits32_less [of a b c d e] by (auto dest: in_set_takeD)
  have len: "length (take k ?ds) = k" using k(1) by (simp add: length_digits32)
  have "map (\<lambda>i. base32_byte i ((!) (take k ?ds))) [0..<n] = map (\<lambda>i. base32_byte i ((!) ?ds)) [0..<n]"
    by (intro map_cong refl base32_byte_cong [OF _ k(2)]) (use k(3) in auto)
  also have "\<dots> = take n [a, b, c, d, e]" by (rule quantum32_map [OF k(2)])
  finally show ?thesis
    using finish_digits [OF vs, unfolded len, OF assms, of pad nt out off] by simp
qed

lemma finish_text:
  assumes "length xs \<le> room"
  shows "base32_finish pad nt dec (base32_quanta dec room (base32_text pad enc xs) out off) =
    Base_Ok (out @ xs) (off + length (base32_text pad enc xs)) (Some Parse_OK)"
  using assms
proof (induction xs arbitrary: room out off rule: fives_induct)
  case (Five a b c d e rest)
  have room: "5 \<le> room" using Five.prems by simp
  show ?case
    unfolding base32_text.simps quanta_step [OF digits32_less length_digits32 room]
    using Five by (simp add: quantum32_map length_digits32)
next
  case (Four a b c d)
  then show ?case using finish_short [of 7 4 1 room] unfolding base32_text.simps by (simp add: length_digits32)
next
  case (Three a b c)
  then show ?case using finish_short [of 5 3 3 room] unfolding base32_text.simps by (simp add: length_digits32)
next
  case (Two a b)
  then show ?case using finish_short [of 4 2 4 room] unfolding base32_text.simps by (simp add: length_digits32)
next
  case (One a)
  then show ?case using finish_short [of 2 1 6 room] unfolding base32_text.simps by (simp add: length_digits32)
next
  case Nil
  show ?case by (simp add: base32_quanta.simps base32_finish_def base32_final_def decode_end_def)
qed

text \<open>Decoding what was encoded, with padding or without.\<close>

lemma decode_encode:
  assumes "fr_base32_encode_nstd room xs pad enc = Inr t" "length xs \<le> room'"
  shows "fr_base32_decode_nstd room' t pad nt dec = Base_Ok xs (length t) (Some Parse_OK)"
proof -
  have "t = base32_text pad enc xs"
    using base32_encode_text [of room pad enc xs] assms(1) by (cases "room < length (base32_text pad enc xs)") auto
  then show ?thesis using finish_text [OF assms(2), of pad nt "[]" 0] by (simp add: fr_base32_decode_nstd_def)
qed

end

lemma base32_std: "\<forall>v. v < 32 \<longrightarrow> fr_base32_alphabet_decode (fr_base32_alphabet_encode v) = Some v"
  unfolding all_digits32 by code_simp

lemma base32_hex: "\<forall>v. v < 32 \<longrightarrow> fr_base32_hex_alphabet_decode (fr_base32_hex_alphabet_encode v) = Some v"
  unfolding all_digits32 by code_simp

interpretation std32: alphabet32 fr_base32_alphabet_encode fr_base32_alphabet_decode
  by unfold_locales (use base32_std in blast, simp add: fr_base32_alphabet_decode_def table_255_def table_get_def)

interpretation hex32: alphabet32 fr_base32_hex_alphabet_encode fr_base32_hex_alphabet_decode
  by unfold_locales (use base32_hex in blast, simp add: fr_base32_hex_alphabet_decode_def table_255_def table_get_def)

subsection \<open>Properties\<close>

text \<open>
  C32: Decoding the text of an encoding, in the standard or the extended hex alphabet, with padding or
  without it, returns the bytes that were encoded and reads all of it.
\<close>

theorem base32_roundtrip:
  assumes "fr_base32_encode_nstd room xs pad fr_base32_alphabet_encode = Inr t"
    "fr_base32_encode_nstd room xs pad fr_base32_hex_alphabet_encode = Inr u" "length xs \<le> room'"
  shows "fr_base32_decode_nstd room' t pad no_trailing fr_base32_alphabet_decode = Base_Ok xs (length t) (Some Parse_OK) \<and>
    fr_base32_decode_nstd room' u pad no_trailing fr_base32_hex_alphabet_decode = Base_Ok xs (length u) (Some Parse_OK)"
  using std32.decode_encode [OF assms(1,3)] hex32.decode_encode [OF assms(2,3)] by blast

theorem base32_roundtrip_witness:
  "fr_base32_decode_nstd 4 [78, 66, 85, 81, 61, 61, 61, 61] True True fr_base32_alphabet_decode =
    Base_Ok [104, 105] 8 (Some Parse_OK)"
proof -
  have "fr_base32_encode_nstd 8 [104, 105] True fr_base32_alphabet_encode = Inr [78, 66, 85, 81, 61, 61, 61, 61]"
    "fr_base32_encode_nstd 8 [104, 105] True fr_base32_hex_alphabet_encode = Inr [68, 49, 75, 71, 61, 61, 61, 61]"
    by code_simp+
  from base32_roundtrip [OF this, of 4 True] show ?thesis by simp
qed

end
