(* ===== verification/Base64.thy ===== *)
theory Base64
  imports Base_N
begin

text \<open>
  Base 64, \<open>src/lib/util/base64.c\<close>: the four tables, \<open>fr_base64_encode_nstd\<close> and
  \<open>fr_base64_decode_nstd\<close>.  Shifts are taken modulo \<open>2\<^sup>8\<close>: the code computes them as \<open>int\<close> and then
  masks or stores 8 bits.
\<close>

unbundle bit_operations_syntax

subsection \<open>Tables\<close>

definition fr_base64_alphabet_encode :: "byte \<Rightarrow> byte" where
  "fr_base64_alphabet_encode =
     table_get [(62, 1, ch (CHR ''+''), 0), (63, 1, ch (CHR ''/''), 0), (52, 10, ch (CHR ''0''), 1),
                (0, 26, ch (CHR ''A''), 1), (26, 26, ch (CHR ''a''), 1)]"

definition fr_base64_alphabet_decode :: "byte \<Rightarrow> byte option" where
  "fr_base64_alphabet_decode =
     table_255 [(0, 32, 255, 0), (32, 8, 255, 0), (40, 2, 255, 0), (ch (CHR ''+''), 1, 62, 0), (44, 2, 255, 0),
                (46, 1, 255, 0), (ch (CHR ''/''), 1, 63, 0), (ch (CHR ''0''), 10, 52, 1), (58, 4, 255, 0),
                (62, 2, 255, 0), (64, 1, 255, 0), (ch (CHR ''A''), 26, 0, 1), (91, 4, 255, 0), (95, 2, 255, 0),
                (ch (CHR ''a''), 26, 26, 1), (123, 128, 255, 0), (251, 4, 255, 0)]"

definition fr_base64_url_alphabet_encode :: "byte \<Rightarrow> byte" where
  "fr_base64_url_alphabet_encode =
     table_get [(62, 1, ch (CHR ''-''), 0), (52, 10, ch (CHR ''0''), 1), (63, 1, ch (CHR ''_''), 0),
                (0, 26, ch (CHR ''A''), 1), (26, 26, ch (CHR ''a''), 1)]"

definition fr_base64_url_alphabet_decode :: "byte \<Rightarrow> byte option" where
  "fr_base64_url_alphabet_decode =
     table_255 [(0, 32, 255, 0), (32, 8, 255, 0), (40, 4, 255, 0), (ch (CHR ''-''), 1, 62, 0), (46, 2, 255, 0),
                (ch (CHR ''0''), 10, 52, 1), (58, 4, 255, 0), (62, 2, 255, 0), (64, 1, 255, 0),
                (ch (CHR ''A''), 26, 0, 1), (91, 4, 255, 0), (ch (CHR ''_''), 1, 63, 0), (96, 1, 255, 0),
                (ch (CHR ''a''), 26, 26, 1), (123, 128, 255, 0), (251, 4, 255, 0)]"

subsection \<open>Encoding\<close>

fun fr_base64_encode_nstd :: "nat \<Rightarrow> bytes \<Rightarrow> bool \<Rightarrow> (byte \<Rightarrow> byte) \<Rightarrow> int + bytes" where
  "fr_base64_encode_nstd room (a # b # c # rest) add_padding al =
     sbuff_in room
       [al (drop_bit 2 a AND 0x3f), al ((push_bit 4 a OR drop_bit 4 b) AND 0x3f),
        al ((push_bit 2 b OR drop_bit 6 c) AND 0x3f), al (c AND 0x3f)]
       (\<lambda>room. fr_base64_encode_nstd room rest add_padding al)"
| "fr_base64_encode_nstd room [a, b] add_padding al =
     sbuff_in room
       [al (drop_bit 2 a AND 0x3f), al ((push_bit 4 a OR drop_bit 4 b) AND 0x3f), al (push_bit 2 b AND 0x3f)]
       (\<lambda>room. if add_padding then sbuff_in room [ch (CHR ''='')] (\<lambda>_. Inr []) else Inr [])"
| "fr_base64_encode_nstd room [a] add_padding al =
     sbuff_in room [al (drop_bit 2 a AND 0x3f), al (push_bit 4 a AND 0x3f)]
       (\<lambda>room. if add_padding then sbuff_in room [ch (CHR ''=''), ch (CHR ''='')] (\<lambda>_. Inr []) else Inr [])"
| "fr_base64_encode_nstd room [] add_padding al = Inr []"

definition FR_BASE64_ENC_LENGTH :: "nat \<Rightarrow> nat" where
  "FR_BASE64_ENC_LENGTH inlen = ((inlen + 2) div 3) * 4"

subsection \<open>Decoding\<close>

text \<open>The loop over complete quanta: what was decoded, what is left of the input and of the output's room.\<close>

fun base64_quanta :: "(byte \<Rightarrow> byte option) \<Rightarrow> nat \<Rightarrow> bytes \<Rightarrow> bytes \<Rightarrow> nat \<Rightarrow> base_result + bytes \<times> bytes \<times> nat \<times> nat" where
  "base64_quanta al room (p0 # p1 # p2 # p3 # rest) out off =
     (case all_in al 64 [p0, p1, p2, p3] of
        None \<Rightarrow> Inl Base_Overrun
      | Some False \<Rightarrow> Inr (out, p0 # p1 # p2 # p3 # rest, room, off)
      | Some True \<Rightarrow>
          if room < 3 then Inl (Base_Err Parse_Out_Of_Space off)
          else base64_quanta al (room - 3) rest
                 (out @ [push_bit 2 (al_val al p0) OR drop_bit 4 (al_val al p1),
                         (push_bit 4 (al_val al p1) AND 0xf0) OR drop_bit 2 (al_val al p2),
                         (push_bit 6 (al_val al p2) AND 0xc0) OR al_val al p3]) (off + 4))"
| "base64_quanta al room inp out off = Inr (out, inp, room, off)"

text \<open>The final quantum of \<open>n\<close> digits: its bytes and the padding to expect.\<close>

definition base64_final :: "(byte \<Rightarrow> byte option) \<Rightarrow> nat \<Rightarrow> bytes \<Rightarrow> (bytes \<times> nat) option" where
  "base64_final al n p =
     (if n = 0 then Some ([], 0)
      else if n = 2 then Some ([push_bit 2 (al_val al (p ! 0)) OR drop_bit 4 (al_val al (p ! 1))], 2)
      else if n = 3 then Some ([push_bit 2 (al_val al (p ! 0)) OR drop_bit 4 (al_val al (p ! 1)),
                                (push_bit 4 (al_val al (p ! 1)) AND 0xf0) OR drop_bit 2 (al_val al (p ! 2))], 1)
      else None)"

text \<open>What follows the loop.\<close>

definition base64_finish ::
  "bool \<Rightarrow> bool \<Rightarrow> (byte \<Rightarrow> byte option) \<Rightarrow> base_result + bytes \<times> bytes \<times> nat \<times> nat \<Rightarrow> base_result" where
  "base64_finish expect_padding no_trailing al r =
     (case r of
        Inl e \<Rightarrow> e
      | Inr (out, p, room, off) \<Rightarrow>
          (case span_in al 64 p of
             None \<Rightarrow> Base_Overrun
           | Some n \<Rightarrow>
               (case base64_final al n p of
                  None \<Rightarrow> Base_Err Parse_Format (off + n)
                | Some (bs, pad) \<Rightarrow>
                    if room < length bs then Base_Err Parse_Out_Of_Space (off + n)
                    else decode_end expect_padding no_trailing None pad (out @ bs) (drop n p) (off + n))))"

definition fr_base64_decode_nstd :: "nat \<Rightarrow> bytes \<Rightarrow> bool \<Rightarrow> bool \<Rightarrow> (byte \<Rightarrow> byte option) \<Rightarrow> base_result" where
  "fr_base64_decode_nstd room inp expect_padding no_trailing al =
     base64_finish expect_padding no_trailing al (base64_quanta al room inp [] 0)"

subsection \<open>The encoding as a whole\<close>

fun base64_text :: "bool \<Rightarrow> (byte \<Rightarrow> byte) \<Rightarrow> bytes \<Rightarrow> bytes" where
  "base64_text pad al (a # b # c # rest) =
     map al [drop_bit 2 a AND 0x3f, (push_bit 4 a OR drop_bit 4 b) AND 0x3f, (push_bit 2 b OR drop_bit 6 c) AND 0x3f, c AND 0x3f]
     @ base64_text pad al rest"
| "base64_text pad al [a, b] =
     map al [drop_bit 2 a AND 0x3f, (push_bit 4 a OR drop_bit 4 b) AND 0x3f, push_bit 2 b AND 0x3f]
     @ (if pad then [ch (CHR ''='')] else [])"
| "base64_text pad al [a] =
     map al [drop_bit 2 a AND 0x3f, push_bit 4 a AND 0x3f] @ (if pad then [ch (CHR ''=''), ch (CHR ''='')] else [])"
| "base64_text pad al [] = []"

lemma base64_encode_text:
  "(room < length (base64_text pad al xs) \<longrightarrow> (\<exists>e < 0. fr_base64_encode_nstd room xs pad al = Inl e)) \<and>
   (length (base64_text pad al xs) \<le> room \<longrightarrow> fr_base64_encode_nstd room xs pad al = Inr (base64_text pad al xs))"
proof (induction pad al xs arbitrary: room rule: base64_text.induct)
  case (1 pad al a b c rest)
  show ?case unfolding fr_base64_encode_nstd.simps base64_text.simps list.map by (rule sbuff_in_text) (rule 1)
next
  case (2 pad al a b)
  show ?case unfolding fr_base64_encode_nstd.simps base64_text.simps list.map
    by (rule sbuff_in_text) (auto simp: sbuff_in_def)
next
  case (3 pad al a)
  show ?case unfolding fr_base64_encode_nstd.simps base64_text.simps list.map
    by (rule sbuff_in_text) (auto simp: sbuff_in_def)
qed simp

lemma base64_length: "length (base64_text True al xs) = FR_BASE64_ENC_LENGTH (length xs)"
proof (induction "True" al xs rule: base64_text.induct)
  case (1 al a b c rest)
  have "(length (a # b # c # rest) + 2) div 3 = (length rest + 2) div 3 + 1" by simp
  with 1 show ?case by (simp add: FR_BASE64_ENC_LENGTH_def)
qed (simp_all add: FR_BASE64_ENC_LENGTH_def)

text \<open>The bits of three bytes, cut into digits and put together again.\<close>

lemma quantum_bits:
  "push_bit 2 (drop_bit 2 a AND 0x3f) OR drop_bit 4 ((push_bit 4 a OR drop_bit 4 b) AND 0x3f) = (a :: byte)"
  "(push_bit 4 ((push_bit 4 a OR drop_bit 4 b) AND 0x3f) AND 0xf0) OR drop_bit 2 ((push_bit 2 b OR drop_bit 6 c) AND 0x3f) = (b :: byte)"
  "(push_bit 6 ((push_bit 2 b OR drop_bit 6 c) AND 0x3f) AND 0xc0) OR (c AND 0x3f) = (c :: byte)"
  "push_bit 2 (drop_bit 2 a AND 0x3f) OR drop_bit 4 (push_bit 4 a AND 0x3f) = (a :: byte)"
  "(push_bit 4 ((push_bit 4 a OR drop_bit 4 b) AND 0x3f) AND 0xf0) OR drop_bit 2 (push_bit 2 b AND 0x3f) = (b :: byte)"
  unfolding byte_eq_bits by (simp_all add: bit_simps)

lemma triples_induct [case_names Three Two One Nil]:
  assumes "\<And>a b c rest. P rest \<Longrightarrow> P (a # b # c # rest)" "\<And>a b. P [a, b]" "\<And>a. P [a]" "P []"
  shows "P (xs :: bytes)"
  by (rule base64_text.induct [where P = "\<lambda>_ _. P"]) (use assms in auto)

locale alphabet64 = alphabet enc dec 64 for enc dec
begin

lemma quanta_step:
  assumes "v0 < 64" "v1 < 64" "v2 < 64" "v3 < 64" "3 \<le> room"
  shows "base64_quanta dec room (enc v0 # enc v1 # enc v2 # enc v3 # rest) out off =
    base64_quanta dec (room - 3) rest
      (out @ [push_bit 2 v0 OR drop_bit 4 v1, (push_bit 4 v1 AND 0xf0) OR drop_bit 2 v2, (push_bit 6 v2 AND 0xc0) OR v3])
      (off + 4)"
  using assms all_in_enc_all [of "[v0, v1, v2, v3]"] by (simp add: al_val_enc)

lemma finish_two:
  assumes "v0 < 64" "v1 < 64" "v2 < 64" "2 \<le> room"
  shows "base64_finish pad nt dec (base64_quanta dec room (map enc [v0, v1, v2] @ (if pad then [ch (CHR ''='')] else [])) out off) =
    Base_Ok (out @ [push_bit 2 v0 OR drop_bit 4 v1, (push_bit 4 v1 AND 0xf0) OR drop_bit 2 v2]) (off + 3 + of_bool pad) None"
proof -
  obtain v where "dec (ch (CHR ''='')) = Some v" "\<not> v < 64" using pad_not_digit by blast
  with assms show ?thesis
    by (cases pad) (simp_all add: dec_enc al_val_enc base64_finish_def base64_final_def decode_end_def numeral_2_eq_2 numeral_3_eq_3)
qed

lemma finish_one:
  assumes "v0 < 64" "v1 < 64" "1 \<le> room"
  shows "base64_finish pad nt dec (base64_quanta dec room
      (map enc [v0, v1] @ (if pad then [ch (CHR ''=''), ch (CHR ''='')] else [])) out off) =
    Base_Ok (out @ [push_bit 2 v0 OR drop_bit 4 v1]) (off + 2 + 2 * of_bool pad) None"
proof -
  obtain v where "dec (ch (CHR ''='')) = Some v" "\<not> v < 64" using pad_not_digit by blast
  with assms show ?thesis
    by (cases pad) (simp_all add: dec_enc al_val_enc base64_finish_def base64_final_def decode_end_def numeral_2_eq_2 numeral_3_eq_3)
qed

lemma finish_text:
  assumes "length xs \<le> room"
  shows "base64_finish pad nt dec (base64_quanta dec room (base64_text pad enc xs) out off) =
    Base_Ok (out @ xs) (off + length (base64_text pad enc xs)) None"
  using assms
proof (induction xs arbitrary: room out off rule: triples_induct)
  case (Three a b c rest)
  then have room: "3 \<le> room" by simp
  show ?case
    unfolding base64_text.simps list.map append_Cons append_Nil
      quanta_step [OF and_less_64 and_less_64 and_less_64 and_less_64 room] quantum_bits
    using Three by simp
next
  case (Two a b)
  then have room: "2 \<le> room" by simp
  show ?case
    unfolding base64_text.simps finish_two [OF and_less_64 and_less_64 and_less_64 room] quantum_bits by simp
next
  case (One a)
  then have room: "1 \<le> room" by simp
  show ?case
    unfolding base64_text.simps finish_one [OF and_less_64 and_less_64 room] quantum_bits by simp
next
  case Nil
  show ?case by (simp add: base64_finish_def base64_final_def decode_end_def)
qed

text \<open>Decoding what was encoded, with padding or without.\<close>

lemma decode_encode:
  assumes "fr_base64_encode_nstd room xs pad enc = Inr t" "length xs \<le> room'"
  shows "fr_base64_decode_nstd room' t pad nt dec = Base_Ok xs (length t) None"
proof -
  have "t = base64_text pad enc xs"
    using base64_encode_text [of room pad enc xs] assms(1) by (cases "room < length (base64_text pad enc xs)") auto
  then show ?thesis using finish_text [OF assms(2), of pad nt "[]" 0] by (simp add: fr_base64_decode_nstd_def)
qed

end

lemma base64_std: "\<forall>v. v < 64 \<longrightarrow> fr_base64_alphabet_decode (fr_base64_alphabet_encode v) = Some v"
  unfolding all_digits64 by code_simp

lemma base64_url: "\<forall>v. v < 64 \<longrightarrow> fr_base64_url_alphabet_decode (fr_base64_url_alphabet_encode v) = Some v"
  unfolding all_digits64 by code_simp

interpretation std64: alphabet64 fr_base64_alphabet_encode fr_base64_alphabet_decode
  by unfold_locales (use base64_std in blast, simp add: fr_base64_alphabet_decode_def table_255_def table_get_def)

interpretation url64: alphabet64 fr_base64_url_alphabet_encode fr_base64_url_alphabet_decode
  by unfold_locales (use base64_url in blast, simp add: fr_base64_url_alphabet_decode_def table_255_def table_get_def)

subsection \<open>Properties\<close>

text \<open>
  C13: Encoding succeeds exactly when the text fits into the buffer, and decoding the text, in the standard
  or the URL alphabet, with padding or without it, returns the bytes that were encoded and reads all of it.
\<close>

theorem base64_roundtrip:
  assumes "fr_base64_encode_nstd room xs pad fr_base64_alphabet_encode = Inr t"
    "fr_base64_encode_nstd room xs pad fr_base64_url_alphabet_encode = Inr u" "length xs \<le> room'"
  shows "fr_base64_decode_nstd room' t pad no_trailing fr_base64_alphabet_decode = Base_Ok xs (length t) None \<and>
    fr_base64_decode_nstd room' u pad no_trailing fr_base64_url_alphabet_decode = Base_Ok xs (length u) None"
  using std64.decode_encode [OF assms(1,3)] url64.decode_encode [OF assms(2,3)] by blast

theorem base64_roundtrip_witness:
  "fr_base64_decode_nstd 4 [97, 71, 107, 47] True True fr_base64_alphabet_decode = Base_Ok [104, 105, 63] 4 None"
proof -
  have "fr_base64_encode_nstd 4 [104, 105, 63] True fr_base64_alphabet_encode = Inr [97, 71, 107, 47]"
    "fr_base64_encode_nstd 4 [104, 105, 63] True fr_base64_url_alphabet_encode = Inr [97, 71, 107, 95]"
    by code_simp+
  from base64_roundtrip [OF this, of 4 True] show ?thesis by simp
qed

text \<open>
  With padding, encoding succeeds exactly when \<open>FR_BASE64_ENC_LENGTH\<close> characters fit into the buffer,
  and writes that many.
\<close>

theorem base64_encode_fits:
  "if FR_BASE64_ENC_LENGTH (length xs) \<le> room
   then \<exists>t. fr_base64_encode_nstd room xs True al = Inr t \<and> length t = FR_BASE64_ENC_LENGTH (length xs)
   else \<exists>e < 0. fr_base64_encode_nstd room xs True al = Inl e"
  using base64_encode_text [of room True al xs] by (auto simp: base64_length not_le)

text \<open>
  Both decoding tables have a hole: besides the 64 digits the standard one accepts \<open>*\<close> and the URL one
  accepts the comma, as the digit 0.
\<close>

theorem base64_extra_digit:
  "(fr_base64_alphabet_decode c = Some v \<and> v < 64 \<longleftrightarrow>
     v < 64 \<and> c = fr_base64_alphabet_encode v \<or> c = ch (CHR ''*'') \<and> v = 0) \<and>
   (fr_base64_url_alphabet_decode c = Some v \<and> v < 64 \<longleftrightarrow>
     v < 64 \<and> c = fr_base64_url_alphabet_encode v \<or> c = ch (CHR '','') \<and> v = 0)"
proof -
  have std: "\<forall>c. case fr_base64_alphabet_decode c of None \<Rightarrow> True
      | Some v \<Rightarrow> v < 64 \<longrightarrow> c = fr_base64_alphabet_encode v \<or> c = ch (CHR ''*'') \<and> v = 0"
    unfolding all_bytes by code_simp
  have url: "\<forall>c. case fr_base64_url_alphabet_decode c of None \<Rightarrow> True
      | Some v \<Rightarrow> v < 64 \<longrightarrow> c = fr_base64_url_alphabet_encode v \<or> c = ch (CHR '','') \<and> v = 0"
    unfolding all_bytes by code_simp
  have star: "fr_base64_alphabet_decode (ch (CHR ''*'')) = Some 0" "fr_base64_url_alphabet_decode (ch (CHR '','')) = Some 0"
    by code_simp+
  show ?thesis
    using std [rule_format, of c] url [rule_format, of c] std64.dec_enc [of v] url64.dec_enc [of v] star by auto
qed

end
