(* ===== verification/Dns.thy ===== *)
theory Dns
  imports Prelude
begin

text \<open>
  Domain names in network packets: \<open>src/lib/util/dns.c\<close>.  A pointer into the packet is an offset from its first
  byte, which is also the \<open>start\<close> of the label tracking structure; the buffer begins at offset \<open>b\<close> and has
  \<open>len\<close> bytes.  A read outside of the packet, or of an array of the tracking structure, is \<open>Dns_Overrun\<close>.
\<close>

unbundle bit_operations_syntax

subsection \<open>Tracking labels\<close>

text \<open>The markup buffer, if there is one, and the blocks that hold labels; the number of blocks is the length of the list.\<close>

record fr_dns_labels =
  lb_mark :: "bytes option"
  lb_max :: nat
  lb_blocks :: "(nat \<times> nat) list"

definition MAX_OFFSET :: nat where
  "MAX_OFFSET = 2 ^ 14"

text \<open>\<open>None\<close>: there is no last block.\<close>

definition dns_label_add :: "fr_dns_labels option \<Rightarrow> nat \<Rightarrow> nat \<Rightarrow> (int \<times> fr_dns_labels option) option" where
  "dns_label_add lb start fin =
     (case lb of
        None \<Rightarrow> Some (0, lb)
      | Some l \<Rightarrow>
          let size = fin - start in
          if start + size \<ge> MAX_OFFSET then Some (0, lb)
          else if lb_max l = 1 then Some (0, lb)
          else if lb_blocks l = [] then None
          else case last (lb_blocks l) of (bstart, bend) \<Rightarrow>
            if bend = start then Some (0, Some (l\<lparr>lb_blocks := butlast (lb_blocks l) @ [(bstart, bend + size)]\<rparr>))
            else if length (lb_blocks l) = lb_max l then Some (-1, lb)
            else Some (0, Some (l\<lparr>lb_blocks := lb_blocks l @ [(start, start + size)]\<rparr>)))"

definition dns_label_mark :: "fr_dns_labels option \<Rightarrow> nat \<Rightarrow> fr_dns_labels option option" where
  "dns_label_mark lb p =
     (case lb of
        None \<Rightarrow> Some lb
      | Some l \<Rightarrow>
          (case lb_mark l of
             None \<Rightarrow> Some lb
           | Some m \<Rightarrow> if p < length m then Some (Some (l\<lparr>lb_mark := Some (m[p := 1])\<rparr>)) else None))"

fun block_valid :: "(nat \<times> nat) list \<Rightarrow> nat \<Rightarrow> bool" where
  "block_valid [] offset = False"
| "block_valid ((bstart, bend) # bs) offset =
     (if offset < bstart then False else if offset < bend then True else block_valid bs offset)"

definition dns_pointer_valid :: "fr_dns_labels option \<Rightarrow> nat \<Rightarrow> bool option" where
  "dns_pointer_valid lb offset =
     (case lb of
        None \<Rightarrow> Some True
      | Some l \<Rightarrow>
          (case lb_mark l of
             Some m \<Rightarrow> if offset < length m then Some (m ! offset \<noteq> 0) else None
           | None \<Rightarrow> Some (block_valid (lb_blocks l) offset)))"

subsection \<open>Lengths\<close>

text \<open>The value that is returned and the new \<open>*next\<close>.\<close>

datatype dns_ret = Dns_Overrun | Dns_Ret int nat

definition label_char :: "byte \<Rightarrow> bool" where
  "label_char c \<longleftrightarrow> c = 0x2d \<or> (0x30 \<le> c \<and> c \<le> 0x39) \<or> (0x41 \<le> c \<and> c \<le> 0x5a) \<or> (0x61 \<le> c \<and> c \<le> 0x7a)"

text \<open>The position of the first byte between \<open>q\<close> and \<open>fin\<close> that is not allowed in a label.\<close>

function bad_char :: "bytes \<Rightarrow> nat \<Rightarrow> nat \<Rightarrow> nat option" where
  "bad_char pkt q fin =
     (if q < fin then if label_char (pkt ! q) then bad_char pkt (q + 1) fin else Some q else None)"
  by pat_completeness auto
termination
  by (relation "measure (\<lambda>(pkt, q, fin). fin - q)") auto

declare bad_char.simps [simp del]

definition ptr_offset :: "bytes \<Rightarrow> nat \<Rightarrow> nat" where
  "ptr_offset pkt p = unat (pkt ! (p + 1)) + unat (pkt ! p AND NOT 0xc0) * 256"

text \<open>After the loop.\<close>

definition dns_finish ::
  "nat \<Rightarrow> nat \<Rightarrow> nat \<Rightarrow> nat \<times> bool \<Rightarrow> fr_dns_labels option \<Rightarrow> dns_ret \<times> fr_dns_labels option" where
  "dns_finish start p len ns lb =
     (let next = (if snd ns then fst ns else p) in
      case lb of
        None \<Rightarrow> (Dns_Ret (int len) next, lb)
      | Some l \<Rightarrow>
          (case lb_mark l of
             Some m \<Rightarrow> (Dns_Ret (int len) next, lb)
           | None \<Rightarrow>
               (case dns_label_add lb start next of
                  None \<Rightarrow> (Dns_Overrun, lb)
                | Some (_, lb') \<Rightarrow> (Dns_Ret (int len) next, lb'))))"

text \<open>
  The loop: \<open>current\<close> is where the name or the last pointer's target starts, \<open>ns\<close> is \<open>*next\<close> and whether it has been set.
  A pointer leads to before \<open>current\<close>, everything else leads forward.
\<close>

function dns_walk ::
  "bytes \<Rightarrow> nat \<Rightarrow> nat \<Rightarrow> nat \<Rightarrow> nat \<Rightarrow> nat \<Rightarrow> bool \<Rightarrow> nat \<times> bool \<Rightarrow> fr_dns_labels option \<Rightarrow> dns_ret \<times> fr_dns_labels option" where
  "dns_walk pkt fin start p current len first ns lb =
     (if p < fin then
        if p \<ge> length pkt then (Dns_Overrun, lb)
        else if pkt ! p = 0 then
          dns_finish start (p + 1) (if first then len + 1 else len) (if current = start then (p + 1, True) else ns) lb
        else if p + 1 \<ge> fin then (Dns_Ret (- int p) (fst ns), lb)
        else if pkt ! p > 63 \<and> pkt ! p < 0xc0 then (Dns_Ret (- int p) (fst ns), lb)
        else if pkt ! p > 63 then
          if p + 2 > fin then (Dns_Ret (- int p) (fst ns), lb)
          else if p + 1 \<ge> length pkt then (Dns_Overrun, lb)
          else if ptr_offset pkt p \<ge> p then (Dns_Ret (- int p) (fst ns), lb)
          else if ptr_offset pkt p \<ge> current then (Dns_Ret (- int p) (fst ns), lb)
          else
            (case dns_pointer_valid lb (ptr_offset pkt p) of
               None \<Rightarrow> (Dns_Overrun, lb)
             | Some valid \<Rightarrow>
                 if \<not> valid then (Dns_Ret (- int p) (fst ns), lb)
                 else if pkt ! ptr_offset pkt p > 63 then (Dns_Ret (- int p) (fst ns), lb)
                 else if pkt ! ptr_offset pkt p = 0 then (Dns_Ret (- int p) (fst ns), lb)
                 else dns_walk pkt fin start (ptr_offset pkt p) (ptr_offset pkt p) len first
                        (if current = start then (p + 2, True) else ns) lb)
        else if p + unat (pkt ! p) + 1 > fin then (Dns_Ret (- int p) (fst ns), lb)
        else
          (case dns_label_mark lb p of
             None \<Rightarrow> (Dns_Overrun, lb)
           | Some lb' \<Rightarrow>
               let len' = (if first then len else len + 1) + unat (pkt ! p) in
               if len' > 255 then (Dns_Ret (- int p) (fst ns), lb')
               else if p + unat (pkt ! p) \<ge> length pkt then (Dns_Overrun, lb')
               else
                 (case bad_char pkt (if pkt ! (p + 1) = 0x5f then p + 2 else p + 1) (p + 1 + unat (pkt ! p)) of
                    Some q \<Rightarrow> (Dns_Ret (- int q) (fst ns), lb')
                  | None \<Rightarrow> dns_walk pkt fin start (p + unat (pkt ! p) + 1) current len' False ns lb'))
      else dns_finish start p len ns lb)"
  by pat_completeness auto
termination
  by (relation "measures [\<lambda>(pkt, fin, start, p, current, len, first, ns, lb). current,
                          \<lambda>(pkt, fin, start, p, current, len, first, ns, lb). fin - p]") auto

declare dns_walk.simps [simp del]

definition fr_dns_label_uncompressed_length ::
  "bytes \<Rightarrow> nat \<Rightarrow> nat \<Rightarrow> nat \<Rightarrow> fr_dns_labels option \<Rightarrow> dns_ret \<times> fr_dns_labels option" where
  "fr_dns_label_uncompressed_length pkt b len next lb =
     (if len = 0 then (Dns_Ret 0 next, lb)
      else if \<not> next < b + len then (Dns_Ret 0 next, lb)
      else dns_walk pkt (b + len) next next next 0 True (next, False) lb)"

subsection \<open>Decoding\<close>

text \<open>The value that is returned, \<open>*start\<close> and \<open>*next\<close>, which is not set before the first label; \<open>None\<close> is a read outside of the packet.\<close>

definition label_decode_at :: "bytes \<Rightarrow> nat \<Rightarrow> nat \<Rightarrow> nat \<Rightarrow> nat option \<Rightarrow> (int \<times> nat \<times> nat option) option" where
  "label_decode_at pkt fin p start next =
     (if p \<ge> length pkt then None
      else if pkt ! p > 63 then Some (- int p, start, next)
      else if p + unat (pkt ! p) + 1 > fin then Some (- int p, start, next)
      else Some (uint (pkt ! p), p, Some (p + unat (pkt ! p) + 1)))"

definition dns_label_decode :: "bytes \<Rightarrow> nat \<Rightarrow> nat \<Rightarrow> nat option \<Rightarrow> (int \<times> nat \<times> nat option) option" where
  "dns_label_decode pkt fin start next =
     (if fin = 0 then Some (-1, start, next)
      else if start \<ge> length pkt then None
      else if pkt ! start = 0 then Some (0, start, Some (start + 1))
      else if pkt ! start \<ge> 0xc0 then
        if fin < 2 then Some (- int start, start, next)
        else if start + 1 \<ge> length pkt then None
        else if ptr_offset pkt start \<ge> start then Some (- int start, start, next)
        else label_decode_at pkt fin (ptr_offset pkt start) start next
      else label_decode_at pkt fin start start next)"

text \<open>The value that is returned and the string, if there is one.\<close>

datatype dns_box = Box_Overrun | Box_Ret int "bytes option"

definition box_finish :: "nat \<Rightarrow> nat \<Rightarrow> nat \<Rightarrow> bytes \<Rightarrow> dns_box" where
  "box_finish label after want out =
     (if length out \<noteq> want then Box_Ret (-1) None else Box_Ret (int after - int label) (Some out))"

text \<open>
  The copying loop; the string has room for \<open>want\<close> bytes and a final zero.  \<open>None\<close>: the loop does not end.
\<close>

partial_function (option) decode_loop ::
  "bytes \<Rightarrow> nat \<Rightarrow> nat \<Rightarrow> nat \<Rightarrow> nat \<Rightarrow> nat option \<Rightarrow> nat option \<Rightarrow> bytes \<Rightarrow> dns_box option" where
  "decode_loop pkt fin label after want current next out =
     (case current of
        None \<Rightarrow> Some (box_finish label after want out)
      | Some c \<Rightarrow>
          if c < after then
            if c \<ge> length pkt then Some Box_Overrun
            else if pkt ! c = 0 then Some (box_finish label after want out)
            else
              (case dns_label_decode pkt fin c next of
                 None \<Rightarrow> Some Box_Overrun
               | Some (slen, c', next') \<Rightarrow>
                   if slen < 0 then Some (Box_Ret slen None)
                   else if length out + nat slen > want then Some (Box_Ret (-1) None)
                   else
                     let out' = (if out \<noteq> [] then out @ [0x2e] else out)
                     in if length out' + nat slen > want + 1 \<or> c' + nat slen \<ge> length pkt then Some Box_Overrun
                        else decode_loop pkt fin label after want next' next' (out' @ take (nat slen) (drop (c' + 1) pkt)))
          else Some (box_finish label after want out))"

definition label_to_value_box ::
  "bytes \<Rightarrow> nat \<Rightarrow> nat \<Rightarrow> nat \<Rightarrow> fr_dns_labels option \<Rightarrow> dns_box option \<times> fr_dns_labels option" where
  "label_to_value_box pkt b len label lb =
     (case fr_dns_label_uncompressed_length pkt b len label lb of
        (Dns_Overrun, lb') \<Rightarrow> (Some Box_Overrun, lb')
      | (Dns_Ret slen after, lb') \<Rightarrow>
          if slen \<le> 0 then (Some (Box_Ret slen None), lb')
          else if slen = 1 then (Some (Box_Ret (int after - int label) (Some [0x2e])), lb')
          else (decode_loop pkt (b + len) label after (nat slen) (Some label) None [], lb'))"

text \<open>Without a tracking structure, the packet is the buffer.\<close>

definition fr_dns_label_to_value_box ::
  "bytes \<Rightarrow> nat \<Rightarrow> nat \<Rightarrow> nat \<Rightarrow> fr_dns_labels option \<Rightarrow> dns_box option \<times> fr_dns_labels option" where
  "fr_dns_label_to_value_box pkt b len label lb =
     (if len = 0 then (Some (Box_Ret (-1) None), lb)
      else if label < b \<or> label \<ge> b + len then (Some (Box_Ret (-1) None), lb)
      else
        (case lb of
           None \<Rightarrow> label_to_value_box (drop b pkt) 0 len (label - b) None
         | Some l \<Rightarrow> label_to_value_box pkt b len label (Some l)))"

lemma fr_dns_label_to_value_box_start:
  "lb = None \<longrightarrow> b = 0 \<Longrightarrow> fr_dns_label_to_value_box pkt b len label lb =
     (if len = 0 \<or> label < b \<or> label \<ge> b + len then (Some (Box_Ret (-1) None), lb) else label_to_value_box pkt b len label lb)"
  by (cases lb) (auto simp: fr_dns_label_to_value_box_def)

subsection \<open>Verifying\<close>

text \<open>The loop over the names of a buffer, with the value that is returned; \<open>None\<close>: it does not end.\<close>

partial_function (option) verify_loop ::
  "bytes \<Rightarrow> nat \<Rightarrow> nat \<Rightarrow> nat \<Rightarrow> fr_dns_labels option \<Rightarrow> (dns_ret \<times> fr_dns_labels option) option" where
  "verify_loop pkt b len label lb =
     (if label < b + len then
        if label \<ge> length pkt then Some (Dns_Overrun, lb)
        else if pkt ! label = 0 then Some (Dns_Ret (int (label + 1) - int b) (label + 1), lb)
        else
          (case fr_dns_label_uncompressed_length pkt b len label lb of
             (Dns_Overrun, lb') \<Rightarrow> Some (Dns_Overrun, lb')
           | (Dns_Ret slen label', lb') \<Rightarrow>
               if slen \<le> 0 then Some (Dns_Ret slen label', lb') else verify_loop pkt b len label' lb')
      else Some (Dns_Ret (int label - int b) label, lb))"

definition fr_dns_labels_network_verify ::
  "bytes \<Rightarrow> nat \<Rightarrow> nat \<Rightarrow> nat \<Rightarrow> fr_dns_labels option \<Rightarrow> (dns_ret \<times> fr_dns_labels option) option" where
  "fr_dns_labels_network_verify pkt b len start lb = verify_loop pkt b len start lb"

subsection \<open>Names\<close>

text \<open>What a name is: its labels, joined by dots.\<close>

fun dotted :: "bytes list \<Rightarrow> bytes" where
  "dotted [] = []"
| "dotted (l # ls) = l @ concat (map (\<lambda>l. 0x2e # l) ls)"

definition wf_label :: "bytes \<Rightarrow> bool" where
  "wf_label l \<longleftrightarrow> l \<noteq> [] \<and> length l \<le> 63 \<and> (label_char (hd l) \<or> hd l = 0x5f) \<and> (\<forall>c \<in> set (tl l). label_char c)"

definition label_at :: "bytes \<Rightarrow> nat \<Rightarrow> bytes" where
  "label_at pkt p = take (unat (pkt ! p)) (drop (p + 1) pkt)"

text \<open>The labels that are read from \<open>p\<close> on, where the part of the name that is in place ends before \<open>nx\<close>.\<close>

inductive name_at :: "bytes \<Rightarrow> nat \<Rightarrow> nat \<Rightarrow> nat \<Rightarrow> bytes list \<Rightarrow> bool" for pkt fin nx where
  stop: "nx \<le> p \<or> p < length pkt \<and> pkt ! p = 0 \<Longrightarrow> name_at pkt fin nx p []"
| label: "p < nx \<Longrightarrow> p + unat (pkt ! p) + 1 \<le> fin \<Longrightarrow> pkt ! p \<noteq> 0 \<Longrightarrow> pkt ! p \<le> 63 \<Longrightarrow> wf_label (label_at pkt p) \<Longrightarrow>
    name_at pkt fin nx (p + unat (pkt ! p) + 1) ls \<Longrightarrow> name_at pkt fin nx p (label_at pkt p # ls)"
| pointer: "p < nx \<Longrightarrow> p + 2 \<le> fin \<Longrightarrow> pkt ! p \<ge> 0xc0 \<Longrightarrow> ptr_offset pkt p < p \<Longrightarrow> pkt ! ptr_offset pkt p \<noteq> 0 \<Longrightarrow>
    pkt ! ptr_offset pkt p \<le> 63 \<Longrightarrow> name_at pkt fin nx (ptr_offset pkt p) ls \<Longrightarrow> name_at pkt fin nx p ls"

inductive_cases name_at_labelE: "name_at pkt fin nx p ls"

lemma length_label_at: "p + unat (pkt ! p) + 1 \<le> length pkt \<Longrightarrow> length (label_at pkt p) = unat (pkt ! p)"
  by (simp add: label_at_def)

text \<open>The loop copies exactly these labels, if there is room for them.\<close>

definition add_labels :: "bytes \<Rightarrow> bytes list \<Rightarrow> bytes" where
  "add_labels out ls = (if out = [] then dotted ls else out @ concat (map (\<lambda>l. 0x2e # l) ls))"

lemma add_labels_Cons: "l \<noteq> [] \<Longrightarrow> add_labels out (l # ls) = add_labels ((if out \<noteq> [] then out @ [0x2e] else out) @ l) ls"
  by (simp add: add_labels_def)

lemma length_add_labels: "length out \<le> length (add_labels out ls)"
  by (simp add: add_labels_def)

lemma name_at_label:
  assumes "name_at pkt fin nx p ls" "p < nx" "pkt ! p \<noteq> 0" "pkt ! p \<le> 63"
  obtains ls' where "ls = label_at pkt p # ls'" "p + unat (pkt ! p) + 1 \<le> fin" "wf_label (label_at pkt p)"
    "name_at pkt fin nx (p + unat (pkt ! p) + 1) ls'"
  using assms(1)
proof (cases rule: name_at.cases)
  case (pointer)
  then have "(0xc0 :: byte) \<le> 63" using assms(4) by (meson order_trans)
  then show ?thesis by simp
qed (use assms that in auto)

lemma decode_loop_label:
  assumes "p < nx" "p + unat (pkt ! p) + 1 \<le> fin" "pkt ! p \<noteq> 0" "pkt ! p \<le> 63" "fin \<le> length pkt"
    "length ((if out \<noteq> [] then out @ [0x2e] else out) @ label_at pkt p) \<le> want"
  shows "decode_loop pkt fin label nx want (Some p) next out =
    decode_loop pkt fin label nx want (Some (p + unat (pkt ! p) + 1)) (Some (p + unat (pkt ! p) + 1))
      ((if out \<noteq> [] then out @ [0x2e] else out) @ label_at pkt p)"
proof -
  have "\<not> 0xc0 \<le> pkt ! p" "\<not> pkt ! p > 63" using assms(4) order_trans [of "0xc0" "pkt ! p" 63] by (auto simp: not_less)
  then have "dns_label_decode pkt fin p next = Some (uint (pkt ! p), p, Some (p + unat (pkt ! p) + 1))"
    using assms by (simp add: dns_label_decode_def label_decode_at_def)
  then show ?thesis using assms length_label_at [of p pkt]
    by (subst decode_loop.simps) (auto simp: Let_def label_at_def)
qed

lemma decode_loop_name:
  assumes "name_at pkt fin nx p ls" "fin \<le> length pkt" "length (add_labels out ls) = want"
  shows "decode_loop pkt fin label nx want (Some p) next out = Some (Box_Ret (int nx - int label) (Some (add_labels out ls)))"
  using assms
proof (induction arbitrary: out "next" rule: name_at.induct)
  case (stop p)
  then have "decode_loop pkt fin label nx want (Some p) next out = Some (box_finish label nx want out)"
  proof (cases "nx \<le> p")
    case True
    then show ?thesis by (subst decode_loop.simps) simp
  next
    case False
    with stop.hyps show ?thesis by (subst decode_loop.simps) simp
  qed
  moreover have "add_labels out [] = out" by (simp add: add_labels_def)
  ultimately show ?case using stop.prems by (simp add: box_finish_def)
next
  case (label p ls)
  let ?out = "(if out \<noteq> [] then out @ [0x2e] else out) @ label_at pkt p"
  have "label_at pkt p \<noteq> []" using label.hyps(5) by (simp add: wf_label_def)
  then have m: "add_labels out (label_at pkt p # ls) = add_labels ?out ls" by (rule add_labels_Cons)
  then have "length ?out \<le> want" using label.prems(2) length_add_labels [of ?out ls] by simp
  from decode_loop_label [OF label.hyps(1-4) label.prems(1) this] show ?case
    using label.IH [of ?out] label.prems m by simp
next
  case (pointer p ls)
  let ?q = "ptr_offset pkt p"
  have q: "?q < nx" using pointer.hyps(1,4) by simp
  obtain ls' where l: "?q + unat (pkt ! ?q) + 1 \<le> fin" using name_at_label [OF pointer.hyps(7) q pointer.hyps(5,6)] by metis
  have "\<not> 0xc0 \<le> pkt ! ?q" "\<not> pkt ! ?q > 63"
    using pointer.hyps(6) order_trans [of "0xc0" "pkt ! ?q" 63] by (auto simp: not_less)
  then have "dns_label_decode pkt fin p next = dns_label_decode pkt fin ?q next"
    using pointer.hyps(2-6) pointer.prems(1) l by (auto simp: dns_label_decode_def label_decode_at_def)
  moreover have "pkt ! p \<noteq> 0" using pointer.hyps(3) by auto
  ultimately have "decode_loop pkt fin label nx want (Some p) next out = decode_loop pkt fin label nx want (Some ?q) next out"
    using pointer.hyps(1,2,5) q pointer.prems(1) l by (subst (1 2) decode_loop.simps) simp
  then show ?case using pointer.IH [of out] pointer.prems by simp
qed

subsection \<open>The length is the one of a name\<close>

lemma bad_char_None: "bad_char pkt q fin = None \<longleftrightarrow> (\<forall>i. q \<le> i \<and> i < fin \<longrightarrow> label_char (pkt ! i))"
proof (induction pkt q fin rule: bad_char.induct)
  case (1 pkt q fin)
  have split: "(\<forall>i. q \<le> i \<and> i < fin \<longrightarrow> label_char (pkt ! i)) \<longleftrightarrow>
      label_char (pkt ! q) \<and> (\<forall>i. q + 1 \<le> i \<and> i < fin \<longrightarrow> label_char (pkt ! i))" if "q < fin"
    using that by (metis Suc_eq_plus1 Suc_leI le_eq_less_or_eq Suc_leD)
  show ?case
  proof (cases "q < fin \<and> label_char (pkt ! q)")
    case True
    then have "bad_char pkt q fin = bad_char pkt (q + 1) fin" by (subst bad_char.simps) simp
    then show ?thesis using 1 True split by simp
  next
    case False
    then show ?thesis using split by (subst bad_char.simps) auto
  qed
qed

lemma wf_label_at:
  assumes "p + unat (pkt ! p) < length pkt" "pkt ! p \<noteq> 0" "pkt ! p \<le> 63"
    "bad_char pkt (if pkt ! (p + 1) = 0x5f then p + 2 else p + 1) (p + 1 + unat (pkt ! p)) = None"
  shows "wf_label (label_at pkt p)"
proof -
  let ?n = "unat (pkt ! p)"
  have n: "0 < ?n" "?n \<le> 63" using assms(2,3) by (simp_all add: unat_gt_0 word_le_nat_alt)
  have len: "length (label_at pkt p) = ?n" using assms(1) by (intro length_label_at) simp
  have nth: "label_at pkt p ! i = pkt ! (p + 1 + i)" if "i < ?n" for i using that assms(1) by (simp add: label_at_def)
  have c: "label_char (pkt ! (p + 1 + i))" if "i < ?n" "i = 0 \<longrightarrow> pkt ! (p + 1) \<noteq> 0x5f" for i
  proof -
    have "(if pkt ! (p + 1) = 0x5f then p + 2 else p + 1) \<le> p + 1 + i" using that(2) by auto
    then show ?thesis using assms(4) that(1) unfolding bad_char_None by simp
  qed
  have ne: "label_at pkt p \<noteq> []" using n(1) len by (metis length_0_conv less_irrefl)
  then have "hd (label_at pkt p) = pkt ! (p + 1)" using nth [OF n(1)] by (simp add: hd_conv_nth)
  then have "label_char (hd (label_at pkt p)) \<or> hd (label_at pkt p) = 0x5f" using c [OF n(1)] by auto
  moreover have "label_char (tl (label_at pkt p) ! i)" if "i < length (tl (label_at pkt p))" for i
    using c [of "Suc i"] nth [of "Suc i"] that len by (simp add: nth_tl)
  then have "\<forall>x \<in> set (tl (label_at pkt p)). label_char x" by (metis in_set_conv_nth)
  ultimately show ?thesis using n ne len by (simp add: wf_label_def)
qed

text \<open>The arrays of the tracking structure are large enough.\<close>

definition lb_ok :: "nat \<Rightarrow> fr_dns_labels option \<Rightarrow> bool" where
  "lb_ok fin lb \<longleftrightarrow> (case lb of None \<Rightarrow> True
     | Some l \<Rightarrow> (case lb_mark l of Some m \<Rightarrow> fin \<le> length m | None \<Rightarrow> lb_blocks l \<noteq> []))"

lemma lb_ok_mark: "lb_ok fin lb \<Longrightarrow> p < fin \<Longrightarrow> \<exists>lb'. dns_label_mark lb p = Some lb' \<and> lb_ok fin lb'"
  by (auto simp: lb_ok_def dns_label_mark_def split: option.splits)

lemma lb_ok_valid: "lb_ok fin lb \<Longrightarrow> p < fin \<Longrightarrow> \<exists>v. dns_pointer_valid lb p = Some v"
  by (auto simp: lb_ok_def dns_pointer_valid_def split: option.splits)

lemma lb_ok_add: "lb_ok fin lb \<Longrightarrow> lb = Some l \<Longrightarrow> lb_mark l = None \<Longrightarrow> \<exists>r lb'. dns_label_add lb a b = Some (r, lb') \<and> lb_ok fin lb'"
  by (cases "last (lb_blocks l)") (simp add: lb_ok_def dns_label_add_def Let_def)

lemma lb_ok_finish:
  assumes "lb_ok fin lb"
  shows "\<exists>lb'. dns_finish start p len ns lb = (Dns_Ret (int len) (if snd ns then fst ns else p), lb') \<and> lb_ok fin lb'"
proof (cases "\<exists>l. lb = Some l \<and> lb_mark l = None")
  case True
  then show ?thesis using lb_ok_add [OF assms, of _ start "if snd ns then fst ns else p"] by (auto simp: dns_finish_def Let_def)
next
  case False
  then show ?thesis using assms by (auto simp: dns_finish_def Let_def split: option.splits)
qed

text \<open>The characters that a name adds to the string, and the state of the loop: after a pointer at \<open>j\<close> it stays before \<open>j\<close>.\<close>

definition name_len :: "bool \<Rightarrow> bytes list \<Rightarrow> nat" where
  "name_len first ls = (if first then if ls = [] then 1 else length (dotted ls) else length (concat (map (\<lambda>l. 0x2e # l) ls)))"

definition walk_inv :: "bytes \<Rightarrow> nat \<Rightarrow> nat \<Rightarrow> nat \<Rightarrow> nat \<Rightarrow> nat \<Rightarrow> bool \<Rightarrow> nat \<times> bool \<Rightarrow> bool" where
  "walk_inv pkt fin start p current len first ns \<longleftrightarrow>
     p \<le> fin \<and> len \<le> 255 \<and> (first \<longrightarrow> p < fin \<and> len = 0) \<and>
     (if snd ns
      then current < start \<and> (\<exists>j. p \<le> j \<and> j + 2 \<le> fin \<and> 0xc0 \<le> pkt ! j \<and> current \<le> ptr_offset pkt j \<and> ns = (j + 2, True))
      else current = start)"

definition walk_res :: "bytes \<Rightarrow> nat \<Rightarrow> nat \<Rightarrow> nat \<Rightarrow> bool \<Rightarrow> nat \<times> bool \<Rightarrow> dns_ret \<times> fr_dns_labels option \<Rightarrow> bool" where
  "walk_res pkt fin p len first ns res \<longleftrightarrow> lb_ok fin (snd res) \<and>
     (case fst res of
        Dns_Overrun \<Rightarrow> False
      | Dns_Ret r nx \<Rightarrow> r \<le> 0 \<or>
          (\<exists>ls. name_at pkt fin nx p ls \<and> r = int (len + name_len first ls) \<and> r \<le> 255 \<and> nx \<le> fin \<and>
             (if snd ns then nx = fst ns else p \<le> nx \<and> (p < fin \<longrightarrow> p < nx))))"

lemma walk_res_error: "lb_ok fin lb \<Longrightarrow> walk_res pkt fin p len first ns (Dns_Ret (- int q) nx, lb)"
  by (simp add: walk_res_def)

lemma walk_res_finish:
  assumes "lb_ok fin lb" "name_at pkt fin (if snd ns then fst ns else p') p []" "len' = len + name_len first []" "len' \<le> 255"
    "if snd ns then fst ns \<le> fin else p' \<le> fin \<and> p \<le> p' \<and> (p < fin \<longrightarrow> p < p')"
  shows "walk_res pkt fin p len first ns (dns_finish start p' len' ns lb)"
  using lb_ok_finish [OF assms(1), of start p' len' ns] assms(2-) by (auto simp: walk_res_def intro!: exI [of _ "[]"])

lemma walk_res_label:
  assumes "walk_res pkt fin (p + unat (pkt ! p) + 1) ((if first then len else len + 1) + unat (pkt ! p)) False ns res"
    "p < fin" "p + unat (pkt ! p) + 1 \<le> fin" "pkt ! p \<noteq> 0" "pkt ! p \<le> 63" "wf_label (label_at pkt p)"
    "length (label_at pkt p) = unat (pkt ! p)" "snd ns \<Longrightarrow> p < fst ns"
  shows "walk_res pkt fin p len first ns res"
proof (cases "fst res")
  case (Dns_Ret r nx)
  show ?thesis
  proof (cases "r \<le> 0")
    case False
    then obtain ls where ls: "name_at pkt fin nx (p + unat (pkt ! p) + 1) ls"
        "r = int (((if first then len else len + 1) + unat (pkt ! p)) + name_len False ls)" "r \<le> 255" "nx \<le> fin"
        "if snd ns then nx = fst ns else p + unat (pkt ! p) + 1 \<le> nx"
      using assms(1) Dns_Ret by (auto simp: walk_res_def split: if_splits)
    then have "p < nx" using assms(8) by (auto split: if_splits)
    then have "name_at pkt fin nx p (label_at pkt p # ls)" using name_at.label assms(3-6) ls(1) by blast
    moreover have "r = int (len + name_len first (label_at pkt p # ls))" using ls(2) assms(7) by (simp add: name_len_def)
    ultimately show ?thesis using assms(1) Dns_Ret ls(3-5) \<open>p < nx\<close> by (fastforce simp: walk_res_def)
  qed (use assms(1) Dns_Ret in \<open>simp add: walk_res_def\<close>)
qed (use assms(1) in \<open>simp add: walk_res_def\<close>)

lemma walk_res_pointer:
  assumes "walk_res pkt fin (ptr_offset pkt p) len first (if current = start then (p + 2, True) else ns) res"
    "p + 2 \<le> fin" "0xc0 \<le> pkt ! p" "ptr_offset pkt p < p" "pkt ! ptr_offset pkt p \<noteq> 0" "pkt ! ptr_offset pkt p \<le> 63"
    "if snd ns then current \<noteq> start \<and> p < fst ns else current = start"
  shows "walk_res pkt fin p len first ns res"
proof (cases "fst res")
  case (Dns_Ret r nx)
  show ?thesis
  proof (cases "r \<le> 0")
    case False
    then obtain ls where ls: "name_at pkt fin nx (ptr_offset pkt p) ls"
        "r = int (len + name_len first ls)" "r \<le> 255" "nx \<le> fin" "nx = (if snd ns then fst ns else p + 2)"
      using assms(1,7) Dns_Ret by (auto simp: walk_res_def split: if_splits)
    then have "p < nx" using assms(7) by (auto split: if_splits)
    then have "name_at pkt fin nx p ls" using name_at.pointer assms(2-6) ls(1) by blast
    then show ?thesis using assms(1) Dns_Ret ls(2-5) \<open>p < nx\<close> by (fastforce simp: walk_res_def)
  qed (use assms(1) Dns_Ret in \<open>simp add: walk_res_def\<close>)
qed (use assms(1) in \<open>simp add: walk_res_def\<close>)

lemma dns_finish_set: "dns_finish start p len (p, True) lb = dns_finish start p len (a, False) lb"
  by (simp add: dns_finish_def)

lemma not_pointer_in_label:
  assumes "wf_label (label_at pkt p)" "p + unat (pkt ! p) < length pkt" "p < j" "j \<le> p + unat (pkt ! p)"
  shows "\<not> 0xc0 \<le> pkt ! j"
proof -
  have "pkt ! j = label_at pkt p ! (j - p - 1)" "j - p - 1 < length (label_at pkt p)" using assms(2-4) by (auto simp: label_at_def)
  then have "pkt ! j \<in> set (label_at pkt p)" by (metis nth_mem)
  then have "label_char (pkt ! j) \<or> pkt ! j = 0x5f"
    using assms(1) by (cases "label_at pkt p") (auto simp: wf_label_def)
  then show ?thesis by (auto simp: label_char_def word_le_nat_alt)
qed

lemma walk_inv_label:
  assumes "walk_inv pkt fin start p current len first ns" "fin \<le> length pkt" "p + unat (pkt ! p) + 1 \<le> fin" "pkt ! p \<le> 63"
    "wf_label (label_at pkt p)" "len' \<le> 255"
  shows "walk_inv pkt fin start (p + unat (pkt ! p) + 1) current len' False ns" "snd ns \<Longrightarrow> p < fst ns"
proof -
  have "p + unat (pkt ! p) + 1 \<le> j" if "0xc0 \<le> pkt ! j" "p \<le> j" for j
  proof (rule ccontr)
    assume n: "\<not> p + unat (pkt ! p) + 1 \<le> j"
    have "p \<noteq> j" using that(1) assms(4) order_trans [of "0xc0" "pkt ! p" 63] by auto
    then show False using not_pointer_in_label [OF assms(5), of j] n that assms(2,3) by simp
  qed
  then show "walk_inv pkt fin start (p + unat (pkt ! p) + 1) current len' False ns" "snd ns \<Longrightarrow> p < fst ns"
    using assms(1,3,6) unfolding walk_inv_def by (auto split: if_splits)
qed

text \<open>The steps of the loop.\<close>

lemma walk_end: "\<not> p < fin \<Longrightarrow> dns_walk pkt fin start p current len first ns lb = dns_finish start p len ns lb"
  by (subst dns_walk.simps) simp

lemma walk_zero:
  assumes "p < fin" "fin \<le> length pkt" "pkt ! p = 0"
  shows "dns_walk pkt fin start p current len first ns lb =
    dns_finish start (p + 1) (if first then len + 1 else len) (if current = start then (p + 1, True) else ns) lb"
  using assms by (subst dns_walk.simps) simp

lemma walk_fail:
  assumes "p < fin" "fin \<le> length pkt" "pkt ! p \<noteq> 0" "p + 1 \<ge> fin \<or> pkt ! p > 63 \<and> pkt ! p < 0xc0"
  shows "dns_walk pkt fin start p current len first ns lb = (Dns_Ret (- int p) (fst ns), lb)"
  using assms by (subst dns_walk.simps) auto

definition pointer_ok :: "bytes \<Rightarrow> nat \<Rightarrow> nat \<Rightarrow> fr_dns_labels option \<Rightarrow> bool" where
  "pointer_ok pkt p current lb \<longleftrightarrow> ptr_offset pkt p < p \<and> ptr_offset pkt p < current \<and>
     dns_pointer_valid lb (ptr_offset pkt p) = Some True \<and> pkt ! ptr_offset pkt p \<le> 63 \<and> pkt ! ptr_offset pkt p \<noteq> 0"

lemma walk_pointer:
  assumes "p + 1 < fin" "fin \<le> length pkt" "pkt ! p > 63" "\<not> pkt ! p < 0xc0" "lb_ok fin lb"
  shows "dns_walk pkt fin start p current len first ns lb =
    (if pointer_ok pkt p current lb
     then dns_walk pkt fin start (ptr_offset pkt p) (ptr_offset pkt p) len first (if current = start then (p + 2, True) else ns) lb
     else (Dns_Ret (- int p) (fst ns), lb))"
proof -
  have nz: "pkt ! p \<noteq> 0" using assms(3) by auto
  show ?thesis
  proof (cases "pointer_ok pkt p current lb")
    case True
    then show ?thesis unfolding pointer_ok_def using assms nz by (subst dns_walk.simps) (auto simp: not_less)
  next
    case False
    then have "dns_walk pkt fin start p current len first ns lb = (Dns_Ret (- int p) (fst ns), lb)"
      unfolding pointer_ok_def using assms nz lb_ok_valid [OF assms(5), of "ptr_offset pkt p"]
      by (subst dns_walk.simps) (auto simp: not_le)
    then show ?thesis using False by simp
  qed
qed

lemma walk_label:
  assumes "p + 1 < fin" "fin \<le> length pkt" "pkt ! p \<noteq> 0" "\<not> pkt ! p > 63" "p + unat (pkt ! p) + 1 \<le> fin"
    "(if first then len else len + 1) + unat (pkt ! p) \<le> 255" "dns_label_mark lb p = Some lb'"
  shows "dns_walk pkt fin start p current len first ns lb =
    (case bad_char pkt (if pkt ! (p + 1) = 0x5f then p + 2 else p + 1) (p + 1 + unat (pkt ! p)) of
       Some q \<Rightarrow> (Dns_Ret (- int q) (fst ns), lb')
     | None \<Rightarrow> dns_walk pkt fin start (p + unat (pkt ! p) + 1) current ((if first then len else len + 1) + unat (pkt ! p)) False ns lb')"
  using assms by (subst dns_walk.simps) (simp add: Let_def)

lemma walk_label_fail:
  assumes "p + 1 < fin" "fin \<le> length pkt" "pkt ! p \<noteq> 0" "\<not> pkt ! p > 63" "lb_ok fin lb"
    "\<not> (p + unat (pkt ! p) + 1 \<le> fin \<and> (if first then len else len + 1) + unat (pkt ! p) \<le> 255)"
  obtains lb' where "dns_walk pkt fin start p current len first ns lb = (Dns_Ret (- int p) (fst ns), lb')" "lb_ok fin lb'"
proof -
  obtain lb' where m: "dns_label_mark lb p = Some lb'" "lb_ok fin lb'" using lb_ok_mark [OF assms(5), of p] assms(1) by auto
  have "\<exists>lb''. dns_walk pkt fin start p current len first ns lb = (Dns_Ret (- int p) (fst ns), lb'') \<and> lb_ok fin lb''"
    using assms m by (subst dns_walk.simps) (auto simp: Let_def)
  then show ?thesis using that by blast
qed

lemma walk_res_walk:
  assumes "walk_inv pkt fin start p current len first ns" "fin \<le> length pkt" "lb_ok fin lb"
  shows "walk_res pkt fin p len first ns (dns_walk pkt fin start p current len first ns lb)"
  using assms
proof (induction pkt fin start p current len first ns lb rule: dns_walk.induct)
  case (1 pkt fin start p current len first ns lb)
  note inv = 1(3) note fin = 1(4) note lb = 1(5)
  note err = walk_res_error [OF lb, of pkt p len first ns p "fst ns"]
  consider (over) "\<not> p < fin" | (zero) "p < fin" "pkt ! p = 0"
    | (fail) "p < fin" "pkt ! p \<noteq> 0" "p + 1 \<ge> fin \<or> pkt ! p > 63 \<and> pkt ! p < 0xc0"
    | (ptr) "p + 1 < fin" "pkt ! p > 63" "\<not> pkt ! p < 0xc0"
    | (lab) "p + 1 < fin" "pkt ! p \<noteq> 0" "\<not> pkt ! p > 63" by linarith
  then show ?case
  proof cases
    case over
    moreover have "\<not> snd ns" "\<not> first" "p = fin" "len \<le> 255" using over inv by (auto simp: walk_inv_def)
    ultimately show ?thesis using walk_res_finish [OF lb, of pkt ns p p len len first start]
      by (simp add: walk_end name_at.stop name_len_def)
  next
    case zero
    have "dns_walk pkt fin start p current len first ns lb = dns_finish start (p + 1) (if first then len + 1 else len) ns lb"
      using inv walk_zero [OF zero(1) fin zero(2)] dns_finish_set [of start "p + 1" _ lb]
      by (cases ns) (auto simp: walk_inv_def split: if_splits)
    also have "walk_res pkt fin p len first ns \<dots>"
      by (rule walk_res_finish [OF lb]) (use zero inv fin in \<open>auto simp: name_len_def walk_inv_def intro: name_at.stop split: if_splits\<close>)
    finally show ?thesis .
  next
    case fail
    then show ?thesis using err by (simp add: walk_fail fin)
  next
    case ptr
    let ?q = "ptr_offset pkt p" let ?ns = "if current = start then (p + 2, True) else ns"
    note step = walk_pointer [OF ptr(1) fin ptr(2,3) lb, of start current len first ns]
    show ?thesis
    proof (cases "pointer_ok pkt p current lb")
      case True
      have hi: "0xc0 \<le> pkt ! p" "pkt ! p \<noteq> 0" using ptr(2,3) by auto
      have inv': "walk_inv pkt fin start ?q ?q len first ?ns"
        using inv True ptr(1) hi unfolding walk_inv_def pointer_ok_def by (auto split: if_splits)
      have "walk_res pkt fin ?q len first ?ns (dns_walk pkt fin start ?q ?q len first ?ns lb)"
        by (rule 1(1)) (use True ptr hi fin lb inv' in \<open>auto simp: pointer_ok_def not_less not_le\<close>)
      then have "walk_res pkt fin p len first ns (dns_walk pkt fin start ?q ?q len first ?ns lb)"
        by (rule walk_res_pointer) (use True ptr hi inv in \<open>auto simp: walk_inv_def pointer_ok_def split: if_splits\<close>)
      then show ?thesis using step True by simp
    qed (use step err in simp)
  next
    case lab
    let ?n = "unat (pkt ! p)" let ?len = "(if first then len else len + 1) + unat (pkt ! p)"
    obtain lb' where m: "dns_label_mark lb p = Some lb'" "lb_ok fin lb'" using lb_ok_mark [OF lb, of p] lab(1) by auto
    show ?thesis
    proof (cases "p + ?n + 1 \<le> fin \<and> ?len \<le> 255")
      case False
      then show ?thesis using walk_label_fail [OF lab(1) fin lab(2,3) lb] walk_res_error by metis
    next
      case True
      then have step: "?n + p + 1 \<le> fin" "?len \<le> 255" by auto
      note step = walk_label [OF lab(1) fin lab(2,3) _ step(2) m(1), of start current ns]
      show ?thesis
      proof (cases "bad_char pkt (if pkt ! (p + 1) = 0x5f then p + 2 else p + 1) (p + 1 + ?n)")
        case (Some q)
        then show ?thesis using step True walk_res_error [OF m(2)] by simp
      next
        case None
        have le: "pkt ! p \<le> 63" using lab(3) by simp
        have wf: "wf_label (label_at pkt p)" using wf_label_at [OF _ lab(2) le None] True fin by simp
        have l: "length (label_at pkt p) = ?n" using length_label_at [of p pkt] True fin by simp
        note inv' = walk_inv_label [OF inv fin _ le wf, of ?len]
        have "walk_res pkt fin (p + ?n + 1) ?len False ns (dns_walk pkt fin start (p + ?n + 1) current ?len False ns lb')"
          by (rule 1(2)) (use True lab m fin inv' None in auto)
        then have "walk_res pkt fin p len first ns (dns_walk pkt fin start (p + ?n + 1) current ?len False ns lb')"
          by (rule walk_res_label) (use True lab le wf l inv' in auto)
        then show ?thesis using step None True by simp
      qed
    qed
  qed
qed

subsection \<open>Decoding is safe\<close>

lemma uncompressed_length_res:
  assumes "b + len \<le> length pkt" "lb_ok (b + len) lb" "0 < len" "label < b + len"
  shows "walk_res pkt (b + len) label 0 True (label, False) (fr_dns_label_uncompressed_length pkt b len label lb)"
  using walk_res_walk [of pkt "b + len" label label label 0 True "(label, False)" lb] assms
  by (simp add: fr_dns_label_uncompressed_length_def walk_inv_def)

text \<open>
  C7: whatever the bytes of the buffer, decoding a name ends, and reads nothing outside of the packet: the result is an error, or
  the number of bytes of the name in place and a string, which is the root or the labels that the packet has at this
  place, joined by dots, of at most 255 characters.
\<close>

theorem dns_decode_safe:
  assumes "b + len \<le> length pkt" "lb_ok (b + len) lb" "lb = None \<longrightarrow> b = 0"
  shows "\<exists>r str lb'. fr_dns_label_to_value_box pkt b len label lb = (Some (Box_Ret r str), lb') \<and> lb_ok (b + len) lb' \<and>
    (case str of
       None \<Rightarrow> r \<le> 0
     | Some s \<Rightarrow> 0 < r \<and> label + nat r \<le> b + len \<and> length s \<le> 255 \<and>
         (\<exists>ls. name_at pkt (b + len) (label + nat r) label ls \<and> (s = dotted ls \<or> s = [0x2e] \<and> length (dotted ls) \<le> 1)))"
proof (cases "len = 0 \<or> label < b \<or> label \<ge> b + len")
  case True
  then show ?thesis using assms(2) fr_dns_label_to_value_box_start [OF assms(3), of pkt len label] by auto
next
  case False
  note start = fr_dns_label_to_value_box_start [OF assms(3), of pkt len label]
  let ?u = "fr_dns_label_uncompressed_length pkt b len label lb"
  have res: "walk_res pkt (b + len) label 0 True (label, False) ?u" using uncompressed_length_res [OF assms(1,2)] False by simp
  then obtain r nx lb' where u: "?u = (Dns_Ret r nx, lb')" "lb_ok (b + len) lb'"
    by (cases ?u) (auto simp: walk_res_def split: dns_ret.splits)
  show ?thesis
  proof (cases "r \<le> 0")
    case True
    then show ?thesis using False u by (simp add: start label_to_value_box_def)
  next
    case pos: False
    then obtain ls where ls: "name_at pkt (b + len) nx label ls" "r = int (name_len True ls)" "r \<le> 255" "nx \<le> b + len" "label < nx"
      using res u(1) False by (auto simp: walk_res_def)
    have nx: "label + nat (int nx - int label) = nx" using ls(5) by simp
    show ?thesis
    proof (cases "r = 1")
      case True
      then have "length (dotted ls) \<le> 1" using ls(2) by (simp add: name_len_def split: if_splits)
      then show ?thesis using True False u ls(1,4,5) nx by (auto simp: start label_to_value_box_def)
    next
      case n: False
      then have d: "r = int (length (dotted ls))" using ls(2) by (simp add: name_len_def split: if_splits)
      have "fr_dns_label_to_value_box pkt b len label lb = (decode_loop pkt (b + len) label nx (nat r) (Some label) None [], lb')"
        using False u(1) pos n by (auto simp: start label_to_value_box_def)
      also have "\<dots> = (Some (Box_Ret (int nx - int label) (Some (dotted ls))), lb')"
        using decode_loop_name [OF ls(1) assms(1), of "[]" "nat r"] d by (simp add: add_labels_def)
      finally show ?thesis using u(2) ls(1,3,4,5) d nx by auto
    qed
  qed
qed

theorem dns_decode_safe_witness:
  "\<exists>r str lb'. fr_dns_label_to_value_box [1, 0x61, 0, 1, 0x62, 0xc0, 0] 0 7 3 None = (Some (Box_Ret r str), lb') \<and> lb_ok 7 lb' \<and>
    (case str of
       None \<Rightarrow> r \<le> 0
     | Some s \<Rightarrow> 0 < r \<and> 3 + nat r \<le> 7 \<and> length s \<le> 255 \<and>
         (\<exists>ls. name_at [1, 0x61, 0, 1, 0x62, 0xc0, 0] 7 (3 + nat r) 3 ls \<and> (s = dotted ls \<or> s = [0x2e] \<and> length (dotted ls) \<le> 1)))"
  using dns_decode_safe [of 0 7 "[1, 0x61, 0, 1, 0x62, 0xc0, 0]" None 3, unfolded add_0] by (simp add: lb_ok_def)

text \<open>What verification accepts: names one after the other, until a zero byte or the end of the buffer.\<close>

inductive names_to :: "bytes \<Rightarrow> nat \<Rightarrow> nat \<Rightarrow> nat \<Rightarrow> bool" for pkt fin nx where
  "nx = fin \<Longrightarrow> names_to pkt fin nx nx"
| "p < fin \<Longrightarrow> pkt ! p = 0 \<Longrightarrow> nx = p + 1 \<Longrightarrow> names_to pkt fin nx p"
| "p < q \<Longrightarrow> q \<le> fin \<Longrightarrow> pkt ! p \<noteq> 0 \<Longrightarrow> name_at pkt fin q p ls \<Longrightarrow> length (dotted ls) \<le> 255 \<Longrightarrow> names_to pkt fin nx q \<Longrightarrow>
    names_to pkt fin nx p"

lemma verify_loop_safe:
  assumes "b + len \<le> length pkt" "lb_ok (b + len) lb" "label \<le> b + len"
  shows "\<exists>r nx lb'. verify_loop pkt b len label lb = Some (Dns_Ret r nx, lb') \<and> lb_ok (b + len) lb' \<and>
    (r \<le> 0 \<or> r = int nx - int b \<and> names_to pkt (b + len) nx label)"
  using assms
proof (induction "b + len - label" arbitrary: label lb rule: less_induct)
  case less
  consider (over) "label = b + len" | (zero) "label < b + len" "pkt ! label = 0" | (name) "label < b + len" "pkt ! label \<noteq> 0"
    using less.prems(3) by linarith
  then show ?case
  proof cases
    case over
    then show ?thesis using less.prems by (subst verify_loop.simps) (simp add: names_to.intros)
  next
    case zero
    then show ?thesis using less.prems by (subst verify_loop.simps) (simp add: names_to.intros)
  next
    case name
    let ?u = "fr_dns_label_uncompressed_length pkt b len label lb"
    have res: "walk_res pkt (b + len) label 0 True (label, False) ?u"
    proof (cases "len = 0")
      case True
      then show ?thesis using less.prems(2) by (simp add: fr_dns_label_uncompressed_length_def walk_res_def)
    qed (use uncompressed_length_res [OF less.prems(1,2)] name in simp)
    then obtain r nx lb' where u: "?u = (Dns_Ret r nx, lb')" "lb_ok (b + len) lb'"
      by (cases ?u) (auto simp: walk_res_def split: dns_ret.splits)
    have step: "verify_loop pkt b len label lb = (if r \<le> 0 then Some (Dns_Ret r nx, lb') else verify_loop pkt b len nx lb')"
      using name less.prems(1) u(1) by (subst verify_loop.simps) simp
    show ?thesis
    proof (cases "r \<le> 0")
      case False
      then obtain ls where ls: "name_at pkt (b + len) nx label ls" "r = int (name_len True ls)" "r \<le> 255" "nx \<le> b + len" "label < nx"
        using res u(1) name by (auto simp: walk_res_def)
      then have "length (dotted ls) \<le> 255" by (auto simp: name_len_def split: if_splits)
      then have "names_to pkt (b + len) nx' nx \<Longrightarrow> names_to pkt (b + len) nx' label" for nx'
        using names_to.intros(3) ls name by blast
      then show ?thesis using less.hyps [OF _ less.prems(1) u(2) ls(4)] ls(4,5) step False by fastforce
    qed (use step u(2) in simp)
  qed
qed

text \<open>
  C20: verification ends on every buffer, and reads nothing outside of it.  When it returns a positive number, the buffer
  holds, from the place where verification began, a sequence of names that decoding accepts, up to that offset.
\<close>

theorem dns_verify_safe:
  assumes "b + len \<le> length pkt" "lb_ok (b + len) lb" "start \<le> b + len"
  shows "\<exists>r nx lb'. fr_dns_labels_network_verify pkt b len start lb = Some (Dns_Ret r nx, lb') \<and> lb_ok (b + len) lb' \<and>
    (r \<le> 0 \<or> r = int nx - int b \<and> names_to pkt (b + len) nx start)"
  using verify_loop_safe [OF assms] by (simp add: fr_dns_labels_network_verify_def)

theorem dns_verify_safe_witness:
  "\<exists>r nx lb'. fr_dns_labels_network_verify [1, 0x61, 0, 1, 0x62, 0xc0, 0] 0 7 0 None = Some (Dns_Ret r nx, lb') \<and> lb_ok 7 lb' \<and>
    (r \<le> 0 \<or> r = int nx \<and> names_to [1, 0x61, 0, 1, 0x62, 0xc0, 0] 7 nx 0)"
  using dns_verify_safe [of 0 7 "[1, 0x61, 0, 1, 0x62, 0xc0, 0]" None 0] by (simp add: lb_ok_def)

end
