(* ===== verification/Dns_Encode.thy ===== *)
theory Dns_Encode
  imports Dns
begin

text \<open>
  Writing domain names, with compression: \<open>src/lib/util/dns.c\<close>.  A name that is written into a buffer may end in a pointer to
  labels that the buffer already has; what a reader gets is the same name, apart from the case of letters.
\<close>

unbundle bit_operations_syntax

subsection \<open>Compression\<close>

definition letter :: "byte \<Rightarrow> bool" where
  "letter c \<longleftrightarrow> (0x61 \<le> c \<and> c \<le> 0x7a) \<or> (0x41 \<le> c \<and> c \<le> 0x5a)"

text \<open>The arguments are the \<open>len\<close> bytes at \<open>a\<close> and at \<open>b\<close>.\<close>

fun labelcmp :: "bytes \<Rightarrow> bytes \<Rightarrow> bool" where
  "labelcmp (x # a) (y # b) =
     (if x = y then labelcmp a b
      else if \<not> letter x then False
      else if \<not> letter y then False
      else if x XOR y \<noteq> 0x20 then False
      else labelcmp a b)"
| "labelcmp _ _ = True"

text \<open>The searches for the last label, and for a label that is followed by the suffix; what is found is the offset and the new \<open>search\<close>.\<close>

datatype scan = Scan_Overrun | Scan_None | Scan_Found nat nat

function scan_last :: "bytes \<Rightarrow> nat \<Rightarrow> nat \<Rightarrow> nat \<Rightarrow> nat \<Rightarrow> nat \<Rightarrow> scan" where
  "scan_last pkt packet fin label q search =
     (if q < fin then
        if q \<ge> length pkt then Scan_Overrun
        else if pkt ! q = 0 then scan_last pkt packet fin label (q + 1) (q + 1)
        else if pkt ! q > 63 then scan_last pkt packet fin label (q + 2) (q + 2)
        else
          let ptr = q + unat (pkt ! q) + 1 in
          if ptr > fin then Scan_None
          else if pkt ! q \<noteq> pkt ! label then scan_last pkt packet fin label ptr search
          else if ptr \<ge> length pkt then Scan_Overrun
          else if pkt ! ptr \<noteq> 0 then scan_last pkt packet fin label ptr search
          else if q - packet > 2 ^ 14 then Scan_None
          else if \<not> labelcmp (label_at pkt q) (label_at pkt label) then scan_last pkt packet fin label ptr search
          else Scan_Found q search
      else Scan_None)"
  by pat_completeness auto
termination
  by (relation "measure (\<lambda>(pkt, packet, fin, label, q, search). fin - q)") auto

declare scan_last.simps [simp del]

function scan_suffix :: "bytes \<Rightarrow> nat \<Rightarrow> nat \<Rightarrow> nat \<Rightarrow> nat \<Rightarrow> nat \<Rightarrow> nat \<Rightarrow> scan" where
  "scan_suffix pkt packet fin label nxt q search =
     (if q < fin then
        if q \<ge> length pkt then Scan_Overrun
        else if pkt ! q = 0 then scan_suffix pkt packet fin label nxt (q + 1) (q + 1)
        else if pkt ! q > 63 then scan_suffix pkt packet fin label nxt (q + 2) (q + 2)
        else
          let ptr = q + unat (pkt ! q) + 1;
              suffix = packet + ptr_offset pkt nxt;
              check_label =
                (if q - packet > 2 ^ 14 then Scan_None
                 else if \<not> labelcmp (label_at pkt q) (label_at pkt label) then scan_suffix pkt packet fin label nxt ptr search
                 else Scan_Found q search)
          in
          if ptr > fin then Scan_None
          else if pkt ! q \<noteq> pkt ! label then scan_suffix pkt packet fin label nxt ptr search
          else if ptr \<ge> length pkt then Scan_Overrun
          else if pkt ! ptr < 63 then
            if ptr \<noteq> suffix then scan_suffix pkt packet fin label nxt ptr search else check_label
          else if pkt ! ptr = pkt ! nxt \<and> ptr + 1 \<ge> length pkt then Scan_Overrun
          else if pkt ! ptr \<noteq> pkt ! nxt \<or> pkt ! (ptr + 1) \<noteq> pkt ! (nxt + 1)
          then scan_suffix pkt packet fin label nxt (ptr + 2) (ptr + 2)
          else check_label
      else Scan_None)"
  by pat_completeness auto
termination
  by (relation "measure (\<lambda>(pkt, packet, fin, label, nxt, q, search). fin - q)") auto

declare scan_suffix.simps [simp del]

text \<open>A label is replaced by a pointer to \<open>q\<close>.\<close>

definition put_pointer :: "bytes \<Rightarrow> nat \<Rightarrow> nat \<Rightarrow> bytes" where
  "put_pointer pkt label off =
     (let offset = (of_nat off :: u16) in
      pkt[label := ucast (drop_bit 8 offset OR 0xc0), label + 1 := ucast (offset AND 0xff)])"

text \<open>
  The value that is returned, the packet, \<open>*label_end\<close> and \<open>*new_search\<close>; the buffer that is searched has the offsets
  \<open>start\<close> to \<open>fin\<close>.  \<open>None\<close> is a read outside of the packet.
\<close>

function dns_label_compress ::
  "bytes \<Rightarrow> nat \<Rightarrow> nat \<Rightarrow> nat \<Rightarrow> nat option \<Rightarrow> nat \<Rightarrow> nat \<Rightarrow> (bool \<times> bytes \<times> nat \<times> nat option) option" where
  "dns_label_compress pkt packet start fin new_search label label_end =
     (if label \<ge> length pkt then None
      else if pkt ! label = 0 \<or> pkt ! label > 63 then Some (False, pkt, label_end, new_search)
      else
        let nxt = label + unat (pkt ! label) + 1;
            search = (case new_search of None \<Rightarrow> start | Some s \<Rightarrow> s)
        in
        if nxt \<ge> length pkt then None
        else if pkt ! nxt = 0 then
          (case scan_last pkt packet fin label search search of
             Scan_Overrun \<Rightarrow> None
           | Scan_None \<Rightarrow> Some (False, pkt, label_end, new_search)
           | Scan_Found q search' \<Rightarrow>
               Some (True, put_pointer pkt label (q - packet), label + 2, map_option (\<lambda>_. search') new_search))
        else
          (case (if pkt ! nxt < 63
                 then dns_label_compress pkt packet start fin (Some search) nxt label_end
                 else Some (True, pkt, label_end, Some search)) of
             None \<Rightarrow> None
           | Some (False, pkt', label_end', _) \<Rightarrow> Some (False, pkt', label_end', new_search)
           | Some (True, pkt', label_end', search') \<Rightarrow>
               let compressed = (pkt ! nxt < 63) in
               if pkt' ! nxt < 0xc0 then Some (compressed, pkt', label_end', new_search)
               else if nxt + 1 \<ge> length pkt' then None
               else
                 (case scan_suffix pkt' packet fin label nxt (the search') (the search') of
                    Scan_Overrun \<Rightarrow> None
                  | Scan_None \<Rightarrow> Some (compressed, pkt', label_end', new_search)
                  | Scan_Found q search'' \<Rightarrow>
                      Some (True, put_pointer pkt' label (q - packet), label + 2, map_option (\<lambda>_. search'') new_search))))"
  by pat_completeness auto
termination
  by (relation "measure (\<lambda>(pkt, packet, start, fin, new_search, label, label_end). length pkt - label)") auto

declare dns_label_compress.simps [simp del]

subsection \<open>Encoding\<close>

text \<open>
  The check of the characters from \<open>q\<close> on; \<open>n\<close> is \<open>q - last\<close>.  \<open>None\<close> is an error, the number says how many
  characters at the end of the string are not encoded.
\<close>

fun check_chars :: "bytes \<Rightarrow> nat \<Rightarrow> bool \<Rightarrow> nat option" where
  "check_chars [] n underscore = Some 0"
| "check_chars (c # q) n underscore =
     (if underscore \<and> c = 0x5f then if n + 1 > 63 then None else check_chars q (n + 1) False
      else if c = 0x2e then
        if q = [] then Some 1
        else if hd q = 0x2e then None
        else check_chars q 1 True
      else if \<not> label_char c then None
      else if n + 1 > 63 then None
      else check_chars q (n + 1) False)"

text \<open>\<open>None\<close> is a write outside of the packet.\<close>

fun encode_chars :: "bytes \<Rightarrow> nat \<Rightarrow> nat \<Rightarrow> bytes \<Rightarrow> (bytes \<times> nat) option" where
  "encode_chars pkt label data [] = Some (pkt, data)"
| "encode_chars pkt label data (c # q) =
     (if data \<ge> length pkt then None
      else if c = 0x2e then encode_chars (pkt[data := 0]) data (data + 1) q
      else encode_chars (pkt[data := c, label := pkt ! label + 1]) label (data + 1) q)"

fun compress_blocks :: "(nat \<times> nat) list \<Rightarrow> bytes \<Rightarrow> nat \<Rightarrow> nat \<Rightarrow> (bytes \<times> nat) option" where
  "compress_blocks [] pkt pos data = Some (pkt, data)"
| "compress_blocks ((bstart, bend) # bs) pkt pos data =
     (case dns_label_compress pkt 0 bstart bend None pos data of
        None \<Rightarrow> None
      | Some (_, pkt', data', _) \<Rightarrow> compress_blocks bs pkt' pos data')"

text \<open>The value that is returned, and \<open>*need\<close>; then the packet and the tracking structure.\<close>

datatype enc_ret = Enc_Overrun | Enc_Ret int "nat option"

definition dns_compress_name ::
  "bytes \<Rightarrow> nat \<Rightarrow> nat \<Rightarrow> bool \<Rightarrow> nat \<Rightarrow> fr_dns_labels option \<Rightarrow> enc_ret \<times> bytes \<times> fr_dns_labels option" where
  "dns_compress_name pkt b pos compression data lb =
     (if compression \<and> data - pos > 2 then
        (case lb of
           Some l \<Rightarrow>
             (case compress_blocks (lb_blocks l) pkt pos data of
                None \<Rightarrow> (Enc_Overrun, pkt, lb)
              | Some (pkt', data') \<Rightarrow>
                  (case dns_label_add lb pos data' of
                     None \<Rightarrow> (Enc_Overrun, pkt', lb)
                   | Some (_, lb') \<Rightarrow> (Enc_Ret (int (data' - pos)) None, pkt', lb')))
         | None \<Rightarrow>
             if b \<noteq> pos then
               (case dns_label_compress pkt b b pos None pos data of
                  None \<Rightarrow> (Enc_Overrun, pkt, lb)
                | Some (_, pkt', data', _) \<Rightarrow> (Enc_Ret (int (data' - pos)) None, pkt', lb))
             else (Enc_Ret (int (data - pos)) None, pkt, lb))
      else (Enc_Ret (int (data - pos)) None, pkt, lb))"

text \<open>The value is a string, or \<open>None\<close> for a value of another type.\<close>

definition fr_dns_label_from_value_box ::
  "bytes \<Rightarrow> nat \<Rightarrow> nat \<Rightarrow> nat \<Rightarrow> bool \<Rightarrow> bytes option \<Rightarrow> fr_dns_labels option \<Rightarrow> enc_ret \<times> bytes \<times> fr_dns_labels option" where
  "fr_dns_label_from_value_box pkt b buf_len pos compression val lb =
     (if buf_len = 0 then (Enc_Ret (-1) None, pkt, lb)
      else if \<not> (b \<le> pos \<and> pos < b + buf_len) then (Enc_Ret (-1) None, pkt, lb)
      else
        (case val of
           None \<Rightarrow> (Enc_Ret (-1) None, pkt, lb)
         | Some v \<Rightarrow>
             if v = [] \<or> v = [0x2e] then
               if pos \<ge> length pkt then (Enc_Overrun, pkt, lb) else (Enc_Ret 1 None, pkt[pos := 0], lb)
             else if hd v = 0x2e then (Enc_Ret (-1) None, pkt, lb)
             else
               (case check_chars v 0 True of
                  None \<Rightarrow> (Enc_Ret (-1) None, pkt, lb)
                | Some k \<Rightarrow>
                    let str = take (length v - k) v in
                    if pos + length str + 2 > b + buf_len then (Enc_Ret 0 (Some (pos + length str + 2 - b)), pkt, lb)
                    else if pos \<ge> length pkt then (Enc_Overrun, pkt, lb)
                    else
                      (case encode_chars (pkt[pos := 0]) pos (pos + 1) str of
                         None \<Rightarrow> (Enc_Overrun, pkt, lb)
                       | Some (pkt', data) \<Rightarrow>
                           if data \<ge> length pkt' then (Enc_Overrun, pkt', lb)
                           else dns_compress_name (pkt'[data := 0]) b pos compression (data + 1) lb))))"

text \<open>With a buffer that ends at \<open>fin\<close> and is filled up to \<open>p\<close>: the value that is returned, and the new \<open>p\<close>.\<close>

definition fr_dns_label_from_value_box_dbuff ::
  "bytes \<Rightarrow> nat \<Rightarrow> nat \<Rightarrow> bool \<Rightarrow> bytes option \<Rightarrow> fr_dns_labels option \<Rightarrow> (int \<times> nat \<times> bytes \<times> fr_dns_labels option) option" where
  "fr_dns_label_from_value_box_dbuff pkt p fin compression val lb =
     (case fr_dns_label_from_value_box pkt p (fin - p) p compression val lb of
        (Enc_Overrun, _) \<Rightarrow> None
      | (Enc_Ret slen need, pkt', lb') \<Rightarrow>
          if slen < 0 then Some (0, p, pkt', lb')
          else if slen = 0 then Some (- int (case need of None \<Rightarrow> 0 | Some n \<Rightarrow> n), p, pkt', lb')
          else Some (slen, p + nat slen, pkt', lb'))"

subsection \<open>Letters\<close>

definition lower :: "byte \<Rightarrow> byte" where
  "lower c = (if 0x41 \<le> c \<and> c \<le> 0x5a then c + 0x20 else c)"

lemma letters: "letter c \<Longrightarrow> c \<in> set (map of_nat ([65..<91] @ [97..<123]))"
proof -
  assume "letter c"
  then have "unat c \<in> set ([65..<91] @ [97..<123])" unfolding set_append set_upt by (auto simp: letter_def word_le_nat_alt)
  then have "of_nat (unat c) \<in> (of_nat :: nat \<Rightarrow> byte) ` set ([65..<91] @ [97..<123])" by (rule imageI)
  moreover have "of_nat (unat c) = c" by simp
  ultimately show ?thesis by (simp only: set_map)
qed

lemma lower_letter: "list_all (\<lambda>x. lower (x XOR 0x20) = lower x) (map of_nat ([65..<91] @ [97..<123]) :: byte list)"
  by code_simp

lemma lower_eq: "letter x \<Longrightarrow> x XOR y = 0x20 \<Longrightarrow> lower x = lower y"
proof -
  assume "letter x" "x XOR y = 0x20"
  moreover then have "y = x XOR 0x20" by (metis xor.left_neutral xor.left_commute xor_self_eq xor.commute)
  ultimately show ?thesis using lower_letter letters [of x] unfolding list_all_iff by metis
qed

lemma labelcmp_lower: "length a = length b \<Longrightarrow> labelcmp a b \<Longrightarrow> map lower a = map lower b"
  by (induction a b rule: labelcmp.induct) (auto simp: lower_eq split: if_splits)

subsection \<open>Names that can be read\<close>

text \<open>
  At \<open>p\<close> there are labels, and then a zero byte or a pointer to before \<open>cur\<close>, up to \<open>e\<close>; together they are the name \<open>ls\<close>.
  What a pointer leads to is all before \<open>cur\<close>.
\<close>

inductive wname :: "bytes \<Rightarrow> nat \<Rightarrow> nat \<Rightarrow> nat \<Rightarrow> bytes list \<Rightarrow> bool" for pkt where
  zero: "p < length pkt \<Longrightarrow> pkt ! p = 0 \<Longrightarrow> wname pkt cur p (p + 1) []"
| label: "pkt ! p \<noteq> 0 \<Longrightarrow> pkt ! p \<le> 63 \<Longrightarrow> wf_label (label_at pkt p) \<Longrightarrow> wname pkt cur (p + unat (pkt ! p) + 1) e ls \<Longrightarrow>
    wname pkt cur p e (label_at pkt p # ls)"
| pointer: "p + 1 < length pkt \<Longrightarrow> 0xc0 \<le> pkt ! p \<Longrightarrow> ptr_offset pkt p < cur \<Longrightarrow> pkt ! ptr_offset pkt p \<noteq> 0 \<Longrightarrow>
    pkt ! ptr_offset pkt p \<le> 63 \<Longrightarrow> wname pkt (ptr_offset pkt p) (ptr_offset pkt p) e' ls \<Longrightarrow> e' \<le> cur \<Longrightarrow>
    wname pkt cur p (p + 2) ls"

inductive_cases wname_cases: "wname pkt cur p e ls"

lemma wname_bounds: "wname pkt cur p e ls \<Longrightarrow> p < e \<and> e \<le> length pkt"
  by (induction rule: wname.induct) auto

lemma wname_zeroE: "wname pkt cur p e ls \<Longrightarrow> pkt ! p = 0 \<Longrightarrow> e = p + 1 \<and> ls = []"
  by (auto elim: wname_cases)

lemma not_63: "x \<le> 63 \<Longrightarrow> 0xc0 \<le> x \<Longrightarrow> False" for x :: byte
  by (auto dest: order_trans)

lemma wname_labelE:
  assumes "wname pkt cur p e ls" "pkt ! p \<noteq> 0" "pkt ! p \<le> 63"
  obtains ls' where "ls = label_at pkt p # ls'" "wf_label (label_at pkt p)" "wname pkt cur (p + unat (pkt ! p) + 1) e ls'"
  using assms(1)
proof (cases rule: wname.cases)
  case (pointer)
  then show ?thesis using not_63 assms(3) by blast
qed (use assms that in auto)

lemma wname_pointerE:
  assumes "wname pkt cur p e ls" "\<not> pkt ! p < 63" "pkt ! p \<noteq> 63"
  obtains e' where "e = p + 2" "0xc0 \<le> pkt ! p" "ptr_offset pkt p < cur" "pkt ! ptr_offset pkt p \<noteq> 0" "pkt ! ptr_offset pkt p \<le> 63"
    "wname pkt (ptr_offset pkt p) (ptr_offset pkt p) e' ls" "e' \<le> cur"
proof -
  have "pkt ! p \<noteq> 0" "\<not> pkt ! p \<le> 63" using assms(2,3) by auto
  with assms(1) show ?thesis by (cases rule: wname.cases) (use that in auto)
qed

lemma wname_mono: "wname pkt cur p e ls \<Longrightarrow> cur \<le> cur' \<Longrightarrow> wname pkt cur' p e ls"
proof (induction rule: wname.induct)
  case (pointer p cur e' ls)
  then show ?case using wname.pointer [of p pkt cur' e' ls] by simp
next
  case (zero p cur)
  then show ?case using wname.zero by blast
next
  case (label p cur e ls)
  then show ?case using wname.label by blast
qed

lemma wname_det: "wname pkt cur p e ls \<Longrightarrow> wname pkt cur' p e' ls' \<Longrightarrow> ls = ls' \<and> e = e'"
proof (induction arbitrary: cur' e' ls' rule: wname.induct)
  case (zero p cur)
  then show ?case using wname_zeroE by metis
next
  case (label p cur e ls)
  obtain ls1 where "ls' = label_at pkt p # ls1" "wname pkt cur' (p + unat (pkt ! p) + 1) e' ls1"
    using wname_labelE [OF label.prems label.hyps(1,2)] by blast
  then show ?case using label.IH by simp
next
  case (pointer p cur e1 ls)
  have "\<not> pkt ! p < 63" "pkt ! p \<noteq> 63" using pointer.hyps(2) not_63 [of "pkt ! p"] less_imp_le [of "pkt ! p" 63] by auto
  from wname_pointerE [OF pointer.prems this] obtain e2 where
    "e' = p + 2" "wname pkt (ptr_offset pkt p) (ptr_offset pkt p) e2 ls'" by blast
  then show ?case using pointer.IH by blast
qed

lemma ptr_offset_cong: "p + 1 < e \<Longrightarrow> \<forall>i < e. pkt' ! i = pkt ! i \<Longrightarrow> ptr_offset pkt' p = ptr_offset pkt p"
  by (simp add: ptr_offset_def)

lemma label_at_cong:
  assumes "p + unat (pkt ! p) < e" "e \<le> length pkt" "e \<le> length pkt'" "\<forall>i < e. p \<le> i \<longrightarrow> pkt' ! i = pkt ! i"
  shows "label_at pkt' p = label_at pkt p"
  using assms by (intro nth_equalityI) (auto simp: label_at_def)

lemma wname_cong:
  assumes "wname pkt cur p e ls" "\<forall>i < e. pkt' ! i = pkt ! i" "e \<le> length pkt'" "cur \<le> p"
  shows "wname pkt' cur p e ls"
  using assms
proof (induction rule: wname.induct)
  case (zero p cur)
  then show ?case using wname.zero [of p pkt' cur] by simp
next
  case (label p cur e ls)
  have b: "p + unat (pkt ! p) + 1 < e" "e \<le> length pkt" using wname_bounds [OF label.hyps(4)] by auto
  then have "pkt' ! p = pkt ! p" "label_at pkt' p = label_at pkt p" using label_at_cong [of p pkt e pkt'] label.prems by auto
  then show ?case using wname.label [of pkt' p cur e ls] label by simp
next
  case (pointer p cur e' ls)
  let ?o = "ptr_offset pkt p"
  have o: "ptr_offset pkt' p = ?o" "pkt' ! p = pkt ! p" "pkt' ! ?o = pkt ! ?o"
    using ptr_offset_cong [of p "p + 2" pkt' pkt] pointer.prems pointer.hyps by auto
  have "wname pkt' ?o ?o e' ls" using pointer by simp
  then show ?case using wname.pointer [of p pkt' cur e' ls] o pointer.hyps pointer.prems by simp
qed

lemma wname_wf: "wname pkt cur p e ls \<Longrightarrow> \<forall>l \<in> set ls. wf_label l"
  by (induction rule: wname.induct) auto

subsection \<open>Searching\<close>

text \<open>A buffer holds names, one after the other, up to \<open>fin\<close>; only the first label of a name may have 63 bytes.\<close>

definition short_labels :: "bytes list \<Rightarrow> bool" where
  "short_labels ls \<longleftrightarrow> (\<forall>l \<in> set (tl ls). length l < 63)"

inductive names :: "bytes \<Rightarrow> nat \<Rightarrow> nat \<Rightarrow> bool" for pkt fin where
  stop: "names pkt fin fin"
| name: "wname pkt s s e ls \<Longrightarrow> short_labels ls \<Longrightarrow> e \<le> fin \<Longrightarrow> names pkt fin e \<Longrightarrow> names pkt fin s"

definition scan_at :: "bytes \<Rightarrow> nat \<Rightarrow> nat \<Rightarrow> bool" where
  "scan_at pkt fin q \<longleftrightarrow> q = fin \<or>
     (\<exists>s e ls. s \<le> q \<and> wname pkt s q e ls \<and> short_labels ls \<and> e \<le> fin \<and> names pkt fin e)"

lemma names_scan_at: "names pkt fin q \<Longrightarrow> scan_at pkt fin q"
  unfolding scan_at_def by (cases rule: names.cases) auto

lemma names_cong:
  assumes "names pkt fin s" "\<forall>i < fin. pkt' ! i = pkt ! i" "fin \<le> length pkt'"
  shows "names pkt' fin s"
  using assms
proof (induction rule: names.induct)
  case (name s e ls)
  then have "wname pkt' s s e ls" using wname_cong [OF name.hyps(1), of pkt'] by simp
  then show ?case using name names.name by blast
qed (rule names.stop)

lemma short_labels_Cons: "short_labels (l # ls) \<longleftrightarrow> (\<forall>l \<in> set ls. length l < 63)"
  by (simp add: short_labels_def)

text \<open>The cases of a search.\<close>

lemma scan_at_zero: "scan_at pkt fin q \<Longrightarrow> q < fin \<Longrightarrow> pkt ! q = 0 \<Longrightarrow> names pkt fin (q + 1)"
  unfolding scan_at_def using wname_zeroE by blast

lemma scan_at_pointer: "scan_at pkt fin q \<Longrightarrow> q < fin \<Longrightarrow> pkt ! q > 63 \<Longrightarrow> names pkt fin (q + 2)"
  unfolding scan_at_def using wname_pointerE [of pkt _ q] by (metis less_asym' less_irrefl)

lemma scan_at_label:
  assumes "scan_at pkt fin q" "q < fin" "pkt ! q \<noteq> 0" "\<not> pkt ! q > 63"
  obtains s e ls where "s \<le> q" "wname pkt s (q + unat (pkt ! q) + 1) e ls" "q + unat (pkt ! q) + 1 < e" "e \<le> fin" "e \<le> length pkt"
    "names pkt fin e" "\<forall>l \<in> set ls. length l < 63" "wname pkt q q e (label_at pkt q # ls)" "scan_at pkt fin (q + unat (pkt ! q) + 1)"
    "length (label_at pkt q) = unat (pkt ! q)"
proof -
  from assms(1,2) obtain s e ls where q: "s \<le> q" "wname pkt s q e ls" "short_labels ls" "e \<le> fin" "names pkt fin e"
    by (auto simp: scan_at_def)
  have le: "pkt ! q \<le> 63" using assms(4) by simp
  obtain ls' where ls: "ls = label_at pkt q # ls'" "wname pkt s (q + unat (pkt ! q) + 1) e ls'"
    using wname_labelE [OF q(2) assms(3) le] by blast
  have short: "\<forall>l \<in> set ls'. length l < 63" using q(3) ls(1) by (simp add: short_labels_Cons)
  then have "short_labels ls'" by (cases ls') (auto simp: short_labels_def)
  then have "scan_at pkt fin (q + unat (pkt ! q) + 1)"
    unfolding scan_at_def using q(1,4,5) ls(2) by (intro disjI2 exI [of _ s] exI [of _ e] exI [of _ ls']) simp
  moreover have "wname pkt q q e (label_at pkt q # ls')" using wname_mono [OF q(2,1)] ls(1) by simp
  moreover note wname_bounds [OF ls(2)]
  moreover then have "length (label_at pkt q) = unat (pkt ! q)" by (intro length_label_at) simp
  ultimately show ?thesis by (intro that [OF q(1) ls(2) _ q(4) _ q(5) short]) simp_all
qed

text \<open>What is found is a label that differs only in case, followed by \<open>ls\<close>.\<close>

definition found :: "bytes \<Rightarrow> nat \<Rightarrow> nat \<Rightarrow> bytes list \<Rightarrow> scan \<Rightarrow> bool" where
  "found pkt fin label ls res \<longleftrightarrow>
     (case res of
        Scan_Overrun \<Rightarrow> False
      | Scan_None \<Rightarrow> True
      | Scan_Found q s \<Rightarrow> q < fin \<and> names pkt fin s \<and> pkt ! q \<noteq> 0 \<and> pkt ! q \<le> 63 \<and>
          (\<exists>e. e \<le> fin \<and> wname pkt q q e (label_at pkt q # ls)) \<and> map lower (label_at pkt q) = map lower (label_at pkt label))"

lemma found_check:
  assumes "wname pkt q q e (label_at pkt q # ls)" "e \<le> fin" "q < fin" "names pkt fin s" "pkt ! q \<noteq> 0" "\<not> pkt ! q > 63"
    "length (label_at pkt q) = length (label_at pkt label)"
    "\<not> labelcmp (label_at pkt q) (label_at pkt label) \<Longrightarrow> found pkt fin label ls again"
  shows "found pkt fin label ls (if 2 ^ 14 < q - packet then Scan_None
    else if \<not> labelcmp (label_at pkt q) (label_at pkt label) then again else Scan_Found q s)"
  using assms labelcmp_lower [OF assms(7)] by (auto simp: found_def not_less)

lemma scan_last_found:
  assumes "scan_at pkt fin q" "names pkt fin search" "fin \<le> length pkt" "length (label_at pkt label) = unat (pkt ! label)"
  shows "found pkt fin label [] (scan_last pkt packet fin label q search)"
  using assms(1,2)
proof (induction "fin - q" arbitrary: q search rule: less_induct)
  case less
  note fin = assms(3)
  have again: "found pkt fin label [] (scan_last pkt packet fin label q' search')"
    if "q < q'" "q < fin" "scan_at pkt fin q'" "names pkt fin search'" for q' search'
    using less.hyps [of q' search'] that by auto
  let ?ptr = "q + unat (pkt ! q) + 1"
  consider (over) "\<not> q < fin" | (zero) "q < fin" "pkt ! q = 0" | (ptr) "q < fin" "pkt ! q > 63" | (lab) "q < fin" "pkt ! q \<noteq> 0" "\<not> pkt ! q > 63"
    by blast
  then show ?case
  proof cases
    case over
    then show ?thesis by (subst scan_last.simps) (simp add: found_def)
  next
    case zero
    then show ?thesis using again [of "q + 1" "q + 1"] fin scan_at_zero [OF less.prems(1) zero] names_scan_at
      by (subst scan_last.simps) simp
  next
    case ptr
    moreover have "pkt ! q \<noteq> 0" using ptr(2) by auto
    ultimately show ?thesis using again [of "q + 2" "q + 2"] fin scan_at_pointer [OF less.prems(1) ptr] names_scan_at
      by (subst scan_last.simps) simp
  next
    case lab
    obtain s e ls where w: "wname pkt s ?ptr e ls" "?ptr < e" "e \<le> fin" "wname pkt q q e (label_at pkt q # ls)" "scan_at pkt fin ?ptr"
        "length (label_at pkt q) = unat (pkt ! q)"
      using scan_at_label [OF less.prems(1) lab] by metis
    note more = again [OF _ lab(1) w(5) less.prems(2), simplified]
    show ?thesis
    proof (cases "pkt ! q = pkt ! label \<and> pkt ! ?ptr = 0")
      case True
      then have z: "pkt ! ?ptr = 0" "pkt ! q = pkt ! label" and ls: "ls = []" using wname_zeroE [OF w(1)] by blast+
      have "scan_last pkt packet fin label q search = (if 2 ^ 14 < q - packet then Scan_None
          else if \<not> labelcmp (label_at pkt q) (label_at pkt label) then scan_last pkt packet fin label ?ptr search else Scan_Found q search)"
        using lab fin w(2,3) z by (subst scan_last.simps) (simp add: Let_def)
      then show ?thesis using found_check [OF w(4) [unfolded ls] w(3) lab(1) less.prems(2) lab(2,3)] z(2) w(6) assms(4) more
        by simp
    next
      case False
      then have "scan_last pkt packet fin label q search = scan_last pkt packet fin label ?ptr search"
        using lab fin w(2,3) by (subst scan_last.simps) (auto simp: Let_def)
      then show ?thesis using more by simp
    qed
  qed
qed

lemma scan_suffix_found:
  assumes "scan_at pkt fin q" "names pkt fin search" "fin \<le> length pkt" "length (label_at pkt label) = unat (pkt ! label)"
    "wname pkt cur nxt e0 ls0" "0xc0 \<le> pkt ! nxt"
  shows "found pkt fin label ls0 (scan_suffix pkt 0 fin label nxt q search)"
  using assms(1,2)
proof (induction "fin - q" arbitrary: q search rule: less_induct)
  case less
  note fin = assms(3)
  have hi: "\<not> pkt ! nxt < 63" "pkt ! nxt \<noteq> 63" using assms(6) not_63 [of "pkt ! nxt"] less_imp_le [of "pkt ! nxt" 63] by auto
  obtain e1 where suffix: "wname pkt (ptr_offset pkt nxt) (ptr_offset pkt nxt) e1 ls0" using wname_pointerE [OF assms(5) hi] by blast
  have again: "found pkt fin label ls0 (scan_suffix pkt 0 fin label nxt q' search')"
    if "q < q'" "q < fin" "scan_at pkt fin q'" "names pkt fin search'" for q' search'
    using less.hyps [of q' search'] that by auto
  let ?ptr = "q + unat (pkt ! q) + 1"
  consider (over) "\<not> q < fin" | (zero) "q < fin" "pkt ! q = 0" | (ptr) "q < fin" "pkt ! q > 63" | (lab) "q < fin" "pkt ! q \<noteq> 0" "\<not> pkt ! q > 63"
    by blast
  then show ?case
  proof cases
    case over
    then show ?thesis by (subst scan_suffix.simps) (simp add: found_def)
  next
    case zero
    then show ?thesis using again [of "q + 1" "q + 1"] fin scan_at_zero [OF less.prems(1) zero] names_scan_at
      by (subst scan_suffix.simps) simp
  next
    case ptr
    moreover have "pkt ! q \<noteq> 0" using ptr(2) by auto
    ultimately show ?thesis using again [of "q + 2" "q + 2"] fin scan_at_pointer [OF less.prems(1) ptr] names_scan_at
      by (subst scan_suffix.simps) simp
  next
    case lab
    obtain s e ls where w: "wname pkt s ?ptr e ls" "?ptr < e" "e \<le> fin" "wname pkt q q e (label_at pkt q # ls)" "scan_at pkt fin ?ptr"
        "length (label_at pkt q) = unat (pkt ! q)" "names pkt fin e" "\<forall>l \<in> set ls. length l < 63" "e \<le> length pkt"
      using scan_at_label [OF less.prems(1) lab] by metis
    note more = again [OF _ lab(1) w(5) less.prems(2), simplified]
    let ?check = "if 2 ^ 14 < q - 0 then Scan_None else if \<not> labelcmp (label_at pkt q) (label_at pkt label)
      then scan_suffix pkt 0 fin label nxt ?ptr search else Scan_Found q search"
    have check: "found pkt fin label ls0 ?check" if "pkt ! q = pkt ! label" "ls = ls0"
      using found_check [OF w(4) [unfolded that(2)] w(3) lab(1) less.prems(2) lab(2,3), of label _ 0] that(1) w(6) assms(4) more by simp
    consider (differ) "pkt ! q \<noteq> pkt ! label \<or> pkt ! ?ptr < 63 \<and> ?ptr \<noteq> ptr_offset pkt nxt"
      | (at) "pkt ! q = pkt ! label" "pkt ! ?ptr < 63" "?ptr = ptr_offset pkt nxt"
      | (pointer) "pkt ! q = pkt ! label" "\<not> pkt ! ?ptr < 63" by blast
    then show ?thesis
    proof cases
      case differ
      then have "scan_suffix pkt 0 fin label nxt q search = scan_suffix pkt 0 fin label nxt ?ptr search"
        using lab fin w(2,3) by (subst scan_suffix.simps) (auto simp: Let_def)
      then show ?thesis using more by simp
    next
      case at
      then have "scan_suffix pkt 0 fin label nxt q search = ?check"
        using lab fin w(2,3) by (subst scan_suffix.simps) (simp add: Let_def)
      moreover have "ls = ls0" using wname_det [OF w(1) [unfolded at(3)] suffix] by simp
      ultimately show ?thesis using check at(1) by simp
    next
      case pointer
      have n63: "pkt ! ?ptr \<noteq> 63"
      proof
        assume n: "pkt ! ?ptr = 63"
        then have "pkt ! ?ptr \<noteq> 0" "pkt ! ?ptr \<le> 63" by auto
        from wname_labelE [OF w(1) this] obtain ls' where ls': "ls = label_at pkt ?ptr # ls'" "wname pkt s (?ptr + unat (pkt ! ?ptr) + 1) e ls'" by blast
        then have "length (label_at pkt ?ptr) = 63" using length_label_at [of ?ptr pkt] wname_bounds [OF ls'(2)] n by simp
        then show False using w(8) ls'(1) by simp
      qed
      obtain e2 where p: "e = ?ptr + 2" "wname pkt (ptr_offset pkt ?ptr) (ptr_offset pkt ?ptr) e2 ls"
        using wname_pointerE [OF w(1) pointer(2) n63] by blast
      show ?thesis
      proof (cases "pkt ! ?ptr = pkt ! nxt \<and> pkt ! (?ptr + 1) = pkt ! (nxt + 1)")
        case True
        then have "scan_suffix pkt 0 fin label nxt q search = ?check"
          using lab fin w(2,3,9) pointer p(1) by (subst scan_suffix.simps) (simp add: Let_def)
        moreover have "ptr_offset pkt ?ptr = ptr_offset pkt nxt" using True by (simp add: ptr_offset_def)
        then have "ls = ls0" using wname_det [OF p(2)] suffix by simp
        ultimately show ?thesis using check pointer(1) by simp
      next
        case False
        then have "scan_suffix pkt 0 fin label nxt q search = scan_suffix pkt 0 fin label nxt (?ptr + 2) (?ptr + 2)"
          using lab fin w(2,3,9) pointer p(1) by (subst scan_suffix.simps) (auto simp: Let_def)
        then show ?thesis using again [OF _ lab(1), of "?ptr + 2" "?ptr + 2"] w(7) p(1) names_scan_at by simp
      qed
    qed
  qed
qed

subsection \<open>Compression keeps the name\<close>

definition same_name :: "bytes list \<Rightarrow> bytes list \<Rightarrow> bool" where
  "same_name ls ls' \<longleftrightarrow> map (map lower) ls = map (map lower) ls'"

definition search_ok :: "bytes \<Rightarrow> nat \<Rightarrow> nat option \<Rightarrow> bool" where
  "search_ok pkt fin ns \<longleftrightarrow> (case ns of None \<Rightarrow> True | Some s \<Rightarrow> names pkt fin s)"

text \<open>The result of compressing the name at \<open>label\<close>, which has the bytes up to \<open>e\<close>.\<close>

definition compressed_ok :: "bytes \<Rightarrow> nat \<Rightarrow> nat \<Rightarrow> nat \<Rightarrow> bytes list \<Rightarrow> bool \<times> bytes \<times> nat \<times> nat option \<Rightarrow> bool" where
  "compressed_ok pkt cur label e ls res \<longleftrightarrow>
     (case res of (c, pkt', e', ns) \<Rightarrow>
        length pkt' = length pkt \<and> (\<forall>i. i < label \<or> e \<le> i \<longrightarrow> pkt' ! i = pkt ! i) \<and> e' \<le> e \<and>
        (\<not> c \<longrightarrow> pkt' = pkt \<and> e' = e) \<and> (\<exists>ls'. wname pkt' cur label e' ls' \<and> same_name ls' ls))"

lemma compressed_ok_same: "wname pkt cur label e ls \<Longrightarrow> compressed_ok pkt cur label e ls (c, pkt, e, ns)"
  by (auto simp: compressed_ok_def same_name_def)

lemma pointer_bytes:
  "list_all (\<lambda>d. (0xc0 :: byte) \<le> ucast ((of_nat d :: u16) OR 0xc0) \<and>
     unat ((ucast ((of_nat d :: u16) OR 0xc0) :: byte) AND NOT 0xc0) = d) [0..<64]"
  by code_simp

lemma put_pointer_offset:
  assumes "off < 2 ^ 14" "label + 1 < length pkt"
  shows "0xc0 \<le> put_pointer pkt label off ! label" "ptr_offset (put_pointer pkt label off) label = off"
proof -
  have "drop_bit 8 (of_nat off :: u16) = of_nat (off div 256)"
    using assms(1) by (simp add: word_unat_eq_iff unat_drop_bit_eq unat_of_nat drop_bit_eq_div unat_div)
  then have 0: "put_pointer pkt label off ! label = ucast ((of_nat (off div 256) :: u16) OR 0xc0)"
    using assms(2) by (simp add: put_pointer_def Let_def)
  have "unat (of_nat off AND 0xff :: u16) = off mod 256"
  proof -
    have "(0xff :: u16) = mask 8" by (simp add: mask_eq_exp_minus_1)
    then have "unat (of_nat off AND 0xff :: u16) = take_bit 8 (unat (of_nat off :: u16))"
      by (simp only: take_bit_eq_mask [symmetric] unsigned_take_bit_eq)
    also have "\<dots> = off mod 256" using assms(1) by (simp add: unat_of_nat take_bit_eq_mod)
    finally show ?thesis .
  qed
  then have 1: "unat (put_pointer pkt label off ! (label + 1)) = off mod 256"
    using assms(2) by (simp add: put_pointer_def Let_def unsigned_ucast_eq take_bit_eq_mod)
  have "off div 256 \<in> set [0..<64]" unfolding set_upt using assms(1) by auto
  then have "0xc0 \<le> put_pointer pkt label off ! label" "unat (put_pointer pkt label off ! label AND NOT 0xc0) = off div 256"
    using pointer_bytes unfolding list_all_iff 0 by blast+
  then show "0xc0 \<le> put_pointer pkt label off ! label" "ptr_offset (put_pointer pkt label off) label = off"
    using 1 by (simp_all add: ptr_offset_def)
qed

lemma put_pointer_far: "label + 1 < length pkt \<Longrightarrow> ptr_offset (put_pointer pkt label (2 ^ 14)) label = 0"
  by (simp add: put_pointer_def ptr_offset_def)

lemma put_pointer_other: "i \<noteq> label \<Longrightarrow> i \<noteq> label + 1 \<Longrightarrow> put_pointer pkt label off ! i = pkt ! i"
  by (simp add: put_pointer_def Let_def)

lemma length_put_pointer [simp]: "length (put_pointer pkt label off) = length pkt"
  by (simp add: put_pointer_def Let_def)

lemma wname_put_pointer:
  assumes "wname pkt q q e (label_at pkt q # ls)" "e \<le> fin" "fin \<le> cur" "cur \<le> label" "fin \<le> 2 ^ 14" "q < fin"
    "pkt ! q \<noteq> 0" "pkt ! q \<le> 63" "label + 1 < length pkt"
  shows "wname (put_pointer pkt label q) cur label (label + 2) (label_at pkt q # ls)"
proof -
  let ?pkt = "put_pointer pkt label q"
  have "q < 2 ^ 14" using assms(5,6) by simp
  note off = put_pointer_offset [OF this assms(9)]
  have "\<forall>i < e. ?pkt ! i = pkt ! i" using assms(2-4) by (simp add: put_pointer_other)
  then have "wname ?pkt q q e (label_at pkt q # ls)" using wname_cong [OF assms(1)] wname_bounds [OF assms(1)] by simp
  moreover have "?pkt ! q = pkt ! q" using assms(3,4,6) by (simp add: put_pointer_other)
  ultimately show ?thesis using wname.pointer [of label ?pkt cur e] off assms by simp
qed

text \<open>When a search has found the label, a pointer to it takes its place.\<close>

lemma compressed_ok_pointer:
  assumes "found pkt1 fin label ls1 (Scan_Found q s)" "fin \<le> cur" "cur \<le> label" "fin \<le> 2 ^ 14" "label + 2 \<le> e" "e \<le> length pkt"
    "length pkt1 = length pkt" "\<forall>i. i < nxt \<or> e \<le> i \<longrightarrow> pkt1 ! i = pkt ! i" "label < nxt" "same_name ls1 ls"
    "label_at pkt1 label = label_at pkt label"
  shows "compressed_ok pkt cur label e (label_at pkt label # ls) (True, put_pointer pkt1 label (q - 0), label + 2, ns)"
proof -
  from assms(1) obtain e1 where q: "q < fin" "pkt1 ! q \<noteq> 0" "pkt1 ! q \<le> 63" "e1 \<le> fin" "wname pkt1 q q e1 (label_at pkt1 q # ls1)"
      "map lower (label_at pkt1 q) = map lower (label_at pkt1 label)" by (auto simp: found_def)
  have "wname (put_pointer pkt1 label q) cur label (label + 2) (label_at pkt1 q # ls1)"
    using wname_put_pointer [OF q(5,4) assms(2-4) q(1-3)] assms(5-7) by simp
  moreover have "same_name (label_at pkt1 q # ls1) (label_at pkt label # ls)" using assms(10,11) q(6) by (simp add: same_name_def)
  ultimately show ?thesis using assms(5,7-9) by (auto simp: compressed_ok_def put_pointer_other)
qed

text \<open>The part of the function that follows the recursive call.\<close>

lemma compress_suffix:
  assumes "wname pkt cur label e (label_at pkt label # ls)" "nxt = label + unat (pkt ! label) + 1" "pkt ! label \<noteq> 0" "pkt ! label \<le> 63"
    "wf_label (label_at pkt label)" "cur \<le> label" "fin \<le> cur" "fin \<le> 2 ^ 14" "search_ok pkt fin ns" "names pkt fin s1"
    "length pkt1 = length pkt" "\<forall>i. i < nxt \<or> e \<le> i \<longrightarrow> pkt1 ! i = pkt ! i" "e1 \<le> e" "c \<or> pkt1 = pkt \<and> e1 = e"
    "wname pkt1 cur nxt e1 ls1" "same_name ls1 ls"
  shows "\<exists>res. (if pkt1 ! nxt < 0xc0 then Some (c, pkt1, e1, ns)
       else if nxt + 1 \<ge> length pkt1 then None
       else (case scan_suffix pkt1 0 fin label nxt s1 s1 of
          Scan_Overrun \<Rightarrow> None
        | Scan_None \<Rightarrow> Some (c, pkt1, e1, ns)
        | Scan_Found q s2 \<Rightarrow> Some (True, put_pointer pkt1 label (q - 0), label + 2, map_option (\<lambda>_. s2) ns))) = Some res \<and>
     compressed_ok pkt cur label e (label_at pkt label # ls) res \<and> search_ok pkt fin (snd (snd (snd res))) \<and>
     (ns \<noteq> None \<longrightarrow> snd (snd (snd res)) \<noteq> None)"
proof -
  have e: "e \<le> length pkt" "nxt < e1" "e1 \<le> length pkt1" using wname_bounds [OF assms(1)] wname_bounds [OF assms(15)] by auto
  have n: "label < nxt" using assms(2) by simp
  have lab: "label_at pkt1 label = label_at pkt label" "pkt1 ! label = pkt ! label"
    using label_at_cong [of label pkt nxt pkt1] assms(2,11,12,13) e by auto
  have stay: "compressed_ok pkt cur label e (label_at pkt label # ls) (c, pkt1, e1, ns)"
  proof -
    have "wname pkt1 cur label e1 (label_at pkt label # ls1)"
      using wname.label [of pkt1 label cur e1 ls1] assms(2-5,15) lab by simp
    then show ?thesis using assms(11-14,16) n by (auto simp: compressed_ok_def same_name_def)
  qed
  show ?thesis
  proof (cases "pkt1 ! nxt < 0xc0")
    case False
    have two: "e1 = nxt + 2" using assms(15) False
      by (cases rule: wname.cases) (auto dest: not_63 simp: not_less)
    have "names pkt1 fin s1" using names_cong [OF assms(10)] assms(6,7,11,12) n e by simp
    then have f: "found pkt1 fin label ls1 (scan_suffix pkt1 0 fin label nxt s1 s1)"
      using scan_suffix_found [OF names_scan_at _ _ _ assms(15)] False length_label_at [of label pkt] lab assms(2,6,7,11) e
        wname_bounds [OF assms(15)] n by (simp add: not_less)
    show ?thesis
    proof (cases "scan_suffix pkt1 0 fin label nxt s1 s1")
      case (Scan_Found q s2)
      have l: "label + 2 \<le> e" using assms(2,3,13) e(2) by (simp add: unat_gt_0)
      have "names pkt fin s2" using names_cong [of pkt1 fin s2 pkt] f Scan_Found assms(6,7,11,12) n e by (simp add: found_def)
      then have "search_ok pkt fin (map_option (\<lambda>_. s2) ns)" by (cases ns) (simp_all add: search_ok_def)
      moreover note compressed_ok_pointer [OF f [unfolded Scan_Found] assms(7,6,8) l e(1) assms(11,12) n assms(16) lab(1)]
      ultimately show ?thesis using Scan_Found False two e(3) by simp
    qed (use f stay False two e(3) assms(9) in \<open>simp_all add: found_def\<close>)
  qed (use stay assms(9) in simp)
qed

lemma compress_ok:
  assumes "wname pkt cur label e ls" "cur \<le> label" "fin \<le> cur" "fin \<le> 2 ^ 14" "names pkt fin start" "search_ok pkt fin ns"
  shows "\<exists>res. dns_label_compress pkt 0 start fin ns label e = Some res \<and> compressed_ok pkt cur label e ls res \<and>
    search_ok pkt fin (snd (snd (snd res))) \<and> (ns \<noteq> None \<longrightarrow> snd (snd (snd res)) \<noteq> None)"
  using assms
proof (induction arbitrary: ns rule: wname.induct)
  case (zero p cur)
  have "wname pkt cur p (p + 1) []" using wname.zero [OF zero.hyps] .
  then show ?case using zero by (subst dns_label_compress.simps) (simp add: compressed_ok_same)
next
  case (pointer p cur e' ls)
  have "wname pkt cur p (p + 2) ls" using wname.pointer pointer.hyps by blast
  moreover have "\<not> pkt ! p \<le> 63" using not_63 pointer.hyps(2) by blast
  ultimately show ?case using pointer by (subst dns_label_compress.simps) (simp add: compressed_ok_same not_le)
next
  case (label p cur e ls)
  let ?nxt = "p + unat (pkt ! p) + 1" let ?s = "case ns of None \<Rightarrow> start | Some s \<Rightarrow> s"
  have w: "wname pkt cur p e (label_at pkt p # ls)" using wname.label label.hyps by blast
  have lo: "\<not> 63 < pkt ! p" using label.hyps(2) by simp
  have b: "?nxt < e" "e \<le> length pkt" using wname_bounds [OF label.hyps(4)] by auto
  have s: "names pkt fin ?s" using label.prems(4,5) by (simp add: search_ok_def split: option.splits)
  note tail = compress_suffix [OF w refl label.hyps(1-3) label.prems(1-3,5)]
  show ?case
  proof (cases "pkt ! ?nxt = 0")
    case True
    then have ls: "ls = []" using wname_zeroE [OF label.hyps(4)] by blast
    have f: "found pkt fin p ls (scan_last pkt 0 fin p ?s ?s)"
      using scan_last_found [OF names_scan_at [OF s] s] label.prems(1,2) b ls length_label_at [of p pkt] by simp
    have step: "dns_label_compress pkt 0 start fin ns p e = (case scan_last pkt 0 fin p ?s ?s of
        Scan_Overrun \<Rightarrow> None
      | Scan_None \<Rightarrow> Some (False, pkt, e, ns)
      | Scan_Found q s' \<Rightarrow> Some (True, put_pointer pkt p (q - 0), p + 2, map_option (\<lambda>_. s') ns))"
      using label.hyps(1) lo b True by (subst dns_label_compress.simps) (simp add: Let_def)
    show ?thesis
    proof (cases "scan_last pkt 0 fin p ?s ?s")
      case (Scan_Found q s2)
      have l: "p + 2 \<le> e" using b(1) label.hyps(1) by (simp add: unat_gt_0)
      have "search_ok pkt fin (map_option (\<lambda>_. s2) ns)" using f Scan_Found by (cases ns) (simp_all add: search_ok_def found_def)
      moreover have "same_name ls ls" by (simp add: same_name_def)
      ultimately show ?thesis
        using compressed_ok_pointer [OF f [unfolded Scan_Found] label.prems(2,1,3) l b(2) refl _ _ _ refl, of ?nxt ls] step Scan_Found by simp
    qed (use f step label.prems(5) compressed_ok_same [OF w] in \<open>simp_all add: found_def\<close>)
  next
    case False
    show ?thesis
    proof (cases "pkt ! ?nxt < 63")
      case True
      obtain c pkt1 e1 ns1 where r: "dns_label_compress pkt 0 start fin (Some ?s) ?nxt e = Some (c, pkt1, e1, Some ns1)"
          "compressed_ok pkt cur ?nxt e ls (c, pkt1, e1, Some ns1)" "names pkt fin ns1"
        using label.IH [of "Some ?s"] label.prems s by (fastforce simp: search_ok_def split: option.splits)
      show ?thesis
      proof (cases c)
        case c: True
        obtain ls1 where ls1: "wname pkt1 cur ?nxt e1 ls1" "same_name ls1 ls" using r(2) by (auto simp: compressed_ok_def)
        have "dns_label_compress pkt 0 start fin ns p e = (if pkt1 ! ?nxt < 0xc0 then Some (True, pkt1, e1, ns)
          else if ?nxt + 1 \<ge> length pkt1 then None
          else (case scan_suffix pkt1 0 fin p ?nxt ns1 ns1 of
              Scan_Overrun \<Rightarrow> None
            | Scan_None \<Rightarrow> Some (True, pkt1, e1, ns)
            | Scan_Found q s2 \<Rightarrow> Some (True, put_pointer pkt1 p (q - 0), p + 2, map_option (\<lambda>_. s2) ns)))"
          using label.hyps(1) lo b False True c r(1) by (subst dns_label_compress.simps) (simp add: Let_def)
        then show ?thesis by (simp only:) (rule tail [OF r(3) _ _ _ _ ls1], use r(2) in \<open>auto simp: compressed_ok_def\<close>)
      next
        case c: False
        then have "dns_label_compress pkt 0 start fin ns p e = Some (False, pkt, e, ns)"
          using label.hyps(1) lo b False True r by (subst dns_label_compress.simps) (simp add: Let_def compressed_ok_def)
        then show ?thesis using compressed_ok_same [OF w] label.prems(5) by simp
      qed
    next
      case big: False
      have "dns_label_compress pkt 0 start fin ns p e = (if pkt ! ?nxt < 0xc0 then Some (False, pkt, e, ns)
          else if ?nxt + 1 \<ge> length pkt then None
          else (case scan_suffix pkt 0 fin p ?nxt ?s ?s of
              Scan_Overrun \<Rightarrow> None
            | Scan_None \<Rightarrow> Some (False, pkt, e, ns)
            | Scan_Found q s2 \<Rightarrow> Some (True, put_pointer pkt p (q - 0), p + 2, map_option (\<lambda>_. s2) ns)))"
        using label.hyps(1) lo b False big by (subst dns_label_compress.simps) (simp add: Let_def)
      then show ?thesis by (simp only:) (rule tail [OF s _ _ _ _ label.hyps(4)], simp_all add: same_name_def)
    qed
  qed
qed

lemma compress_blocks_ok:
  assumes "wname pkt pos pos e ls" "pos \<le> 2 ^ 14" "\<forall>(s, f) \<in> set bs. f \<le> pos \<and> names pkt f s"
  shows "\<exists>pkt' e' ls'. compress_blocks bs pkt pos e = Some (pkt', e') \<and> length pkt' = length pkt \<and>
    (\<forall>i. i < pos \<or> e \<le> i \<longrightarrow> pkt' ! i = pkt ! i) \<and> e' \<le> e \<and> wname pkt' pos pos e' ls' \<and> same_name ls' ls"
  using assms
proof (induction bs arbitrary: pkt e ls)
  case Nil
  then show ?case by (auto simp: same_name_def)
next
  case (Cons blk bs)
  obtain s f where b: "blk = (s, f)" by (cases blk)
  have f: "f \<le> pos" "names pkt f s" "f \<le> 2 ^ 14" using Cons.prems(2,3) b by auto
  from compress_ok [OF Cons.prems(1) _ f(1,3,2), of None] obtain c pkt1 e1 ns1 ls1 where
    c: "dns_label_compress pkt 0 s f None pos e = Some (c, pkt1, e1, ns1)" "length pkt1 = length pkt"
      "\<forall>i. i < pos \<or> e \<le> i \<longrightarrow> pkt1 ! i = pkt ! i" "e1 \<le> e" "wname pkt1 pos pos e1 ls1" "same_name ls1 ls"
    by (auto simp: search_ok_def compressed_ok_def)
  have le: "pos \<le> length pkt" using wname_bounds [OF Cons.prems(1)] by simp
  have names: "names pkt1 f' s'" if "(s', f') \<in> set bs" for s' f'
  proof -
    have "f' \<le> pos" "names pkt f' s'" using Cons.prems(3) that by auto
    then show ?thesis using names_cong [of pkt f' s' pkt1] c(2,3) le by simp
  qed
  have all: "\<forall>(s, f) \<in> set bs. f \<le> pos \<and> names pkt1 f s" using names Cons.prems(3) by auto
  from Cons.IH [OF c(5) Cons.prems(2) all] obtain pkt' e' ls' where
    r: "compress_blocks bs pkt1 pos e1 = Some (pkt', e')" "length pkt' = length pkt1"
      "\<forall>i. i < pos \<or> e1 \<le> i \<longrightarrow> pkt' ! i = pkt1 ! i" "e' \<le> e1" "wname pkt' pos pos e' ls'" "same_name ls' ls1"
    by blast
  then show ?case using b c by (auto simp: same_name_def)
qed

subsection \<open>Encoding writes the labels\<close>

text \<open>The labels of a string that continues the label \<open>l\<close>, and their bytes.\<close>

fun labs :: "bytes \<Rightarrow> bytes \<Rightarrow> bytes list" where
  "labs l [] = [l]"
| "labs l (c # q) = (if c = 0x2e then l # labs [] q else labs (l @ [c]) q)"

definition wire :: "bytes list \<Rightarrow> bytes" where
  "wire ls = concat (map (\<lambda>l. of_nat (length l) # l) ls)"

lemma labs_Cons: "\<exists>l' ls. labs l q = l' # ls"
  by (induction l q rule: labs.induct) auto

lemma dotted_labs: "dotted (labs l q) = l @ q"
proof (induction l q rule: labs.induct)
  case (2 l c q)
  obtain l' ls where "labs [] q = l' # ls" using labs_Cons by blast
  then show ?case using 2 by auto
qed simp

lemma encode_chars_wire:
  assumes "length q \<le> length rest"
  shows "encode_chars (pre @ of_nat (length l) # l @ rest) (length pre) (length pre + 1 + length l) q =
    Some (pre @ wire (labs l q) @ drop (length q) rest, length pre + length (wire (labs l q)))"
  using assms
proof (induction q arbitrary: pre l rest)
  case Nil
  then show ?case by (simp add: wire_def)
next
  case (Cons c q)
  then obtain r rest' where r: "rest = r # rest'" "length q \<le> length rest'" by (cases rest) auto
  show ?case
  proof (cases "c = 0x2e")
    case True
    then show ?thesis using Cons.IH [OF r(2), of "pre @ of_nat (length l) # l" "[]"] r(1)
      by (simp add: wire_def list_update_append nth_append)
  next
    case False
    then show ?thesis using Cons.IH [OF r(2), of pre "l @ [c]"] r(1)
      by (simp add: wire_def list_update_append nth_append add.commute)
  qed
qed

lemma length_wire_labs: "length (wire (labs l q)) = length l + length q + 1"
  by (induction l q rule: labs.induct) (auto simp: wire_def)

lemma wire_wname:
  assumes "\<forall>l \<in> set ls. wf_label l"
  shows "wname (pre @ wire ls @ 0 # rest) cur (length pre) (length pre + length (wire ls) + 1) ls"
  using assms
proof (induction ls arbitrary: pre)
  case Nil
  then show ?case using wname.zero [of "length pre" "pre @ 0 # rest"] by (simp add: wire_def)
next
  case (Cons l ls)
  let ?pkt = "pre @ wire (l # ls) @ 0 # rest"
  have l: "l \<noteq> []" "length l \<le> 63" "wf_label l" using Cons.prems by (auto simp: wf_label_def)
  have p: "?pkt ! length pre = of_nat (length l)" by (simp add: wire_def nth_append)
  then have n: "unat (?pkt ! length pre) = length l" using l(2) by (simp add: unat_of_nat)
  have "label_at ?pkt (length pre) = l" unfolding label_at_def n by (simp add: wire_def)
  moreover have "?pkt ! length pre \<noteq> 0" using n l(1) by (metis unat_0 length_0_conv)
  moreover have "?pkt ! length pre \<le> 63" using n l(2) by (simp add: word_le_nat_alt)
  moreover have "wname ?pkt cur (length pre + length l + 1) (length pre + length (wire (l # ls)) + 1) ls"
    using Cons.IH [of "pre @ of_nat (length l) # l"] Cons.prems by (simp add: wire_def algebra_simps)
  ultimately show ?case using wname.label [of ?pkt "length pre" cur _ ls] n l(3) by simp
qed

text \<open>What the check accepts.\<close>

definition begun :: "bytes \<Rightarrow> bool" where
  "begun l \<longleftrightarrow> l = [] \<or> (label_char (hd l) \<or> hd l = 0x5f) \<and> (\<forall>c \<in> set (tl l). label_char c)"

lemma begun_add: "begun l \<Longrightarrow> label_char c \<or> l = [] \<and> c = 0x5f \<Longrightarrow> begun (l @ [c])"
  by (cases l) (auto simp: begun_def)

lemma wf_begun: "wf_label l \<longleftrightarrow> l \<noteq> [] \<and> length l \<le> 63 \<and> begun l"
  by (auto simp: begun_def wf_label_def)

lemma check_labs:
  assumes "check_chars q n u = Some k" "u \<longleftrightarrow> l = []" "n = length l + (if first then 0 else 1)" "n \<le> 63" "begun l"
    "l = [] \<Longrightarrow> q \<noteq> [] \<and> hd q \<noteq> 0x2e"
  shows "k = (if q \<noteq> [] \<and> last q = 0x2e then 1 else 0) \<and> (\<forall>l \<in> set (labs l (take (length q - k) q)). wf_label l) \<and>
    short_labels (labs l (take (length q - k) q)) \<and> (first \<or> length (hd (labs l (take (length q - k) q))) < 63)"
  using assms
proof (induction q n u arbitrary: l first rule: check_chars.induct)
  case (1 n u)
  then show ?case by (auto simp: short_labels_def wf_begun split: if_splits)
next
  case (2 c q n u)
  have k: "take (length (c # q) - k') (c # q) = c # take (length q - k') q" if "k' \<le> length q" for k'
    using that by (simp add: Suc_diff_le)
  show ?case
  proof (cases "c = 0x2e")
    case True
    then have ne: "l \<noteq> []" using 2(5,9) by auto
    then have wf: "wf_label l" "first \<or> length l < 63" using 2(6-8) by (auto simp: wf_begun split: if_splits)
    show ?thesis
    proof (cases "q = []")
      case last: True
      then show ?thesis using 2(4) True wf by (auto simp: short_labels_def)
    next
      case False
      then have q: "check_chars q 1 True = Some k" "hd q \<noteq> 0x2e" using 2(4) True by (auto split: if_splits)
      have "k = (if q \<noteq> [] \<and> last q = 0x2e then 1 else 0) \<and> (\<forall>l \<in> set (labs [] (take (length q - k) q)). wf_label l) \<and>
          short_labels (labs [] (take (length q - k) q)) \<and> (False \<or> length (hd (labs [] (take (length q - k) q))) < 63)"
        by (rule 2(2)) (use True False q in \<open>auto simp: begun_def\<close>)
      moreover obtain l' ls where "labs [] (take (length q - k) q) = l' # ls" using labs_Cons by blast
      ultimately show ?thesis using True False wf k [of k] by (auto simp: short_labels_def Suc_le_eq split: if_splits)
    qed
  next
    case False
    then have c: "check_chars q (n + 1) False = Some k" "n + 1 \<le> 63" "label_char c \<or> l = [] \<and> c = 0x5f"
      using 2(4,5) by (auto split: if_splits)
    have "k = (if q \<noteq> [] \<and> last q = 0x2e then 1 else 0) \<and> (\<forall>l \<in> set (labs (l @ [c]) (take (length q - k) q)). wf_label l) \<and>
        short_labels (labs (l @ [c]) (take (length q - k) q)) \<and> (first \<or> length (hd (labs (l @ [c]) (take (length q - k) q))) < 63)"
    proof (cases "u \<and> c = 0x5f")
      case True
      show ?thesis by (rule 2(1)) (use True c 2(6,8) begun_add in auto)
    next
      case False
      then show ?thesis by (intro 2(3)) (use c 2(5,6,8) \<open>c \<noteq> 0x2e\<close> begun_add in auto)
    qed
    then show ?thesis using False k [of k] by (cases q) (auto simp: Suc_le_eq split: if_splits)
  qed
qed

text \<open>The string without a final dot.\<close>

definition strip :: "bytes \<Rightarrow> bytes" where
  "strip v = (if v \<noteq> [] \<and> last v = 0x2e then butlast v else v)"

text \<open>
  What compression needs: the buffer begins with the packet and holds names, or the tracking structure has blocks of names.
\<close>

definition region_ok :: "bytes \<Rightarrow> nat \<Rightarrow> nat \<Rightarrow> fr_dns_labels option \<Rightarrow> bool" where
  "region_ok pkt b pos lb \<longleftrightarrow>
     (case lb of
        None \<Rightarrow> b = 0 \<and> names pkt pos 0
      | Some l \<Rightarrow> lb_blocks l \<noteq> [] \<and> (\<forall>(s, f) \<in> set (lb_blocks l). f \<le> pos \<and> names pkt f s))"

lemma same_name_dotted: "same_name ls ls' \<Longrightarrow> map lower (dotted ls) = map lower (dotted ls')"
proof -
  have "map lower (dotted ls) = dotted (map (map lower) ls)" for ls
  proof (induction ls rule: dotted.induct)
    case (2 l ls)
    have "lower 0x2e = 0x2e" by (simp add: lower_def)
    then show ?case by (simp add: map_concat comp_def)
  qed simp
  then show "same_name ls ls' \<Longrightarrow> map lower (dotted ls) = map lower (dotted ls')" by (simp add: same_name_def)
qed

lemma short_labels_lengths: "short_labels ls \<longleftrightarrow> (\<forall>n \<in> set (tl (map length ls)). n < 63)"
  by (cases ls) (simp_all add: short_labels_def)

lemma same_name_short:
  assumes "same_name ls ls'" "short_labels ls'"
  shows "short_labels ls"
proof -
  have "map length (map (map lower) ls) = map length (map (map lower) ls')" using assms(1) by (simp add: same_name_def)
  then have "map length ls = map length ls'" by (simp add: comp_def)
  then show ?thesis using assms(2) by (simp add: short_labels_lengths)
qed

lemma compress_name_ok:
  assumes "wname pkt pos pos data ls" "pos \<le> 2 ^ 14" "compression \<Longrightarrow> region_ok pkt b pos lb"
  shows "\<exists>pkt' e ls' lb'. dns_compress_name pkt b pos compression data lb = (Enc_Ret (int (e - pos)) None, pkt', lb') \<and>
    length pkt' = length pkt \<and> (\<forall>i. i < pos \<or> data \<le> i \<longrightarrow> pkt' ! i = pkt ! i) \<and> e \<le> data \<and>
    wname pkt' pos pos e ls' \<and> same_name ls' ls \<and> (\<not> compression \<longrightarrow> ls' = ls)"
proof (cases "compression \<and> data - pos > 2")
  case False
  then show ?thesis using assms(1) by (auto simp: dns_compress_name_def same_name_def)
next
  case True
  then have r: "region_ok pkt b pos lb" using assms(3) by simp
  show ?thesis
  proof (cases lb)
    case None
    then have b: "b = 0" "names pkt pos 0" using r by (auto simp: region_ok_def)
    show ?thesis
    proof (cases "pos = 0")
      case pos: True
      then show ?thesis using True None b assms(1) by (auto simp: dns_compress_name_def same_name_def)
    next
      case pos: False
      from compress_ok [OF assms(1) _ _ assms(2) b(2), of None] obtain c pkt1 e1 ns1 ls1 where
        "dns_label_compress pkt 0 0 pos None pos data = Some (c, pkt1, e1, ns1)" "length pkt1 = length pkt"
        "\<forall>i. i < pos \<or> data \<le> i \<longrightarrow> pkt1 ! i = pkt ! i" "e1 \<le> data" "wname pkt1 pos pos e1 ls1" "same_name ls1 ls"
        by (auto simp: search_ok_def compressed_ok_def)
      then show ?thesis using True None b(1) pos by (auto simp: dns_compress_name_def)
    qed
  next
    case (Some l)
    then have "\<forall>(s, f) \<in> set (lb_blocks l). f \<le> pos \<and> names pkt f s" "lb_blocks l \<noteq> []" using r by (auto simp: region_ok_def)
    with compress_blocks_ok [OF assms(1,2)] obtain pkt1 e1 ls1 where
      "compress_blocks (lb_blocks l) pkt pos data = Some (pkt1, e1)" "length pkt1 = length pkt"
      "\<forall>i. i < pos \<or> data \<le> i \<longrightarrow> pkt1 ! i = pkt ! i" "e1 \<le> data" "wname pkt1 pos pos e1 ls1" "same_name ls1 ls" by blast
    moreover have "\<exists>x lb'. dns_label_add lb pos e1 = Some (x, lb')"
      using Some \<open>lb_blocks l \<noteq> []\<close> by (cases "last (lb_blocks l)") (simp add: dns_label_add_def Let_def)
    then obtain x lb' where "dns_label_add lb pos e1 = Some (x, lb')" by blast
    ultimately show ?thesis using True Some
      by (intro exI [of _ pkt1] exI [of _ e1] exI [of _ ls1] exI [of _ lb']) (simp add: dns_compress_name_def)
  qed
qed

lemma check_strip:
  assumes "v \<noteq> []" "v \<noteq> [0x2e]" "hd v \<noteq> 0x2e" "check_chars v 0 True = Some k"
  shows "take (length v - k) v = strip v" "\<forall>l \<in> set (labs [] (strip v)). wf_label l" "short_labels (labs [] (strip v))"
proof -
  have c: "k = (if v \<noteq> [] \<and> last v = 0x2e then 1 else 0) \<and> (\<forall>l \<in> set (labs [] (take (length v - k) v)). wf_label l) \<and>
      short_labels (labs [] (take (length v - k) v)) \<and> (True \<or> length (hd (labs [] (take (length v - k) v))) < 63)"
    by (rule check_labs [OF assms(4)]) (use assms in \<open>auto simp: begun_def\<close>)
  then show t: "take (length v - k) v = strip v" by (auto simp: strip_def butlast_conv_take)
  show "\<forall>l \<in> set (labs [] (strip v)). wf_label l" "short_labels (labs [] (strip v))" using c unfolding t by blast+
qed

lemma encode_wname:
  assumes "\<forall>l \<in> set (labs [] q). wf_label l" "pos + length q + 2 \<le> length pkt"
  obtains pkt' where "encode_chars (pkt[pos := 0]) pos (pos + 1) q = Some (pkt', pos + length q + 1)" "length pkt' = length pkt"
    "wname (pkt'[pos + length q + 1 := 0]) cur pos (pos + length q + 2) (labs [] q)"
    "\<forall>i. i < pos \<or> pos + length q + 2 \<le> i \<longrightarrow> pkt'[pos + length q + 1 := 0] ! i = pkt ! i"
proof -
  let ?pre = "take pos pkt" let ?rest = "drop (pos + 1) pkt" let ?w = "wire (labs [] q)"
  have pre: "length ?pre = pos" "length ?w = length q + 1" using assms(2) by (auto simp: length_wire_labs)
  have "pkt[pos := 0] = ?pre @ 0 # ?rest" using assms(2) by (simp add: upd_conv_take_nth_drop)
  then have e: "encode_chars (pkt[pos := 0]) pos (pos + 1) q = Some (?pre @ ?w @ drop (length q) ?rest, pos + length q + 1)"
    using encode_chars_wire [of q ?rest ?pre "[]"] pre assms(2) by simp
  let ?pkt = "?pre @ ?w @ drop (length q) ?rest"
  have d: "drop (length q) ?rest = (drop (length q) ?rest ! 0) # drop (pos + length q + 2) pkt"
    using assms(2) by (simp add: Cons_nth_drop_Suc add.commute)
  have p: "?pkt[pos + length q + 1 := 0] = ?pre @ ?w @ 0 # drop (pos + length q + 2) pkt"
    using pre by (subst d) (simp add: list_update_append)
  show ?thesis
  proof (rule that [OF e])
    show "length ?pkt = length pkt" using pre assms(2) by simp
    show "wname (?pkt[pos + length q + 1 := 0]) cur pos (pos + length q + 2) (labs [] q)"
      using wire_wname [OF assms(1), of ?pre "drop (pos + length q + 2) pkt" cur] pre unfolding p by simp
    show "\<forall>i. i < pos \<or> pos + length q + 2 \<le> i \<longrightarrow> ?pkt[pos + length q + 1 := 0] ! i = pkt ! i"
      unfolding p using pre assms(2) by (auto simp: nth_append nth_Cons' intro!: arg_cong [where f = "nth pkt"])
  qed
qed

lemma encode_ok:
  assumes "b + buf_len \<le> length pkt" "pos \<le> 2 ^ 14" "compression \<Longrightarrow> region_ok pkt b pos lb"
  shows "\<exists>r need pkt' lb'. fr_dns_label_from_value_box pkt b buf_len pos compression (Some v) lb = (Enc_Ret r need, pkt', lb') \<and>
    (r \<le> 0 \<and> pkt' = pkt \<and> lb' = lb \<or>
     0 < r \<and> pos + nat r \<le> b + buf_len \<and> length pkt' = length pkt \<and>
     (\<forall>i. i < pos \<or> pos + length (strip v) + 2 \<le> i \<longrightarrow> pkt' ! i = pkt ! i) \<and>
     (\<exists>ls. wname pkt' pos pos (pos + nat r) ls \<and> short_labels ls \<and> map lower (dotted ls) = map lower (strip v) \<and>
       (\<not> compression \<longrightarrow> dotted ls = strip v)))"
  (is "\<exists>r need pkt' lb'. ?enc = _ \<and> _")
proof -
  consider (out) "buf_len = 0 \<or> \<not> (b \<le> pos \<and> pos < b + buf_len)" | (root) "b \<le> pos" "pos < b + buf_len" "v = [] \<or> v = [0x2e]"
    | (bad) "b \<le> pos" "pos < b + buf_len" "v \<noteq> []" "v \<noteq> [0x2e]" "hd v = 0x2e \<or> check_chars v 0 True = None"
    | (name) k where "b \<le> pos" "pos < b + buf_len" "v \<noteq> []" "v \<noteq> [0x2e]" "hd v \<noteq> 0x2e" "check_chars v 0 True = Some k"
    by (metis not_None_eq)
  then show ?thesis
  proof cases
    case out
    then have "?enc = (Enc_Ret (-1) None, pkt, lb)" by (auto simp: fr_dns_label_from_value_box_def)
    then show ?thesis by simp
  next
    case root
    then have "?enc = (Enc_Ret 1 None, pkt[pos := 0], lb)" using assms(1) by (auto simp: fr_dns_label_from_value_box_def)
    moreover have "wname (pkt[pos := 0]) pos pos (pos + 1) []" using wname.zero [of pos "pkt[pos := 0]"] root(2) assms(1) by simp
    ultimately show ?thesis using root by (auto simp: strip_def short_labels_def intro!: exI [of _ "[]"])
  next
    case bad
    then have "?enc = (Enc_Ret (-1) None, pkt, lb)" by (auto simp: fr_dns_label_from_value_box_def)
    then show ?thesis by simp
  next
    case name
    note strip = check_strip [OF name(3-6)]
    show ?thesis
    proof (cases "pos + length (strip v) + 2 > b + buf_len")
      case True
      then have "?enc = (Enc_Ret 0 (Some (pos + length (strip v) + 2 - b)), pkt, lb)"
        using name strip(1) by (simp add: fr_dns_label_from_value_box_def Let_def)
      then show ?thesis by simp
    next
      case False
      let ?n = "length (strip v)"
      obtain pkt1 where e: "encode_chars (pkt[pos := 0]) pos (pos + 1) (strip v) = Some (pkt1, pos + ?n + 1)" "length pkt1 = length pkt"
          "wname (pkt1[pos + ?n + 1 := 0]) pos pos (pos + ?n + 2) (labs [] (strip v))"
          "\<forall>i. i < pos \<or> pos + ?n + 2 \<le> i \<longrightarrow> pkt1[pos + ?n + 1 := 0] ! i = pkt ! i"
        using encode_wname [OF strip(2), of pos pkt pos] False assms(1) by auto
      have enc: "?enc = dns_compress_name (pkt1[pos + ?n + 1 := 0]) b pos compression (pos + ?n + 2) lb"
        using name strip(1) e(1,2) False assms(1) by (simp add: fr_dns_label_from_value_box_def Let_def)
      have le: "pos \<le> length pkt" using name(2) assms(1) by simp
      have reg: "compression \<Longrightarrow> region_ok (pkt1[pos + ?n + 1 := 0]) b pos lb"
        using assms(3) names_cong [of pkt _ _ "pkt1[pos + ?n + 1 := 0]"] e(2,4) le
        by (fastforce simp: region_ok_def split: option.splits)
      from compress_name_ok [OF e(3) assms(2) reg] obtain pkt' e' ls' lb' where
        r: "?enc = (Enc_Ret (int (e' - pos)) None, pkt', lb')" "length pkt' = length (pkt1[pos + ?n + 1 := 0])"
          "\<forall>i. i < pos \<or> pos + ?n + 2 \<le> i \<longrightarrow> pkt' ! i = pkt1[pos + ?n + 1 := 0] ! i" "e' \<le> pos + ?n + 2"
          "wname pkt' pos pos e' ls'" "same_name ls' (labs [] (strip v))" "\<not> compression \<longrightarrow> ls' = labs [] (strip v)"
        unfolding enc by blast
      have "map lower (dotted ls') = map lower (strip v)" "\<not> compression \<longrightarrow> dotted ls' = strip v" "short_labels ls'"
        using same_name_dotted [OF r(6)] same_name_short [OF r(6) strip(3)] r(7) by (auto simp: dotted_labs)
      moreover obtain n where "e' = pos + n" "0 < n" using wname_bounds [OF r(5)] less_imp_add_positive by blast
      ultimately show ?thesis using r e(2,4) False
        by (intro exI [of _ "int n"] exI [of _ None] exI [of _ pkt'] exI [of _ lb'] conjI disjI2 exI [of _ ls']) auto
    qed
  qed
qed

text \<open>
  C19: encoding never writes outside of the buffer.  When it fails, because of the name or because there is no room, nothing
  is written; when it succeeds, the bytes of the result are the name, which ends in a zero byte or, with compression, in a
  pointer to labels that are before it and differ at most in the case of letters, and nothing else of the packet changes.
\<close>

theorem dns_encode_ok:
  assumes "b + buf_len \<le> length pkt" "pos \<le> 2 ^ 14" "compression \<Longrightarrow> region_ok pkt b pos lb"
  shows "\<exists>r need pkt' lb'. fr_dns_label_from_value_box pkt b buf_len pos compression (Some v) lb = (Enc_Ret r need, pkt', lb') \<and>
    (r \<le> 0 \<and> pkt' = pkt \<and> lb' = lb \<or>
     0 < r \<and> pos + nat r \<le> b + buf_len \<and> length pkt' = length pkt \<and>
     (\<forall>i. i < pos \<or> pos + length (strip v) + 2 \<le> i \<longrightarrow> pkt' ! i = pkt ! i) \<and>
     (\<exists>ls. wname pkt' pos pos (pos + nat r) ls \<and> short_labels ls \<and> map lower (dotted ls) = map lower (strip v) \<and>
       (\<not> compression \<longrightarrow> dotted ls = strip v)))"
  using assms by (rule encode_ok)

subsection \<open>Decoding what was encoded\<close>

lemma bad_char_wf:
  assumes "wf_label (label_at pkt p)" "p + unat (pkt ! p) + 1 \<le> length pkt"
  shows "bad_char pkt (if pkt ! (p + 1) = 0x5f then p + 2 else p + 1) (p + 1 + unat (pkt ! p)) = None"
  unfolding bad_char_None
proof (intro allI impI)
  fix i assume i: "(if pkt ! (p + 1) = 0x5f then p + 2 else p + 1) \<le> i \<and> i < p + 1 + unat (pkt ! p)"
  let ?l = "label_at pkt p"
  have len: "length ?l = unat (pkt ! p)" using assms(2) by (rule length_label_at)
  have nth: "?l ! k = pkt ! (p + 1 + k)" if "k < length ?l" for k using that assms(2) by (simp add: label_at_def)
  have ne: "?l \<noteq> []" using assms(1) by (simp add: wf_label_def)
  show "label_char (pkt ! i)"
  proof (cases "i = p + 1")
    case True
    then have "hd ?l = pkt ! i" using nth [of 0] ne by (simp add: hd_conv_nth)
    then show ?thesis using assms(1) i True by (auto simp: wf_label_def split: if_splits)
  next
    case False
    then have "p + 2 \<le> i" using i by (auto split: if_splits)
    then obtain k where k: "i = p + 2 + k" using le_Suc_ex by blast
    then have "pkt ! i = tl ?l ! k" "k < length (tl ?l)" using nth [of "Suc k"] i len by (auto simp: nth_tl)
    then show ?thesis using assms(1) by (metis nth_mem wf_label_def)
  qed
qed

lemma walk_wname:
  assumes "wname pkt cur p e ls" "cur \<le> p" "e \<le> fin" "fin \<le> length pkt" "len + name_len first ls \<le> 255" "snd ns \<longleftrightarrow> cur \<noteq> start"
    "cur \<le> start"
  shows "dns_walk pkt fin start p cur len first ns None =
    (Dns_Ret (int (len + name_len first ls)) (if snd ns then fst ns else e), None)"
  using assms
proof (induction arbitrary: len first ns rule: wname.induct)
  case (zero p cur)
  then show ?case by (simp add: walk_zero dns_finish_def name_len_def)
next
  case (label p cur e ls)
  have b: "p + unat (pkt ! p) + 1 < e" "e \<le> length pkt" using wname_bounds [OF label.hyps(4)] by auto
  have "length (label_at pkt p) = unat (pkt ! p)" using b by (intro length_label_at) simp
  then have n: "len + name_len first (label_at pkt p # ls) = (if first then len else len + 1) + unat (pkt ! p) + name_len False ls"
    by (simp add: name_len_def)
  have "dns_walk pkt fin start p cur len first ns None =
      dns_walk pkt fin start (p + unat (pkt ! p) + 1) cur ((if first then len else len + 1) + unat (pkt ! p)) False ns None"
    using walk_label [of p fin pkt first len None None start cur ns] bad_char_wf [OF label.hyps(3)] b label.hyps(1,2) label.prems n
    by (simp add: dns_label_mark_def not_less)
  then show ?case using label.IH [of "(if first then len else len + 1) + unat (pkt ! p)" False ns] label.prems n by simp
next
  case (pointer p cur e' ls)
  have hi: "pkt ! p > 63" "\<not> pkt ! p < 0xc0" using not_63 pointer.hyps(2) by (auto simp: not_le [symmetric])
  have "pointer_ok pkt p cur None" using pointer.hyps pointer.prems(1) by (simp add: pointer_ok_def dns_pointer_valid_def)
  then have "dns_walk pkt fin start p cur len first ns None =
      dns_walk pkt fin start (ptr_offset pkt p) (ptr_offset pkt p) len first (if cur = start then (p + 2, True) else ns) None"
    using walk_pointer [of p fin pkt None start cur len first ns] hi pointer.hyps(1) pointer.prems(2,3) by (simp add: lb_ok_def)
  then show ?case using pointer.IH [of len first "if cur = start then (p + 2, True) else ns"] pointer.hyps pointer.prems by auto
qed

lemma name_at_wname: "name_at pkt fin nx p ls' \<Longrightarrow> wname pkt cur p e ls \<Longrightarrow> \<exists>zs. ls = ls' @ zs"
proof (induction arbitrary: cur e ls rule: name_at.induct)
  case (label p ls')
  obtain ls1 where "ls = label_at pkt p # ls1" "wname pkt cur (p + unat (pkt ! p) + 1) e ls1"
    using wname_labelE [OF label.prems label.hyps(3,4)] by blast
  then show ?case using label.IH by auto
next
  case (pointer p ls')
  have "\<not> pkt ! p < 63" "pkt ! p \<noteq> 63" using pointer.hyps(3) not_63 [of "pkt ! p"] less_imp_le [of "pkt ! p" 63] by auto
  from wname_pointerE [OF pointer.prems this] obtain e' where "wname pkt (ptr_offset pkt p) (ptr_offset pkt p) e' ls" by blast
  then show ?case using pointer.IH by blast
qed simp

lemma decode_wname:
  assumes "wname pkt pos pos e ls" "fin \<le> length pkt" "e \<le> fin" "2 \<le> length (dotted ls)" "length (dotted ls) \<le> 255"
  shows "fr_dns_label_to_value_box pkt 0 fin pos None = (Some (Box_Ret (int e - int pos) (Some (dotted ls))), None)"
proof -
  have b: "pos < e" using wname_bounds [OF assms(1)] by simp
  have len: "name_len True ls = length (dotted ls)" using assms(4) by (cases ls) (simp_all add: name_len_def)
  have walk: "dns_walk pkt fin pos pos pos 0 True (pos, False) None = (Dns_Ret (int (length (dotted ls))) e, None)"
    using walk_wname [OF assms(1) _ assms(3,2), of 0 True "(pos, False)" pos] assms(5) len by simp
  have "walk_inv pkt fin pos pos pos 0 True (pos, False)" using b assms(3) by (simp add: walk_inv_def)
  from walk_res_walk [OF this assms(2), of None] obtain ls' where
    ls': "name_at pkt fin e pos ls'" "name_len True ls' = length (dotted ls)"
    using assms(4) unfolding walk by (auto simp: walk_res_def lb_ok_def)
  then have d: "length (dotted ls') = length (dotted ls)" "ls' \<noteq> []" using assms(4) by (auto simp: name_len_def split: if_splits)
  obtain zs where zs: "ls = ls' @ zs" using name_at_wname [OF ls'(1) assms(1)] by blast
  have "zs = []"
  proof (rule ccontr)
    assume "zs \<noteq> []"
    then show False using d zs by (cases ls'; cases zs) auto
  qed
  then have eq: "ls' = ls" using zs by simp
  have "fr_dns_label_to_value_box pkt 0 fin pos None = (decode_loop pkt fin pos e (length (dotted ls)) (Some pos) None [], None)"
    using b assms(3,4) walk by (auto simp: fr_dns_label_to_value_box_start label_to_value_box_def fr_dns_label_uncompressed_length_def)
  then show ?thesis using decode_loop_name [OF ls'(1) assms(2), of "[]"] eq by (simp add: add_labels_def)
qed

text \<open>
  C6: compression is transparent.  When a name of 2 to 255 characters has been encoded, decoding at the place it was written
  to gives the name back, without a final dot and, where compression has replaced labels, in the case of the labels
  that were in the packet before; decoding takes exactly the bytes that were written.  Everything before the name is
  unchanged, and the new name can be compressed against in turn.
\<close>

theorem dns_roundtrip:
  assumes "b + buf_len \<le> length pkt" "pos \<le> 2 ^ 14" "compression \<Longrightarrow> region_ok pkt b pos lb"
    "fr_dns_label_from_value_box pkt b buf_len pos compression (Some v) lb = (Enc_Ret r need, pkt', lb')" "0 < r"
    "2 \<le> length (strip v)" "length (strip v) \<le> 255"
  shows "(\<exists>s. fr_dns_label_to_value_box pkt' 0 (pos + nat r) pos None = (Some (Box_Ret r (Some s)), None) \<and>
      map lower s = map lower (strip v) \<and> (\<not> compression \<longrightarrow> s = strip v)) \<and>
    take pos pkt' = take pos pkt \<and> names pkt' (pos + nat r) pos"
proof -
  from encode_ok [where compression = compression and v = v, OF assms(1-3)] assms(4,5) obtain ls where
    r: "pos + nat r \<le> b + buf_len" "length pkt' = length pkt" "\<forall>i. i < pos \<longrightarrow> pkt' ! i = pkt ! i"
      "wname pkt' pos pos (pos + nat r) ls" "short_labels ls" "map lower (dotted ls) = map lower (strip v)"
      "\<not> compression \<longrightarrow> dotted ls = strip v" by auto
  have len: "length (dotted ls) = length (strip v)" using r(6) by (metis length_map)
  have "fr_dns_label_to_value_box pkt' 0 (pos + nat r) pos None = (Some (Box_Ret (int (pos + nat r) - int pos) (Some (dotted ls))), None)"
    using decode_wname [OF r(4)] r(1,2) assms(1,6,7) len by simp
  then have "\<exists>s. fr_dns_label_to_value_box pkt' 0 (pos + nat r) pos None = (Some (Box_Ret r (Some s)), None) \<and>
      map lower s = map lower (strip v) \<and> (\<not> compression \<longrightarrow> s = strip v)" using r(6,7) assms(5) by auto
  moreover have "take pos pkt' = take pos pkt" using r(1-3) assms(1) by (intro nth_equalityI) auto
  moreover have "names pkt' (pos + nat r) pos" using names.name [OF r(4,5)] names.stop by blast
  ultimately show ?thesis by blast
qed

definition example_packet :: bytes where
  "example_packet = [2, 0x61, 0x62, 0, 9, 9, 9, 9, 9, 9, 9, 9]"

lemma example_region: "region_ok example_packet 0 4 None"
proof -
  have four: "Suc (Suc (Suc (Suc 0))) = 4" by simp
  have w: "wname example_packet 0 0 4 [[0x61, 0x62]]"
    using wire_wname [of "[[0x61, 0x62]]" "[]" "[9, 9, 9, 9, 9, 9, 9, 9]" 0]
    by (simp add: example_packet_def wire_def wf_label_def label_char_def four)
  have "names example_packet 4 0"
    by (rule names.name [OF w]) (simp_all add: short_labels_def names.stop)
  then show ?thesis by (simp add: region_ok_def)
qed

theorem dns_encode_ok_witness:
  "\<exists>r need pkt' lb'. fr_dns_label_from_value_box example_packet 0 12 4 True (Some [0x78, 0x2e, 0x41, 0x42]) None = (Enc_Ret r need, pkt', lb') \<and>
    (r \<le> 0 \<and> pkt' = example_packet \<and> lb' = None \<or>
     0 < r \<and> 4 + nat r \<le> 12 \<and> length pkt' = length example_packet \<and>
     (\<forall>i. i < 4 \<or> 4 + length (strip [0x78, 0x2e, 0x41, 0x42]) + 2 \<le> i \<longrightarrow> pkt' ! i = example_packet ! i) \<and>
     (\<exists>ls. wname pkt' 4 4 (4 + nat r) ls \<and> short_labels ls \<and> map lower (dotted ls) = map lower (strip [0x78, 0x2e, 0x41, 0x42]) \<and>
       (\<not> True \<longrightarrow> dotted ls = strip [0x78, 0x2e, 0x41, 0x42])))"
  using dns_encode_ok [of 0 12 example_packet 4 True None "[0x78, 0x2e, 0x41, 0x42]", unfolded add_0] example_region
  by (simp add: example_packet_def)

lemma example_encode:
  "fr_dns_label_from_value_box example_packet 0 12 4 True (Some [0x78, 0x2e, 0x41, 0x42]) None =
    (Enc_Ret 4 None, [2, 0x61, 0x62, 0, 1, 0x78, 0xc0, 0, 0x42, 0, 9, 9], None)"
  by (simp add: example_packet_def fr_dns_label_from_value_box_def label_char_def dns_compress_name_def
      dns_label_compress.simps scan_last.simps scan_suffix.simps label_at_def letter_def put_pointer_def ptr_offset_def Let_def)

theorem dns_roundtrip_witness:
  "fr_dns_label_from_value_box example_packet 0 12 4 True (Some [0x78, 0x2e, 0x41, 0x42]) None =
     (Enc_Ret 4 None, [2, 0x61, 0x62, 0, 1, 0x78, 0xc0, 0, 0x42, 0, 9, 9], None) \<and>
   (\<exists>s. fr_dns_label_to_value_box [2, 0x61, 0x62, 0, 1, 0x78, 0xc0, 0, 0x42, 0, 9, 9] 0 8 4 None = (Some (Box_Ret 4 (Some s)), None) \<and>
     map lower s = map lower (strip [0x78, 0x2e, 0x41, 0x42]) \<and> (\<not> True \<longrightarrow> s = strip [0x78, 0x2e, 0x41, 0x42])) \<and>
   names [2, 0x61, 0x62, 0, 1, 0x78, 0xc0, 0, 0x42, 0, 9, 9] 8 4"
  using dns_roundtrip [OF _ _ example_region example_encode] example_encode
  by (simp add: example_packet_def strip_def)

text \<open>The example of RFC 1035, section 4.1.4, as in the unit tests: names one after the other in one buffer.\<close>

lemmas encode_eval = fr_dns_label_from_value_box_def label_char_def dns_compress_name_def dns_label_compress.simps
  scan_last.simps scan_suffix.simps label_at_def letter_def put_pointer_def ptr_offset_def Let_def

lemma dns_encode_rfc1035_first:
  "fr_dns_label_from_value_box [0,0,0,0,0,0,0,0,0,0,0,0,0,0,0,0,0,0,0,0,0,0,0,0,0,0,0,0,0,0] 0 30 0 True
     (Some [0x46, 0x2e, 0x49, 0x53, 0x49, 0x2e, 0x41, 0x52, 0x50, 0x41]) None =
   (Enc_Ret 12 None, [0x01, 0x46, 0x03, 0x49, 0x53, 0x49, 0x04, 0x41, 0x52, 0x50, 0x41, 0x00, 0,0,0,0,0,0,0,0,0,0,0,0,0,0,0,0,0,0], None)"
  by (simp add: encode_eval)

lemma dns_encode_rfc1035_second:
  "fr_dns_label_from_value_box [0x01, 0x46, 0x03, 0x49, 0x53, 0x49, 0x04, 0x41, 0x52, 0x50, 0x41, 0x00, 0,0,0,0,0,0,0,0,0,0,0,0,0,0,0,0,0,0] 0 30 12 True
     (Some [0x46, 0x4f, 0x4f, 0x2e, 0x46, 0x2e, 0x49, 0x53, 0x49, 0x2e, 0x41, 0x52, 0x50, 0x41]) None =
   (Enc_Ret 6 None, [0x01, 0x46, 0x03, 0x49, 0x53, 0x49, 0x04, 0x41, 0x52, 0x50, 0x41, 0x00, 0x03, 0x46, 0x4f, 0x4f, 0xc0, 0x00,
      0xc0, 0x02, 0x53, 0x49, 0xc0, 0x06, 0x52, 0x50, 0x41, 0,0,0], None)"
  by (simp add: encode_eval)

text \<open>A name of one character has the length of the root, and is decoded as the root.\<close>

lemma dns_one_character:
  "fr_dns_label_from_value_box [9, 9, 9, 9] 0 4 0 False (Some [0x61]) None = (Enc_Ret 3 None, [1, 0x61, 0, 9], None)"
  "fr_dns_label_to_value_box [1, 0x61, 0, 9] 0 3 0 None = (Some (Box_Ret 3 (Some [0x2e])), None)"
proof -
  show "fr_dns_label_from_value_box [9, 9, 9, 9] 0 4 0 False (Some [0x61]) None = (Enc_Ret 3 None, [1, 0x61, 0, 9], None)"
    by (simp add: fr_dns_label_from_value_box_def label_char_def dns_compress_name_def Let_def)
  show "fr_dns_label_to_value_box [1, 0x61, 0, 9] 0 3 0 None = (Some (Box_Ret 3 (Some [0x2e])), None)"
    by (simp add: fr_dns_label_to_value_box_def label_to_value_box_def fr_dns_label_uncompressed_length_def dns_walk.simps
        bad_char.simps label_char_def dns_label_mark_def dns_finish_def Let_def)
qed

text \<open>A label of 63 characters is accepted when it is the first one only.\<close>

lemma check_chars_replicate: "check_chars (replicate k 0x61) n False = (if n + k \<le> 63 then Some 0 else if k = 0 then Some 0 else None)"
  by (induction k arbitrary: n) (auto simp: label_char_def)

lemma dns_label_63:
  "check_chars (0x61 # replicate 62 0x61) 0 True = Some 0"
  "check_chars (0x61 # 0x2e # 0x61 # replicate 62 0x61) 0 True = None"
  by (simp_all add: check_chars_replicate label_char_def)

end
