(* ===== verification/Spec2Isabelle.thy ===== *)
theory Spec2Isabelle
  imports Prelude Bounded_Queue Fifo Ring_Buffer Atomic_Queue Control Uint128 Server_Time Retry Digest Ctx_Pool Md5 Md4 Sha1 Radius_Packet Radius_Sign
    Radius_Password Radius_Tunnel Cmp Prio_Queue Heap Quick_Sort Base_N Base16 Base32 Base64 Dns Dns_Encode
begin

text \<open>
  A verification development for the FreeRADIUS server.
\<close>

end
